(* ===== verification/Prelude.thy ===== *)
theory Prelude
  imports Main "HOL-Library.Word" "HOL-Library.While_Combinator"
begin

text \<open>
  Machine words, byte-addressed memory and polling loops, shared by every component.

  A memory maps byte addresses to bytes. Shared memory is mapped at different virtual
  addresses in the two processes that use it, so an address here is the offset from the
  start of the mapping. The accesses of width 32 and 64 are little-endian, as on the
  x86 hosts the library runs on; they follow the pointer casts of the C++ code, which
  reads as \<^verbatim>\<open>uint32_t*\<close> what it wrote as \<^verbatim>\<open>uint64_t*\<close>.
\<close>

unbundle bit_operations_syntax

type_synonym u8 = "8 word"
type_synonym u16 = "16 word"
type_synonym u32 = "32 word"
type_synonym u64 = "64 word"
type_synonym mem = "nat \<Rightarrow> u8"

named_theorems mem_simps \<open>reads after writes of the byte-addressed memory\<close>

definition load32 :: "mem \<Rightarrow> nat \<Rightarrow> u32" where
  "load32 m a =
     ucast (m a) OR push_bit 8 (ucast (m (a + 1)))
     OR push_bit 16 (ucast (m (a + 2))) OR push_bit 24 (ucast (m (a + 3)))"

definition store32 :: "mem \<Rightarrow> nat \<Rightarrow> u32 \<Rightarrow> mem" where
  "store32 m a v =
     m(a := ucast v, a + 1 := ucast (drop_bit 8 v),
       a + 2 := ucast (drop_bit 16 v), a + 3 := ucast (drop_bit 24 v))"

definition load64 :: "mem \<Rightarrow> nat \<Rightarrow> u64" where
  "load64 m a = ucast (load32 m a) OR push_bit 32 (ucast (load32 m (a + 4)))"

definition store64 :: "mem \<Rightarrow> nat \<Rightarrow> u64 \<Rightarrow> mem" where
  "store64 m a v = store32 (store32 m a (ucast v)) (a + 4) (ucast (drop_bit 32 v))"

subsection \<open>Reading back what was written\<close>

lemma load32_store32 [simp, mem_simps]: "load32 (store32 m a v) a = v"
proof (rule bit_word_eqI)
  fix n assume "n < LENGTH(32)"
  then have n: "n < 32" by simp
  then consider "n < 8" | "8 \<le> n" "n < 16" | "16 \<le> n" "n < 24" | "24 \<le> n" "n < 32"
    by linarith
  then show "bit (load32 (store32 m a v) a) n = bit v n"
    by cases (auto simp: load32_def store32_def bit_or_iff bit_push_bit_iff bit_unsigned_iff
        bit_drop_bit_eq)
qed

lemma load32_store32_other [mem_simps]:
  "a + 4 \<le> b \<or> b + 4 \<le> a \<Longrightarrow> load32 (store32 m a v) b = load32 m b"
  by (auto simp: load32_def store32_def)

lemma store32_other: "b < a \<or> a + 4 \<le> b \<Longrightarrow> store32 m a v b = m b"
  by (auto simp: store32_def)

lemma store64_other: "b < a \<or> a + 8 \<le> b \<Longrightarrow> store64 m a v b = m b"
  by (auto simp: store64_def store32_other)

lemma word64_halves: "ucast (ucast v :: u32) OR push_bit 32 (ucast (ucast (drop_bit 32 v) :: u32)) = (v :: u64)"
proof (rule bit_word_eqI)
  fix n assume "n < LENGTH(64)"
  then have "n < 64" by simp
  then show "bit (ucast (ucast v :: u32) OR push_bit 32 (ucast (ucast (drop_bit 32 v) :: u32)) :: u64) n
      = bit v n"
    by (cases "n < 32")
      (auto simp: bit_or_iff bit_push_bit_iff bit_unsigned_iff bit_drop_bit_eq not_less)
qed

lemma load64_store64 [simp, mem_simps]: "load64 (store64 m a v) a = v"
  by (simp add: load64_def store64_def load32_store32_other word64_halves)

lemma load64_store64_other [mem_simps]:
  "a + 8 \<le> b \<or> b + 8 \<le> a \<Longrightarrow> load64 (store64 m a v) b = load64 m b"
  by (auto simp: load64_def store64_def load32_store32_other)

lemma load32_store64_low [mem_simps]: "load32 (store64 m a v) a = ucast v"
  by (simp add: store64_def load32_store32_other)

lemma load32_store64_high [mem_simps]: "load32 (store64 m a v) (a + 4) = ucast (drop_bit 32 v)"
  by (simp add: store64_def)

lemma load32_store64_other [mem_simps]:
  "a + 8 \<le> b \<or> b + 4 \<le> a \<Longrightarrow> load32 (store64 m a v) b = load32 m b"
  by (auto simp: store64_def load32_store32_other)

lemma load32_cong: "(\<And>i. i < 4 \<Longrightarrow> m (a + i) = m' (a + i)) \<Longrightarrow> load32 m a = load32 m' a"
proof -
  assume h: "\<And>i. i < 4 \<Longrightarrow> m (a + i) = m' (a + i)"
  have "m a = m' a" using h [of 0] by simp
  then show ?thesis using h [of 1] h [of 2] h [of 3] by (simp add: load32_def)
qed

lemma load64_cong: "(\<And>i. i < 8 \<Longrightarrow> m (a + i) = m' (a + i)) \<Longrightarrow> load64 m a = load64 m' a"
proof -
  assume h: "\<And>i. i < 8 \<Longrightarrow> m (a + i) = m' (a + i)"
  have "load32 m a = load32 m' a" using h by (intro load32_cong) simp
  moreover have "load32 m (a + 4) = load32 m' (a + 4)"
  proof (rule load32_cong)
    fix i :: nat assume "i < 4"
    then show "m (a + 4 + i) = m' (a + 4 + i)" using h [of "4 + i"] by (simp add: add.assoc)
  qed
  ultimately show ?thesis by (simp add: load64_def)
qed

lemma load32_zero [simp]: "load32 (\<lambda>_. 0) a = 0"
  by (simp add: load32_def)

lemma load64_zero [simp]: "load64 (\<lambda>_. 0) a = 0"
  by (simp add: load64_def)

subsection \<open>Words as numbers\<close>

lemma unat_add_one_small: "unat (x :: 'a :: len word) + 1 < 2 ^ LENGTH('a) \<Longrightarrow> unat (x + 1) = unat x + 1"
  by (metis no_olen_add_nat unat_plus_simple unsigned_1)

lemma add_one_below: "x < (y :: 'a :: len word) \<Longrightarrow> unat (x + 1) = unat x + 1"
proof -
  assume "x < y"
  then have "unat x < unat y" by (simp add: word_less_nat_alt)
  moreover have "unat y < 2 ^ LENGTH('a)" by simp
  ultimately have "unat x + 1 < 2 ^ LENGTH('a)" by linarith
  then show ?thesis by (rule unat_add_one_small)
qed

lemma unat_of_nat_small: "n < 2 ^ LENGTH('a) \<Longrightarrow> unat (of_nat n :: 'a :: len word) = n"
  by (simp add: unsigned_of_nat take_bit_nat_eq_self)

lemma unat_drop_bit: "unat (drop_bit n (x :: 'a :: len word)) = unat x div 2 ^ n"
  unfolding unat_drop_bit_eq by (simp only: drop_bit_eq_div)

lemma unat_ucast_small:
  "unat x < 2 ^ LENGTH('b) \<Longrightarrow> unat (ucast (x :: 'a :: len word) :: 'b :: len word) = unat x"
  by (simp add: unsigned_ucast_eq take_bit_nat_eq_self)

lemma unat_u32_less: "unat (c :: u32) < 2 ^ 32"
  using unsigned_less [of c] by simp

lemma unat_ucast_u64 [simp]: "unat (ucast (c :: u32) :: u64) = unat c"
  using unat_u32_less [of c] by (intro unat_ucast_small) simp

subsection \<open>Polling loops\<close>

text \<open>
  A loop that polls until the peer has moved on is \<open>while_option\<close>: its body is what the
  peer does during one sleep or one read, and \<open>None\<close> says that the loop never ends. A
  measure that falls as long as the loop goes round makes it return.
\<close>

lemma poll_returns:
  assumes "P s" and "\<And>s. P s \<Longrightarrow> b s \<Longrightarrow> P (c s) \<and> f (c s) < (f s :: nat)"
  shows "\<exists>t. while_option b c s = Some t \<and> P t \<and> \<not> b t"
proof -
  obtain t where t: "while_option b c s = Some t"
    using measure_while_option_Some [of P b c f s] assms by blast
  moreover have "P t"
    using while_option_rule [of P b c s t] t assms by blast
  moreover have "\<not> b t" using while_option_stop [OF t] .
  ultimately show ?thesis by blast
qed

lemma poll_stuck:
  assumes "P s" and "\<And>s. P s \<Longrightarrow> b s \<and> P (c s)"
  shows "while_option b c s = None"
proof (rule ccontr)
  assume "while_option b c s \<noteq> None"
  then obtain t where t: "while_option b c s = Some t" by auto
  then have "P t" using while_option_rule [of P b c s t] assms by blast
  with assms(2) while_option_stop [OF t] show False by blast
qed

lemma poll_at_once: "\<not> b s \<Longrightarrow> while_option b c s = Some s"
  by (subst while_option_unfold) simp

end
