(* ===== verification/Ring.thy ===== *)
theory Ring
  imports Prelude
begin

text \<open>
  Index arithmetic of a ring with one unused slot, on natural numbers: positions are
  below \<open>n\<close>, the next position wraps to 0 by comparison (not by \<open>mod\<close>), as the C++ code
  writes it, and the elements are those from the tail up to the head.
\<close>

definition ring_next :: "nat \<Rightarrow> nat \<Rightarrow> nat" where
  "ring_next n i = (if n \<le> i + 1 then 0 else i + 1)"

definition ring_count :: "nat \<Rightarrow> nat \<Rightarrow> nat \<Rightarrow> nat" where
  "ring_count n t h = (if t \<le> h then h - t else h + n - t)"

definition ring_pos :: "nat \<Rightarrow> nat \<Rightarrow> nat \<Rightarrow> nat" where
  "ring_pos n t i = (if t + i < n then t + i else t + i - n)"

definition ring_list :: "(nat \<Rightarrow> 'a) \<Rightarrow> nat \<Rightarrow> nat \<Rightarrow> nat \<Rightarrow> 'a list" where
  "ring_list buf n t h = map (\<lambda>i. buf (ring_pos n t i)) [0..<ring_count n t h]"

lemmas ring_defs = ring_next_def ring_count_def ring_pos_def

lemma length_ring_list [simp]: "length (ring_list buf n t h) = ring_count n t h"
  by (simp add: ring_list_def)

lemma ring_next_less [simp]: "0 < n \<Longrightarrow> ring_next n i < n"
  by (simp add: ring_next_def)

lemma ring_count_less: "t < n \<Longrightarrow> h < n \<Longrightarrow> ring_count n t h < n"
  by (auto simp: ring_count_def)

lemma ring_pos_less: "t < n \<Longrightarrow> i < n \<Longrightarrow> ring_pos n t i < n"
  by (auto simp: ring_pos_def)

lemma ring_count_zero: "t < n \<Longrightarrow> h < n \<Longrightarrow> ring_count n t h = 0 \<longleftrightarrow> h = t"
  by (auto simp: ring_count_def)

lemma ring_count_full:
  "t < n \<Longrightarrow> h < n \<Longrightarrow> ring_count n t h = n - 1 \<longleftrightarrow> ring_next n h = t"
  by (auto simp: ring_defs)

lemma ring_count_next_head:
  "t < n \<Longrightarrow> h < n \<Longrightarrow> ring_next n h \<noteq> t
    \<Longrightarrow> ring_count n t (ring_next n h) = ring_count n t h + 1"
  by (auto simp: ring_defs split: if_splits)

lemma ring_pos_head: "t < n \<Longrightarrow> h < n \<Longrightarrow> ring_pos n t (ring_count n t h) = h"
  by (auto simp: ring_defs)

lemma ring_pos_not_head: "t < n \<Longrightarrow> h < n \<Longrightarrow> i < ring_count n t h \<Longrightarrow> ring_pos n t i \<noteq> h"
  by (auto simp: ring_defs split: if_splits)

lemma ring_count_next_tail:
  "t < n \<Longrightarrow> h < n \<Longrightarrow> h \<noteq> t \<Longrightarrow> ring_count n t h = Suc (ring_count n (ring_next n t) h)"
  by (auto simp: ring_defs)

lemma ring_pos_next_tail:
  "t < n \<Longrightarrow> Suc i < n \<Longrightarrow> ring_pos n (ring_next n t) i = ring_pos n t (Suc i)"
  by (auto simp: ring_defs)

lemma ring_list_empty: "t < n \<Longrightarrow> h < n \<Longrightarrow> ring_list buf n t h = [] \<longleftrightarrow> h = t"
  by (simp add: ring_list_def ring_count_zero)

lemma ring_list_cong:
  "t < n \<Longrightarrow> h < n \<Longrightarrow> (\<And>i. i < n \<Longrightarrow> buf i = buf' i) \<Longrightarrow> ring_list buf n t h = ring_list buf' n t h"
  unfolding ring_list_def
proof (rule map_cong [OF refl])
  fix i
  assume bounds: "t < n" "h < n" and eq: "\<And>i. i < n \<Longrightarrow> buf i = buf' i"
    and "i \<in> set [0..<ring_count n t h]"
  then have "i < n" using ring_count_less [of t n h] by simp
  with bounds eq show "buf (ring_pos n t i) = buf' (ring_pos n t i)"
    by (simp add: ring_pos_less)
qed

lemma ring_list_push:
  assumes "t < n" "h < n" "ring_next n h \<noteq> t"
  shows "ring_list (buf(h := v)) n t (ring_next n h) = ring_list buf n t h @ [v]"
  using assms ring_pos_not_head [OF assms(1,2)]
  by (auto simp: ring_list_def ring_count_next_head ring_pos_head)

lemma ring_list_pop:
  assumes "t < n" "h < n" "h \<noteq> t"
  shows "ring_list buf n t h = buf t # ring_list buf n (ring_next n t) h"
proof -
  have c: "ring_count n t h = Suc (ring_count n (ring_next n t) h)"
    using assms by (rule ring_count_next_tail)
  have lt: "ring_count n t h < n" using assms(1,2) by (rule ring_count_less)
  have p0: "ring_pos n t 0 = t" using assms(1) by (simp add: ring_pos_def)
  show ?thesis
    unfolding ring_list_def c
    using lt c assms(1) p0
    by (auto simp: upt_conv_Cons map_Suc_upt [symmetric] ring_pos_next_tail simp del: upt_Suc)
qed

end
