(* ===== verification/FifoSpec.thy ===== *)
theory FifoSpec
  imports Prelude
begin

text \<open>
  The contract of a bounded queue that lives in a shared memory: one memory holds several
  queues, each named by its handle, and an operation on one leaves every queue apart
  from it as it was. The clients of the C++ class (the simulator side and the software
  side of the link) are proved against this contract only.
\<close>

datatype 'v fop = Push 'v | Pop

text \<open>
  How every client uses a queue: it pushes only after it saw the queue not full, and reads
  the tail and pops only after it saw the queue not empty. The result is the list of the
  values read, the list of the values accepted, and the memory.
\<close>

fun run_fops ::
  "('v \<Rightarrow> 'm \<Rightarrow> 'm) \<Rightarrow> ('m \<Rightarrow> 'm) \<Rightarrow> ('m \<Rightarrow> 'v) \<Rightarrow> ('m \<Rightarrow> bool) \<Rightarrow> ('m \<Rightarrow> bool)
    \<Rightarrow> 'v fop list \<Rightarrow> 'm \<Rightarrow> 'v list \<times> 'v list \<times> 'm" where
  "run_fops enq deq front em fl [] m = ([], [], m)"
| "run_fops enq deq front em fl (Push v # ops) m =
     (if fl m then run_fops enq deq front em fl ops m
      else let (outs, ins, m') = run_fops enq deq front em fl ops (enq v m) in (outs, v # ins, m'))"
| "run_fops enq deq front em fl (Pop # ops) m =
     (if em m then run_fops enq deq front em fl ops m
      else let (outs, ins, m') = run_fops enq deq front em fl ops (deq m) in (front m # outs, ins, m'))"

text \<open>The reference: a list that takes values at its end as long as it has fewer than \<open>n\<close>.\<close>

definition queue_put :: "nat \<Rightarrow> 'v \<Rightarrow> 'v list \<Rightarrow> 'v list" where
  "queue_put n v q = (if length q < n then q @ [v] else q)"

definition queue_run :: "nat \<Rightarrow> 'v fop list \<Rightarrow> 'v list \<Rightarrow> 'v list \<times> 'v list \<times> 'v list" where
  "queue_run n = run_fops (queue_put n) tl hd (\<lambda>q. q = []) (\<lambda>q. n \<le> length q)"

locale fifo_heap =
  fixes enq :: "'f \<Rightarrow> 'v \<Rightarrow> 'm \<Rightarrow> 'm"
    and deq :: "'f \<Rightarrow> 'm \<Rightarrow> 'm"
    and front :: "'f \<Rightarrow> 'm \<Rightarrow> 'v"
    and is_empty :: "'f \<Rightarrow> 'm \<Rightarrow> bool"
    and is_full :: "'f \<Rightarrow> 'm \<Rightarrow> bool"
    and contents :: "'f \<Rightarrow> 'm \<Rightarrow> 'v list"
    and valid :: "'f \<Rightarrow> 'm \<Rightarrow> bool"
    and room :: "'f \<Rightarrow> nat"
    and apart :: "'f \<Rightarrow> 'f \<Rightarrow> bool"
  assumes contents_enq: "valid f m \<Longrightarrow> length (contents f m) < room f \<Longrightarrow>
      contents f (enq f v m) = contents f m @ [v]"
    and enq_when_full: "valid f m \<Longrightarrow> length (contents f m) = room f \<Longrightarrow> enq f v m = m"
    and contents_deq: "valid f m \<Longrightarrow> contents f (deq f m) = tl (contents f m)"
    and front_hd: "valid f m \<Longrightarrow> contents f m \<noteq> [] \<Longrightarrow> front f m = hd (contents f m)"
    and is_empty_iff: "valid f m \<Longrightarrow> is_empty f m \<longleftrightarrow> contents f m = []"
    and is_full_iff: "valid f m \<Longrightarrow> is_full f m \<longleftrightarrow> length (contents f m) = room f"
    and contents_bounded: "valid f m \<Longrightarrow> length (contents f m) \<le> room f"
    and valid_enq: "valid f m \<Longrightarrow> valid f (enq f v m)"
    and valid_deq: "valid f m \<Longrightarrow> valid f (deq f m)"
    and enq_apart: "apart f g \<Longrightarrow> valid f m \<Longrightarrow> valid g m \<Longrightarrow>
      valid g (enq f v m) \<and> contents g (enq f v m) = contents g m"
    and deq_apart: "apart f g \<Longrightarrow> valid f m \<Longrightarrow> valid g m \<Longrightarrow>
      valid g (deq f m) \<and> contents g (deq f m) = contents g m"
begin

lemma enq_accepts: "valid f m \<Longrightarrow> \<not> is_full f m \<Longrightarrow> contents f (enq f v m) = contents f m @ [v]"
  using contents_bounded [of f m] by (simp add: contents_enq is_full_iff)

lemma deq_takes: "valid f m \<Longrightarrow> \<not> is_empty f m \<Longrightarrow> contents f m = front f m # contents f (deq f m)"
  by (simp add: contents_deq front_hd is_empty_iff)

lemma not_empty_after_enq: "valid f m \<Longrightarrow> \<not> is_full f m \<Longrightarrow> \<not> is_empty f (enq f v m)"
  by (simp add: is_empty_iff valid_enq enq_accepts)

lemma not_full_after_deq: "valid f m \<Longrightarrow> \<not> is_empty f m \<Longrightarrow> \<not> is_full f (deq f m)"
  using contents_bounded [of f m] deq_takes [of f m] valid_deq [of f m]
  by (auto simp: is_full_iff)

lemma valid_run:
  assumes "valid f m"
    and "run_fops (enq f) (deq f) (front f) (is_empty f) (is_full f) ops m = (outs, ins, m')"
  shows "valid f m'"
  using assms
proof (induction ops arbitrary: m outs ins)
  case Nil
  then show ?case by simp
next
  case (Cons x ops)
  then show ?case
    by (cases x) (auto dest: valid_enq valid_deq split: if_splits prod.splits)
qed

lemma run_is_fifo:
  assumes "valid f m"
    and "run_fops (enq f) (deq f) (front f) (is_empty f) (is_full f) ops m = (outs, ins, m')"
  shows "outs @ contents f m' = contents f m @ ins"
  using assms
proof (induction ops arbitrary: m outs ins)
  case Nil
  then show ?case by simp
next
  case (Cons x ops)
  show ?case
  proof (cases x)
    case (Push v)
    show ?thesis
    proof (cases "is_full f m")
      case True
      with Push Cons show ?thesis by simp
    next
      case False
      with Push Cons.prems obtain ins' where
        "run_fops (enq f) (deq f) (front f) (is_empty f) (is_full f) ops (enq f v m) = (outs, ins', m')"
        and ins: "ins = v # ins'"
        by (auto split: prod.splits)
      then have "outs @ contents f m' = contents f (enq f v m) @ ins'"
        using Cons.IH valid_enq Cons.prems(1) by blast
      with False ins Cons.prems(1) show ?thesis by (simp add: enq_accepts)
    qed
  next
    case Pop
    show ?thesis
    proof (cases "is_empty f m")
      case True
      with Pop Cons show ?thesis by simp
    next
      case False
      with Pop Cons.prems obtain outs' where
        "run_fops (enq f) (deq f) (front f) (is_empty f) (is_full f) ops (deq f m) = (outs', ins, m')"
        and outs: "outs = front f m # outs'"
        by (auto split: prod.splits)
      then have "outs' @ contents f m' = contents f (deq f m) @ ins"
        using Cons.IH valid_deq Cons.prems(1) by blast
      with outs deq_takes [OF Cons.prems(1) False] show ?thesis by simp
    qed
  qed
qed

text \<open>
  Operation by operation the memory does what the reference does: both accept and refuse the
  same values, read the same ones, and hold the same ones in the end.
\<close>

lemma contents_put: "valid f m \<Longrightarrow> contents f (enq f v m) = queue_put (room f) v (contents f m)"
  using contents_bounded [of f m] by (auto simp: queue_put_def contents_enq enq_when_full)

lemma full_when: "valid f m \<Longrightarrow> is_full f m \<longleftrightarrow> room f \<le> length (contents f m)"
  using contents_bounded [of f m] by (auto simp: is_full_iff)

lemma run_refines:
  assumes "valid f m"
    and "run_fops (enq f) (deq f) (front f) (is_empty f) (is_full f) ops m = (outs, ins, m')"
  shows "queue_run (room f) ops (contents f m) = (outs, ins, contents f m')"
  using assms unfolding queue_run_def
proof (induction ops arbitrary: m outs ins)
  case Nil
  then show ?case by simp
next
  case (Cons x ops)
  show ?case
  proof (cases x)
    case (Push v)
    then show ?thesis
      using Cons.IH [of m] Cons.IH [of "enq f v m"] Cons.prems
      by (auto simp: full_when contents_put valid_enq split: if_splits prod.splits)
  next
    case Pop
    then show ?thesis
      using Cons.IH [of m] Cons.IH [of "deq f m"] Cons.prems
      by (auto simp: is_empty_iff contents_deq front_hd valid_deq split: if_splits prod.splits)
  qed
qed

end

end
