(* ===== verification/ShmFifo.thy ===== *)
theory ShmFifo
  imports Ring FifoSpec
begin

text \<open>
  The class \<open>ShmFifo\<close> of \<^verbatim>\<open>cpp/ShmFifo.h\<close> and \<^verbatim>\<open>cpp/ShmFifo.cpp\<close>: a ring of 64-bit words
  in shared memory. The object holds addresses only; the two indices and the words live
  in the memory, where the peer process sees them. Word 0 of the region is the head
  index, word 1 the tail index, word 2 a magic number, the data starts at word 3.
\<close>

record shmfifo =
  fmem :: nat
  fsize :: u64
  headidx :: nat
  tailidx :: nat

definition fifo_magic :: u64 where
  "fifo_magic = 0xc001d00d"

text \<open>The constructor; \<open>(uint64_t)size\<close> sign-extends the \<open>int\<close> argument.\<close>

definition ShmFifo_init :: "nat \<Rightarrow> u32 \<Rightarrow> mem \<Rightarrow> shmfifo \<times> mem" where
  "ShmFifo_init base sz m =
     (let f = \<lparr>fmem = base + 3 * 8, fsize = scast sz - 3, headidx = base, tailidx = base + 8\<rparr> in
      if load64 m (base + 2 * 8) \<noteq> fifo_magic
      then (let m1 = store64 m (headidx f) 0;
                m2 = store64 m1 (tailidx f) 0;
                m3 = store64 m2 (base + 2 * 8) fifo_magic
            in (f, m3))
      else (f, m))"

definition fifo_pop :: "shmfifo \<Rightarrow> mem \<Rightarrow> mem" where
  "fifo_pop f m =
     (if load64 m (tailidx f) = load64 m (headidx f) then m
      else let m1 = store64 m (tailidx f) (load64 m (tailidx f) + 1) in
           if load64 m1 (tailidx f) \<ge> fsize f then store64 m1 (tailidx f) 0 else m1)"

text \<open>The first two lines of \<open>push\<close> and of \<open>full\<close>.\<close>

definition fifo_nexthead :: "shmfifo \<Rightarrow> mem \<Rightarrow> u64" where
  "fifo_nexthead f m =
     (let nexthead = load64 m (headidx f) + 1 in if nexthead \<ge> fsize f then 0 else nexthead)"

definition fifo_slot :: "shmfifo \<Rightarrow> u64 \<Rightarrow> nat" where
  "fifo_slot f i = fmem f + 8 * unat i"

definition fifo_push :: "shmfifo \<Rightarrow> u64 \<Rightarrow> mem \<Rightarrow> mem" where
  "fifo_push f v m =
     (let nexthead = fifo_nexthead f m in
      if nexthead = load64 m (tailidx f) then m
      else let m1 = store64 m (fifo_slot f (load64 m (headidx f))) v
           in store64 m1 (headidx f) nexthead)"

definition fifo_tail :: "shmfifo \<Rightarrow> mem \<Rightarrow> u64" where
  "fifo_tail f m = load64 m (fifo_slot f (load64 m (tailidx f)))"

definition fifo_empty :: "shmfifo \<Rightarrow> mem \<Rightarrow> bool" where
  "fifo_empty f m \<longleftrightarrow> load64 m (tailidx f) = load64 m (headidx f)"

definition fifo_full :: "shmfifo \<Rightarrow> mem \<Rightarrow> bool" where
  "fifo_full f m \<longleftrightarrow> fifo_nexthead f m = load64 m (tailidx f)"

subsection \<open>Well-formed queues and what they hold\<close>

definition fifo_wf :: "shmfifo \<Rightarrow> bool" where
  "fifo_wf f \<longleftrightarrow> tailidx f = headidx f + 8 \<and> fmem f = headidx f + 24 \<and> 0 < fsize f"

definition fifo_inv :: "shmfifo \<Rightarrow> mem \<Rightarrow> bool" where
  "fifo_inv f m \<longleftrightarrow> fifo_wf f \<and> load64 m (headidx f) < fsize f \<and> load64 m (tailidx f) < fsize f"

definition fifo_room :: "shmfifo \<Rightarrow> nat" where
  "fifo_room f = unat (fsize f) - 1"

definition fifo_end :: "shmfifo \<Rightarrow> nat" where
  "fifo_end f = fmem f + 8 * unat (fsize f)"

definition fifo_apart :: "shmfifo \<Rightarrow> shmfifo \<Rightarrow> bool" where
  "fifo_apart f g \<longleftrightarrow> fifo_end f \<le> headidx g \<or> fifo_end g \<le> headidx f"

definition fifo_word :: "shmfifo \<Rightarrow> mem \<Rightarrow> nat \<Rightarrow> u64" where
  "fifo_word f m i = load64 m (fmem f + 8 * i)"

definition fifo_list :: "shmfifo \<Rightarrow> mem \<Rightarrow> u64 list" where
  "fifo_list f m =
     ring_list (fifo_word f m) (unat (fsize f)) (unat (load64 m (tailidx f)))
       (unat (load64 m (headidx f)))"

lemma fifo_wfD:
  assumes "fifo_wf f"
  shows "tailidx f = headidx f + 8" "fmem f = headidx f + 24" "0 < fsize f"
    "fifo_end f = headidx f + 24 + 8 * unat (fsize f)"
  using assms by (auto simp: fifo_wf_def fifo_end_def)

lemma fifo_invD:
  assumes "fifo_inv f m"
  shows "fifo_wf f" "unat (load64 m (headidx f)) < unat (fsize f)"
    "unat (load64 m (tailidx f)) < unat (fsize f)"
  using assms by (auto simp: fifo_inv_def word_less_nat_alt)

lemma unat_next:
  assumes "i < (n :: u64)"
  shows "unat (if i + 1 \<ge> n then 0 else i + 1) = ring_next (unat n) (unat i)"
  using add_one_below [OF assms] by (auto simp: ring_next_def word_le_nat_alt)

lemma unat_nexthead:
  assumes "fifo_inv f m"
  shows "unat (fifo_nexthead f m) = ring_next (unat (fsize f)) (unat (load64 m (headidx f)))"
  using assms unat_next [of "load64 m (headidx f)" "fsize f"]
  by (simp add: fifo_inv_def fifo_nexthead_def Let_def)

lemma fifo_slot_range:
  assumes "fifo_wf f" "i < fsize f"
  shows "headidx f + 24 \<le> fifo_slot f i" "fifo_slot f i + 8 \<le> fifo_end f"
  using assms by (auto simp: fifo_slot_def fifo_wf_def fifo_end_def word_less_nat_alt)

lemma length_fifo_list:
  "length (fifo_list f m) =
    ring_count (unat (fsize f)) (unat (load64 m (tailidx f))) (unat (load64 m (headidx f)))"
  by (simp add: fifo_list_def)

lemma fifo_list_bounded:
  assumes "fifo_inv f m"
  shows "length (fifo_list f m) \<le> fifo_room f"
  using ring_count_less [OF fifo_invD(3) [OF assms] fifo_invD(2) [OF assms]]
  by (simp add: length_fifo_list fifo_room_def)

lemma fifo_empty_iff:
  assumes "fifo_inv f m"
  shows "fifo_empty f m \<longleftrightarrow> fifo_list f m = []"
  using fifo_invD [OF assms]
  by (auto simp: fifo_empty_def fifo_list_def ring_list_empty word_unat_eq_iff)

lemma fifo_full_iff:
  assumes "fifo_inv f m"
  shows "fifo_full f m \<longleftrightarrow> length (fifo_list f m) = fifo_room f"
  using unat_nexthead [OF assms] ring_count_full [OF fifo_invD(3) [OF assms] fifo_invD(2) [OF assms]]
  by (simp add: fifo_full_def length_fifo_list fifo_room_def word_unat_eq_iff)

subsection \<open>What an operation leaves alone\<close>

lemma fifo_push_other:
  assumes "fifo_inv f m" "a < headidx f \<or> fifo_end f \<le> a"
  shows "fifo_push f v m a = m a"
  using assms fifo_slot_range [of f "load64 m (headidx f)"] fifo_wfD [of f]
  by (auto simp: fifo_push_def Let_def store64_other fifo_inv_def)

lemma fifo_pop_other:
  assumes "fifo_inv f m" "a < headidx f \<or> fifo_end f \<le> a"
  shows "fifo_pop f m a = m a"
  using assms fifo_wfD [of f]
  by (auto simp: fifo_pop_def Let_def store64_other fifo_inv_def)

text \<open>A queue whose region kept its bytes is the same queue.\<close>

lemma fifo_region_cong:
  assumes "fifo_inv g m" "\<And>a. headidx g \<le> a \<Longrightarrow> a < fifo_end g \<Longrightarrow> m' a = m a"
  shows "fifo_inv g m'" "fifo_list g m' = fifo_list g m"
proof -
  note wf = fifo_wfD [OF fifo_invD(1) [OF assms(1)]]
  have h: "load64 m' (headidx g) = load64 m (headidx g)"
    by (rule load64_cong) (simp add: assms(2) wf)
  have t: "load64 m' (tailidx g) = load64 m (tailidx g)"
    by (rule load64_cong) (simp add: assms(2) wf)
  have w: "fifo_word g m' i = fifo_word g m i" if "i < unat (fsize g)" for i
    unfolding fifo_word_def using that by (intro load64_cong assms(2)) (simp_all add: wf)
  show "fifo_inv g m'" using assms(1) h t by (simp add: fifo_inv_def)
  show "fifo_list g m' = fifo_list g m"
    unfolding fifo_list_def h t
    using fifo_invD [OF assms(1)] by (intro ring_list_cong) (simp_all add: w)
qed

lemma fifo_push_apart:
  assumes "fifo_apart f g" "fifo_inv f m" "fifo_inv g m"
  shows "fifo_inv g (fifo_push f v m)" "fifo_list g (fifo_push f v m) = fifo_list g m"
proof -
  have same: "fifo_push f v m a = m a" if "headidx g \<le> a" "a < fifo_end g" for a
    using assms(1) that by (intro fifo_push_other [OF assms(2)]) (auto simp: fifo_apart_def)
  show "fifo_inv g (fifo_push f v m)" using fifo_region_cong(1) [OF assms(3)] same by blast
  show "fifo_list g (fifo_push f v m) = fifo_list g m"
    using fifo_region_cong(2) [OF assms(3)] same by blast
qed

lemma fifo_pop_apart:
  assumes "fifo_apart f g" "fifo_inv f m" "fifo_inv g m"
  shows "fifo_inv g (fifo_pop f m)" "fifo_list g (fifo_pop f m) = fifo_list g m"
proof -
  have same: "fifo_pop f m a = m a" if "headidx g \<le> a" "a < fifo_end g" for a
    using assms(1) that by (intro fifo_pop_other [OF assms(2)]) (auto simp: fifo_apart_def)
  show "fifo_inv g (fifo_pop f m)" using fifo_region_cong(1) [OF assms(3)] same by blast
  show "fifo_list g (fifo_pop f m) = fifo_list g m"
    using fifo_region_cong(2) [OF assms(3)] same by blast
qed

subsection \<open>The operations on the list of pending words\<close>

lemma fifo_pop_indices:
  assumes "fifo_inv f m"
  shows "load64 (fifo_pop f m) (headidx f) = load64 m (headidx f)"
    and "load64 (fifo_pop f m) (tailidx f) =
      (if fifo_empty f m then load64 m (tailidx f)
       else if load64 m (tailidx f) + 1 \<ge> fsize f then 0 else load64 m (tailidx f) + 1)"
  using fifo_wfD [OF fifo_invD(1) [OF assms]]
  by (auto simp: fifo_pop_def fifo_empty_def Let_def load64_store64_other)

lemma fifo_pop_word:
  assumes "fifo_inv f m" "i < unat (fsize f)"
  shows "fifo_word f (fifo_pop f m) i = fifo_word f m i"
  using fifo_wfD [OF fifo_invD(1) [OF assms(1)]]
  by (simp add: fifo_word_def fifo_pop_def Let_def load64_store64_other)

lemma fifo_pop_inv:
  assumes "fifo_inv f m"
  shows "fifo_inv f (fifo_pop f m)"
  using assms fifo_pop_indices [OF assms] fifo_wfD(3) [of f]
  by (auto simp: fifo_inv_def not_le)

lemma fifo_pop_list:
  assumes "fifo_inv f m"
  shows "fifo_list f (fifo_pop f m) = tl (fifo_list f m)"
proof (cases "fifo_empty f m")
  case True
  then have "fifo_pop f m = m" by (simp add: fifo_pop_def fifo_empty_def)
  with True show ?thesis using assms by (simp add: fifo_empty_iff)
next
  case False
  note d = fifo_invD(3,2) [OF assms]
  let ?n = "unat (fsize f)" and ?t = "unat (load64 m (tailidx f))" and ?h = "unat (load64 m (headidx f))"
  have ne: "?h \<noteq> ?t" using False by (simp add: fifo_empty_def word_unat_eq_iff eq_commute)
  have t': "unat (load64 (fifo_pop f m) (tailidx f)) = ring_next ?n ?t"
    using False unat_next [of "load64 m (tailidx f)" "fsize f"] assms
    by (simp add: fifo_pop_indices fifo_inv_def)
  have "fifo_list f (fifo_pop f m) = ring_list (fifo_word f m) ?n (ring_next ?n ?t) ?h"
    unfolding fifo_list_def t' fifo_pop_indices(1) [OF assms]
    using d by (intro ring_list_cong) (simp_all add: fifo_pop_word assms)
  then show ?thesis
    by (simp add: fifo_list_def ring_list_pop [OF d ne])
qed

lemma fifo_tail_hd:
  assumes "fifo_inv f m" "fifo_list f m \<noteq> []"
  shows "fifo_tail f m = hd (fifo_list f m)"
proof -
  have "unat (load64 m (headidx f)) \<noteq> unat (load64 m (tailidx f))"
    using assms by (auto simp: fifo_empty_iff [symmetric] fifo_empty_def dest: word_unat_eq_iff [THEN iffD2])
  from ring_list_pop [OF fifo_invD(3,2) [OF assms(1)] this, of "fifo_word f m"]
  show ?thesis by (simp add: fifo_list_def fifo_tail_def fifo_slot_def fifo_word_def)
qed

lemma fifo_push_full:
  "fifo_full f m \<Longrightarrow> fifo_push f v m = m"
  by (simp add: fifo_push_def fifo_full_def Let_def)

lemma fifo_push_indices:
  assumes "fifo_inv f m" "\<not> fifo_full f m"
  shows "load64 (fifo_push f v m) (headidx f) = fifo_nexthead f m"
    and "load64 (fifo_push f v m) (tailidx f) = load64 m (tailidx f)"
  using assms fifo_slot_range [of f "load64 m (headidx f)"] fifo_wfD [of f]
  by (auto simp: fifo_push_def fifo_full_def Let_def load64_store64_other fifo_inv_def)

lemma fifo_push_word:
  assumes "fifo_inv f m" "\<not> fifo_full f m" "i < unat (fsize f)"
  shows "fifo_word f (fifo_push f v m) i =
    ((fifo_word f m)(unat (load64 m (headidx f)) := v)) i"
proof (cases "i = unat (load64 m (headidx f))")
  case True
  then show ?thesis
    using assms(2) fifo_wfD [OF fifo_invD(1) [OF assms(1)]]
    by (simp add: fifo_word_def fifo_push_def fifo_full_def Let_def fifo_slot_def load64_store64_other)
next
  case False
  then have "i + 1 \<le> unat (load64 m (headidx f)) \<or> unat (load64 m (headidx f)) + 1 \<le> i" by linarith
  then have "load64 (store64 m (fifo_slot f (load64 m (headidx f))) v) (fmem f + 8 * i)
      = load64 m (fmem f + 8 * i)"
    by (intro load64_store64_other) (auto simp: fifo_slot_def)
  with False show ?thesis
    using assms(2) fifo_wfD [OF fifo_invD(1) [OF assms(1)]]
    by (simp add: fifo_word_def fifo_push_def fifo_full_def Let_def load64_store64_other)
qed

lemma fifo_push_inv:
  assumes "fifo_inv f m"
  shows "fifo_inv f (fifo_push f v m)"
proof (cases "fifo_full f m")
  case True
  then show ?thesis using assms by (simp add: fifo_push_full)
next
  case False
  have "fifo_nexthead f m < fsize f"
    using unat_nexthead [OF assms] fifo_invD(2) [OF assms] by (simp add: word_less_nat_alt)
  with False show ?thesis
    using assms by (simp add: fifo_inv_def fifo_push_indices)
qed

lemma fifo_push_list:
  assumes "fifo_inv f m" "\<not> fifo_full f m"
  shows "fifo_list f (fifo_push f v m) = fifo_list f m @ [v]"
proof -
  note d = fifo_invD(3,2) [OF assms(1)]
  let ?n = "unat (fsize f)" and ?t = "unat (load64 m (tailidx f))" and ?h = "unat (load64 m (headidx f))"
  have nf: "ring_next ?n ?h \<noteq> ?t"
    using assms(2) by (simp add: fifo_full_def word_unat_eq_iff unat_nexthead [OF assms(1)])
  have "fifo_list f (fifo_push f v m) =
      ring_list ((fifo_word f m)(?h := v)) ?n ?t (ring_next ?n ?h)"
    unfolding fifo_list_def fifo_push_indices [OF assms] unat_nexthead [OF assms(1)]
    using d by (intro ring_list_cong) (simp_all add: fifo_push_word [OF assms])
  then show ?thesis by (simp add: ring_list_push [OF d nf] fifo_list_def)
qed

interpretation shm: fifo_heap fifo_push fifo_pop fifo_tail fifo_empty fifo_full
  fifo_list fifo_inv fifo_room fifo_apart
proof unfold_locales
  fix f m v
  assume inv: "fifo_inv f m"
  show "length (fifo_list f m) < fifo_room f \<Longrightarrow> fifo_list f (fifo_push f v m) = fifo_list f m @ [v]"
    using inv by (simp add: fifo_push_list fifo_full_iff)
  show "length (fifo_list f m) = fifo_room f \<Longrightarrow> fifo_push f v m = m"
    using inv by (simp add: fifo_push_full fifo_full_iff)
qed (simp_all add: fifo_pop_list fifo_tail_hd fifo_empty_iff fifo_full_iff fifo_list_bounded
    fifo_push_inv fifo_pop_inv fifo_push_apart fifo_pop_apart)

subsection \<open>The constructor\<close>

text \<open>A region no peer has set up yet becomes an empty queue.\<close>

lemma ShmFifo_init_fresh:
  assumes "load64 m (base + 16) \<noteq> fifo_magic" "ShmFifo_init base sz m = (f, m')"
    and "(0 :: u64) < scast sz - 3"
  shows "fifo_inv f m' \<and> fifo_list f m' = [] \<and> headidx f = base \<and> fsize f = scast sz - 3
    \<and> load64 m' (base + 16) = fifo_magic"
  using assms
  by (auto simp: ShmFifo_init_def Let_def fifo_inv_def fifo_wf_def fifo_list_def
      load64_store64_other ring_list_def ring_count_def)

text \<open>The second process to construct a queue over the region changes nothing.\<close>

lemma ShmFifo_init_again:
  assumes "load64 m (base + 16) = fifo_magic"
  shows "ShmFifo_init base sz m =
    (\<lparr>fmem = base + 24, fsize = scast sz - 3, headidx = base, tailidx = base + 8\<rparr>, m)"
  using assms by (simp add: ShmFifo_init_def Let_def)

end
