(* ===== verification/BdbmConfig.thy ===== *)
theory BdbmConfig
  imports Prelude
begin

text \<open>
  The sizes of \<^verbatim>\<open>cpp/bdbmpcie.h\<close>, which \<^verbatim>\<open>cpp/PcieBdpi.cpp\<close> repeats: byte counts as numbers,
  the quantities the code calculates with at the width of its integers.
\<close>

definition DMA_BUFFER_SIZE :: nat where
  "DMA_BUFFER_SIZE = 1024 * 1024 * 4"

definition BAR0_SIZE :: nat where
  "BAR0_SIZE = 1024 * 1024"

definition SHM_SIZE :: nat where
  "SHM_SIZE = 1024 * 8 * 3 + DMA_BUFFER_SIZE"

definition IO_QUEUE_SIZE :: u32 where
  "IO_QUEUE_SIZE = 512"

definition CONFIG_BUFFER_SIZE :: u32 where
  "CONFIG_BUFFER_SIZE = 1024 * 16"

definition CONFIG_BUFFER_ISIZE :: u32 where
  "CONFIG_BUFFER_ISIZE = CONFIG_BUFFER_SIZE div 4"

text \<open>
  The device decodes 20 address bits of its BAR; user space starts at 16 KB (the constant
  \<^verbatim>\<open>IoUserSpaceOffset\<close> of \<^verbatim>\<open>src/PcieCtrl.bsv\<close>), and an \<^verbatim>\<open>IOWrite\<close> carries the offset from there.
\<close>

type_synonym ioaddr = "20 word"

definition io_userspace_offset :: ioaddr where
  "io_userspace_offset = 1024 * 16"

end
