(* ===== verification/ShmLayout.thy ===== *)
theory ShmLayout
  imports ShmFifo BdbmConfig
begin

text \<open>
  The shared segment of the simulation build: the DMA buffer, then three rings of 1024
  words each. Both processes compute the same three addresses
  (\<^verbatim>\<open>cpp/PcieBdpi.cpp\<close>, \<^verbatim>\<open>cpp/bdbmpcie.h\<close>, \<^verbatim>\<open>cpp/bdbmpcie.cpp\<close>).
\<close>

text \<open>\<open>shm_uptr + DMA_BUFFER_SIZE/sizeof(uint64_t) + 1024 * k\<close>, as a byte offset.\<close>

definition shm_fifo_base :: "nat \<Rightarrow> nat" where
  "shm_fifo_base k = (DMA_BUFFER_SIZE div 8 + 1024 * k) * 8"

definition shm_fifo :: "nat \<Rightarrow> shmfifo" where
  "shm_fifo k = \<lparr>fmem = shm_fifo_base k + 24, fsize = 1021, headidx = shm_fifo_base k,
     tailidx = shm_fifo_base k + 8\<rparr>"

definition magic_at :: "nat \<Rightarrow> mem \<Rightarrow> bool" where
  "magic_at k m \<longleftrightarrow> load64 m (shm_fifo_base k + 16) = fifo_magic"

text \<open>The segment once one side has set it up: three valid queues, marked as such.\<close>

definition shm_inv :: "mem \<Rightarrow> bool" where
  "shm_inv m \<longleftrightarrow> (\<forall>k<3. magic_at k m \<and> fifo_inv (shm_fifo k) m)"

text \<open>A segment as \<open>ftruncate\<close> leaves a new one, in the words that matter.\<close>

definition shm_fresh :: "mem \<Rightarrow> bool" where
  "shm_fresh m \<longleftrightarrow> (\<forall>k<3. \<not> magic_at k m)"

lemma all_less_3: "(\<forall>k<3. P k) \<longleftrightarrow> P 0 \<and> P 1 \<and> P (2::nat)"
  by (auto simp: numeral_3_eq_3 numeral_2_eq_2 less_Suc_eq)

lemma shm_fifo_wf [simp]: "fifo_wf (shm_fifo k)"
  by (simp add: fifo_wf_def shm_fifo_def)

lemma shm_fifo_room [simp]: "fifo_room (shm_fifo k) = 1020"
  by (simp add: fifo_room_def shm_fifo_def)

lemma shm_fifo_sel [simp]:
  "headidx (shm_fifo k) = shm_fifo_base k" "fsize (shm_fifo k) = 1021"
  "fifo_end (shm_fifo k) = shm_fifo_base k + 8192"
  by (simp_all add: shm_fifo_def fifo_end_def)

lemma shm_fifo_base_le: "j < k \<Longrightarrow> shm_fifo_base j + 8192 \<le> shm_fifo_base k"
  by (simp add: shm_fifo_base_def)

lemma shm_fifo_base_apart:
  "j \<noteq> k \<Longrightarrow> shm_fifo_base j + 8192 \<le> shm_fifo_base k \<or> shm_fifo_base k + 8192 \<le> shm_fifo_base j"
  using shm_fifo_base_le by (cases "j < k") auto

lemma magic_at_cong:
  "(\<And>a. shm_fifo_base k \<le> a \<Longrightarrow> a < shm_fifo_base k + 8192 \<Longrightarrow> m' a = m a)
    \<Longrightarrow> magic_at k m' = magic_at k m"
  unfolding magic_at_def by (subst load64_cong [of m' _ m]) simp_all

lemma dma_below_fifo: "DMA_BUFFER_SIZE \<le> shm_fifo_base k"
  by (simp add: shm_fifo_base_def DMA_BUFFER_SIZE_def)

lemma shm_fifo_in_segment: "k < 3 \<Longrightarrow> fifo_end (shm_fifo k) \<le> SHM_SIZE"
  by (simp add: shm_fifo_base_def DMA_BUFFER_SIZE_def SHM_SIZE_def)

lemma shm_fifo_apart: "j \<noteq> k \<Longrightarrow> fifo_apart (shm_fifo j) (shm_fifo k)"
  using shm_fifo_base_apart by (simp add: fifo_apart_def)

lemma shm_invD: "shm_inv m \<Longrightarrow> k < 3 \<Longrightarrow> fifo_inv (shm_fifo k) m"
  by (simp add: shm_inv_def)

text \<open>A write that stays in the DMA buffer leaves the queues as they are.\<close>

lemma shm_inv_dma:
  assumes "shm_inv m" "\<And>a. DMA_BUFFER_SIZE \<le> a \<Longrightarrow> m' a = m a"
  shows "shm_inv m'" and "k < 3 \<Longrightarrow> fifo_list (shm_fifo k) m' = fifo_list (shm_fifo k) m"
proof -
  have eq: "m' a = m a" if "shm_fifo_base k \<le> a" for a k
    using that dma_below_fifo [of k] by (intro assms(2)) simp
  have q: "fifo_inv (shm_fifo k) m'" "fifo_list (shm_fifo k) m' = fifo_list (shm_fifo k) m"
    if "k < 3" for k
    using fifo_region_cong [OF shm_invD [OF assms(1) that]] eq by (metis shm_fifo_sel(1))+
  have "magic_at k m' = magic_at k m" for k
    by (rule magic_at_cong) (rule eq)
  with q assms(1) show "shm_inv m'" by (simp add: shm_inv_def)
  show "k < 3 \<Longrightarrow> fifo_list (shm_fifo k) m' = fifo_list (shm_fifo k) m" by (rule q)
qed

lemma fifo_push_magic:
  assumes "fifo_inv (shm_fifo j) m"
  shows "magic_at k (fifo_push (shm_fifo j) v m) = magic_at k m"
proof (cases "j = k")
  case False
  then show ?thesis
    using shm_fifo_base_apart [OF False]
    by (intro magic_at_cong fifo_push_other [OF assms]) auto
next
  case True
  then show ?thesis
    using fifo_slot_range [of "shm_fifo j" "load64 m (headidx (shm_fifo j))"] assms
    by (auto simp: magic_at_def fifo_push_def Let_def fifo_inv_def load64_store64_other)
qed

lemma fifo_pop_magic:
  assumes "fifo_inv (shm_fifo j) m"
  shows "magic_at k (fifo_pop (shm_fifo j) m) = magic_at k m"
proof (cases "j = k")
  case False
  then show ?thesis
    using shm_fifo_base_apart [OF False]
    by (intro magic_at_cong fifo_pop_other [OF assms]) auto
next
  case True
  then show ?thesis
    using fifo_wfD(1) [OF shm_fifo_wf, of j]
    by (simp add: magic_at_def fifo_pop_def Let_def load64_store64_other)
qed

lemma shm_inv_push:
  assumes "shm_inv m" "j < 3"
  shows "shm_inv (fifo_push (shm_fifo j) v m)"
    and "k < 3 \<Longrightarrow> k \<noteq> j \<Longrightarrow>
      fifo_list (shm_fifo k) (fifo_push (shm_fifo j) v m) = fifo_list (shm_fifo k) m"
proof -
  note j = shm_invD [OF assms]
  have "fifo_inv (shm_fifo k) (fifo_push (shm_fifo j) v m)" if "k < 3" for k
    using shm.enq_apart [OF shm_fifo_apart j shm_invD [OF assms(1) that], of v] shm.valid_enq [OF j]
    by (cases "k = j") auto
  then show "shm_inv (fifo_push (shm_fifo j) v m)"
    using assms(1) by (simp add: shm_inv_def fifo_push_magic [OF j])
  show "k < 3 \<Longrightarrow> k \<noteq> j \<Longrightarrow>
      fifo_list (shm_fifo k) (fifo_push (shm_fifo j) v m) = fifo_list (shm_fifo k) m"
    using shm.enq_apart [OF shm_fifo_apart j shm_invD [OF assms(1)]] by auto
qed

lemma shm_inv_pop:
  assumes "shm_inv m" "j < 3"
  shows "shm_inv (fifo_pop (shm_fifo j) m)"
    and "k < 3 \<Longrightarrow> k \<noteq> j \<Longrightarrow>
      fifo_list (shm_fifo k) (fifo_pop (shm_fifo j) m) = fifo_list (shm_fifo k) m"
proof -
  note j = shm_invD [OF assms]
  have "fifo_inv (shm_fifo k) (fifo_pop (shm_fifo j) m)" if "k < 3" for k
    using shm.deq_apart [OF shm_fifo_apart j shm_invD [OF assms(1) that]] shm.valid_deq [OF j]
    by (cases "k = j") auto
  then show "shm_inv (fifo_pop (shm_fifo j) m)"
    using assms(1) by (simp add: shm_inv_def fifo_pop_magic [OF j])
  show "k < 3 \<Longrightarrow> k \<noteq> j \<Longrightarrow>
      fifo_list (shm_fifo k) (fifo_pop (shm_fifo j) m) = fifo_list (shm_fifo k) m"
    using shm.deq_apart [OF shm_fifo_apart j shm_invD [OF assms(1)]] by auto
qed

subsection \<open>Setting the segment up\<close>

lemma ShmFifo_init_fifo: "fst (ShmFifo_init (shm_fifo_base k) 1024 m) = shm_fifo k"
  by (simp add: ShmFifo_init_def Let_def shm_fifo_def)

definition shm_setup :: "nat \<Rightarrow> mem \<Rightarrow> mem" where
  "shm_setup k m = snd (ShmFifo_init (shm_fifo_base k) 1024 m)"

lemma shm_setup_other:
  "a < shm_fifo_base k \<or> shm_fifo_base k + 24 \<le> a \<Longrightarrow> shm_setup k m a = m a"
  by (auto simp: shm_setup_def ShmFifo_init_def Let_def store64_other)

lemma shm_setup_marked: "magic_at k m \<Longrightarrow> shm_setup k m = m"
  by (simp add: shm_setup_def ShmFifo_init_def magic_at_def Let_def)

lemma shm_setup_fresh:
  assumes "\<not> magic_at k m"
  shows "magic_at k (shm_setup k m)" "fifo_inv (shm_fifo k) (shm_setup k m)"
    "fifo_list (shm_fifo k) (shm_setup k m) = []"
  using ShmFifo_init_fresh [of m "shm_fifo_base k" 1024 "shm_fifo k" "shm_setup k m"] assms
    ShmFifo_init_fifo [of k m]
  by (auto simp: magic_at_def shm_setup_def prod_eq_iff)

lemma shm_setup_apart:
  assumes "j \<noteq> k"
  shows "magic_at k (shm_setup j m) = magic_at k m"
    "fifo_inv (shm_fifo k) m \<Longrightarrow> fifo_inv (shm_fifo k) (shm_setup j m)"
    "fifo_inv (shm_fifo k) m \<Longrightarrow> fifo_list (shm_fifo k) (shm_setup j m) = fifo_list (shm_fifo k) m"
proof -
  have out: "shm_setup j m a = m a" if "shm_fifo_base k \<le> a" "a < shm_fifo_base k + 8192" for a
    using that shm_fifo_base_apart [OF assms] by (intro shm_setup_other) auto
  show "magic_at k (shm_setup j m) = magic_at k m"
    by (rule magic_at_cong) (rule out)
  show "fifo_inv (shm_fifo k) m \<Longrightarrow> fifo_inv (shm_fifo k) (shm_setup j m)"
    by (rule fifo_region_cong(1)) (simp_all add: out)
  show "fifo_inv (shm_fifo k) m \<Longrightarrow> fifo_list (shm_fifo k) (shm_setup j m) = fifo_list (shm_fifo k) m"
    by (rule fifo_region_cong(2)) (simp_all add: out)
qed

text \<open>Both sides construct the queues in the order 0, 1, 2.\<close>

definition shm_setup_all :: "mem \<Rightarrow> mem" where
  "shm_setup_all m = shm_setup 2 (shm_setup 1 (shm_setup 0 m))"

lemma shm_setup_all_marked: "shm_inv m \<Longrightarrow> shm_setup_all m = m"
  by (simp add: shm_setup_all_def shm_setup_marked shm_inv_def all_less_3)

lemma shm_setup_all_fresh:
  assumes "shm_fresh m"
  shows "shm_inv (shm_setup_all m) \<and> (\<forall>k<3. fifo_list (shm_fifo k) (shm_setup_all m) = [])"
  using assms
  by (simp add: shm_setup_all_def shm_fresh_def shm_inv_def all_less_3 shm_setup_fresh shm_setup_apart)

lemma shm_setup_all_dma: "a < DMA_BUFFER_SIZE \<Longrightarrow> shm_setup_all m a = m a"
  using dma_below_fifo less_le_trans by (metis shm_setup_all_def shm_setup_other)

end
