(* ===== verification/PcieBdpi.thy ===== *)
theory PcieBdpi
  imports ShmLayout
begin

text \<open>
  The simulator's side of the link, \<^verbatim>\<open>cpp/PcieBdpi.cpp\<close>: C functions that the Bluespec
  simulation calls. The file's globals are a record; the shared segment is passed beside
  it. \<open>mm\<close> says whether a call of \<open>mmap\<close> made now succeeds. A result \<open>None\<close> is an access
  outside the mapped segment or through the null pointer.
\<close>

record bdpi =
  shm_ready :: bool
  shm_mapped :: bool
  infifo :: shmfifo
  outfifo :: shmfifo
  interruptfifo :: shmfifo
  dmaReadStartAddr :: u32
  dmaReadWordsRemain :: u32
  dmaReadWordsOffset :: u32

definition null_fifo :: shmfifo where
  "null_fifo = \<lparr>fmem = 0, fsize = 0, headidx = 0, tailidx = 0\<rparr>"

definition bdpi_start :: bdpi where
  "bdpi_start = \<lparr>shm_ready = False, shm_mapped = False, infifo = null_fifo, outfifo = null_fifo,
     interruptfifo = null_fifo, dmaReadStartAddr = 0, dmaReadWordsRemain = 0, dmaReadWordsOffset = 0\<rparr>"

text \<open>
  \<open>shmReady\<close> opens the segment with \<^verbatim>\<open>O_CREAT\<close>: a segment that does not exist (\<open>None\<close>) is made, and
  \<open>ftruncate\<close> fills it with zeros; one that exists is opened with what it holds.
\<close>

definition shm_create :: "mem option \<Rightarrow> mem" where
  "shm_create seg = (case seg of None \<Rightarrow> (\<lambda>_. 0) | Some m \<Rightarrow> m)"

definition shmReady :: "bool \<Rightarrow> bdpi \<Rightarrow> mem \<Rightarrow> bool \<times> bdpi \<times> mem" where
  "shmReady mm b m =
     (if shm_ready b then (True, b, m)
      else if \<not> mm then (False, b\<lparr>shm_mapped := False, shm_ready := False\<rparr>, m)
      else let (out, m1) = ShmFifo_init (DMA_BUFFER_SIZE div 8 * 8) 1024 m;
               (inf, m2) = ShmFifo_init ((DMA_BUFFER_SIZE div 8 + 1024) * 8) 1024 m1;
               (intr, m3) = ShmFifo_init ((DMA_BUFFER_SIZE div 8 + 1024 * 2) * 8) 1024 m2
           in (True, b\<lparr>shm_mapped := True, shm_ready := True, outfifo := out, infifo := inf,
                 interruptfifo := intr\<rparr>, m3))"

definition bdpiDmaWriteData ::
  "bool \<Rightarrow> u32 \<Rightarrow> u64 \<Rightarrow> u64 \<Rightarrow> bdpi \<Rightarrow> mem \<Rightarrow> (bool \<times> bdpi \<times> mem) option" where
  "bdpiDmaWriteData mm addr data1 data2 b m =
     (let (ok, b1, m1) = shmReady mm b m in
      if \<not> ok then Some (False, b1, m1)
      else let i = drop_bit 3 addr in
           if 8 * unat (i + 1) + 8 > SHM_SIZE then None
           else Some (True, b1, store64 (store64 m1 (8 * unat i) data1) (8 * unat (i + 1)) data2))"

definition bdpiDmaReadReq :: "bool \<Rightarrow> u32 \<Rightarrow> u32 \<Rightarrow> bdpi \<Rightarrow> mem \<Rightarrow> bool \<times> bdpi \<times> mem" where
  "bdpiDmaReadReq mm addr words b m =
     (let (ok, b1, m1) = shmReady mm b m in
      if \<not> ok then (False, b1, m1)
      else (True, b1\<lparr>dmaReadStartAddr := addr, dmaReadWordsRemain := words * 4,
              dmaReadWordsOffset := 0\<rparr>, m1))"

definition bdpiDmaReadReady :: "bool \<Rightarrow> bdpi \<Rightarrow> mem \<Rightarrow> bool \<times> bdpi \<times> mem" where
  "bdpiDmaReadReady mm b m =
     (let (ok, b1, m1) = shmReady mm b m in
      if \<not> ok then (False, b1, m1) else (dmaReadWordsRemain b1 > 0, b1, m1))"

definition bdpiDmaReadData :: "bdpi \<Rightarrow> mem \<Rightarrow> (u32 \<times> bdpi) option" where
  "bdpiDmaReadData b m =
     (let i = drop_bit 2 (dmaReadStartAddr b) + dmaReadWordsOffset b in
      if \<not> shm_mapped b \<or> 4 * unat i + 4 > SHM_SIZE then None
      else Some (load32 m (4 * unat i),
             b\<lparr>dmaReadWordsRemain := dmaReadWordsRemain b - 1,
               dmaReadWordsOffset := dmaReadWordsOffset b + 1\<rparr>))"

definition bdpiIOReady :: "bool \<Rightarrow> bdpi \<Rightarrow> mem \<Rightarrow> bool \<times> bdpi \<times> mem" where
  "bdpiIOReady mm b m =
     (let (ok, b1, m1) = shmReady mm b m in
      if \<not> ok then (False, b1, m1) else (\<not> fifo_empty (infifo b1) m1, b1, m1))"

text \<open>\<open>r = 1; r <<= (32+31)\<close>: the word that tells the simulation that nothing is there.\<close>

definition io_notready :: u64 where
  "io_notready = push_bit (32 + 31) 1"

definition bdpiIOData :: "bool \<Rightarrow> bdpi \<Rightarrow> mem \<Rightarrow> u64 \<times> bdpi \<times> mem" where
  "bdpiIOData mm b m =
     (let (ok, b1, m1) = shmReady mm b m in
      if \<not> ok then (io_notready, b1, m1)
      else if fifo_empty (infifo b1) m1 then (io_notready, b1, m1)
      else (fifo_tail (infifo b1) m1, b1, fifo_pop (infifo b1) m1))"

definition bdpiIOReadRespReady :: "bool \<Rightarrow> bdpi \<Rightarrow> mem \<Rightarrow> bool \<times> bdpi \<times> mem" where
  "bdpiIOReadRespReady mm b m =
     (let (ok, b1, m1) = shmReady mm b m in
      if \<not> ok then (False, b1, m1)
      else if fifo_full (outfifo b1) m1 then (False, b1, m1) else (True, b1, m1))"

definition bdpiIOReadResp :: "bool \<Rightarrow> u64 \<Rightarrow> bdpi \<Rightarrow> mem \<Rightarrow> bool \<times> bdpi \<times> mem" where
  "bdpiIOReadResp mm dat b m =
     (let (ok, b1, m1) = shmReady mm b m in
      if \<not> ok then (False, b1, m1)
      else if fifo_full (outfifo b1) m1 then (False, b1, m1)
      else (True, b1, fifo_push (outfifo b1) dat m1))"

definition bdpiInterruptReady :: "bool \<Rightarrow> bdpi \<Rightarrow> mem \<Rightarrow> bool \<times> bdpi \<times> mem" where
  "bdpiInterruptReady mm b m =
     (let (ok, b1, m1) = shmReady mm b m in
      if \<not> ok then (False, b1, m1)
      else if fifo_full (interruptfifo b1) m1 then (False, b1, m1) else (True, b1, m1))"

definition bdpiAssertInterrupt :: "bool \<Rightarrow> bdpi \<Rightarrow> mem \<Rightarrow> bdpi \<times> mem" where
  "bdpiAssertInterrupt mm b m =
     (let (ok, b1, m1) = shmReady mm b m in
      if \<not> ok then (b1, m1)
      else if fifo_full (interruptfifo b1) m1 then (b1, m1)
      else (b1, fifo_push (interruptfifo b1) 0 m1))"

subsection \<open>The state the calls keep\<close>

text \<open>Once ready, the globals name the three rings and the segment is set up.\<close>

definition bdpi_inv :: "bdpi \<Rightarrow> mem \<Rightarrow> bool" where
  "bdpi_inv b m \<longleftrightarrow> (shm_ready b \<longrightarrow>
     shm_mapped b \<and> outfifo b = shm_fifo 0 \<and> infifo b = shm_fifo 1 \<and> interruptfifo b = shm_fifo 2
     \<and> shm_inv m)"

text \<open>A segment as the calls find it: new, or set up by the other side.\<close>

definition shm_ok :: "mem \<Rightarrow> bool" where
  "shm_ok m \<longleftrightarrow> shm_fresh m \<or> shm_inv m"

lemma shm_bases:
  "DMA_BUFFER_SIZE div 8 * 8 = shm_fifo_base 0"
  "(DMA_BUFFER_SIZE div 8 + 1024) * 8 = shm_fifo_base 1"
  "(DMA_BUFFER_SIZE div 8 + 1024 * 2) * 8 = shm_fifo_base 2"
  by (simp_all add: shm_fifo_base_def)

lemma ShmFifo_init_setup: "ShmFifo_init (shm_fifo_base k) 1024 m = (shm_fifo k, shm_setup k m)"
  by (simp add: prod_eq_iff shm_setup_def ShmFifo_init_fifo)

lemma shmReady_first:
  "\<not> shm_ready b \<Longrightarrow> shmReady True b m =
    (True, b\<lparr>shm_mapped := True, shm_ready := True, outfifo := shm_fifo 0, infifo := shm_fifo 1,
       interruptfifo := shm_fifo 2\<rparr>, shm_setup_all m)"
  unfolding shmReady_def shm_bases ShmFifo_init_setup by (simp add: shm_setup_all_def)

lemma shmReady_fail: "\<not> shm_ready b \<Longrightarrow> shmReady False b m =
    (False, b\<lparr>shm_mapped := False, shm_ready := False\<rparr>, m)"
  by (simp add: shmReady_def)

lemma shmReady_again: "shm_ready b \<Longrightarrow> shmReady mm b m = (True, b, m)"
  by (simp add: shmReady_def)

lemma shm_ok_setup: "shm_ok m \<Longrightarrow> shm_inv (shm_setup_all m)"
  using shm_setup_all_fresh shm_setup_all_marked by (auto simp: shm_ok_def)

lemma bdpi_invD:
  assumes "bdpi_inv b m" "shm_ready b"
  shows "shm_mapped b" "outfifo b = shm_fifo 0" "infifo b = shm_fifo 1"
    "interruptfifo b = shm_fifo 2" "shm_inv m"
  using assms by (auto simp: bdpi_inv_def)

lemma shm_okI: "shm_inv m \<Longrightarrow> shm_ok m"
  by (simp add: shm_ok_def)

lemma shmReady_inv:
  assumes "bdpi_inv b m" "shm_ok m" "shmReady mm b m = (ok, b', m')"
  shows "bdpi_inv b' m' \<and> shm_ok m' \<and> ok = shm_ready b' \<and> (ok \<longrightarrow> shm_inv m')"
proof (cases "shm_ready b")
  case True
  then show ?thesis
    using assms bdpi_invD(5) [OF assms(1) True] by (simp add: shmReady_again)
next
  case False
  show ?thesis
  proof (cases mm)
    case True
    then show ?thesis
      using assms(3) shm_ok_setup [OF assms(2)]
      by (auto simp: shmReady_first [OF False] bdpi_inv_def intro: shm_okI)
  next
    case nomap: False
    then show ?thesis
      using assms by (auto simp: shmReady_fail [OF False] bdpi_inv_def)
  qed
qed

lemma bdpi_inv_mem:
  "bdpi_inv b m \<Longrightarrow> shm_inv m' \<Longrightarrow> bdpi_inv b m'"
  by (auto simp: bdpi_inv_def)

subsection \<open>Programmed I/O\<close>

lemma bdpiIOData_ready:
  assumes "bdpi_inv b m" "shm_ready b"
  shows "bdpiIOData mm b m =
    (if fifo_list (shm_fifo 1) m = [] then (io_notready, b, m)
     else (hd (fifo_list (shm_fifo 1) m), b, fifo_pop (shm_fifo 1) m))"
  using bdpi_invD [OF assms] shm_invD [of m 1]
  by (simp add: bdpiIOData_def shmReady_again assms(2) fifo_empty_iff fifo_tail_hd)

lemma bdpiIOReadResp_ready:
  assumes "bdpi_inv b m" "shm_ready b"
  shows "bdpiIOReadResp mm dat b m =
    (if length (fifo_list (shm_fifo 0) m) = 1020 then (False, b, m)
     else (True, b, fifo_push (shm_fifo 0) dat m))"
  using bdpi_invD [OF assms] shm_invD [of m 0]
  by (simp add: bdpiIOReadResp_def shmReady_again assms(2) fifo_full_iff)

lemma bdpiIOReadRespReady_ready:
  assumes "bdpi_inv b m" "shm_ready b"
  shows "bdpiIOReadRespReady mm b m = (length (fifo_list (shm_fifo 0) m) \<noteq> 1020, b, m)"
  using bdpi_invD [OF assms] shm_invD [of m 0]
  by (simp add: bdpiIOReadRespReady_def shmReady_again assms(2) fifo_full_iff)

lemma bdpiAssertInterrupt_ready:
  assumes "bdpi_inv b m" "shm_ready b"
  shows "bdpiAssertInterrupt mm b m =
    (b, if length (fifo_list (shm_fifo 2) m) = 1020 then m else fifo_push (shm_fifo 2) 0 m)"
  using bdpi_invD [OF assms] shm_invD [of m 2]
  by (simp add: bdpiAssertInterrupt_def shmReady_again assms(2) fifo_full_iff)

subsection \<open>DMA\<close>

lemma dma_word_index:
  "unat (drop_bit 3 (addr :: u32)) = unat addr div 8"
  "unat (drop_bit 3 (addr :: u32) + 1) = unat addr div 8 + 1"
proof -
  show a: "unat (drop_bit 3 addr) = unat addr div 8" by (simp add: unat_drop_bit)
  have "unat addr < 2 ^ 32" using unsigned_less [of addr] by simp
  then have "unat (drop_bit 3 addr) + 1 < 2 ^ LENGTH(32)" unfolding a by simp
  then show "unat (drop_bit 3 addr + 1) = unat addr div 8 + 1"
    using a by (simp add: unat_add_one_small)
qed

definition dma_at :: "u32 \<Rightarrow> nat" where
  "dma_at addr = 8 * (unat addr div 8)"

lemma bdpiDmaWriteData_eq:
  assumes "shmReady mm b m = (True, b1, m1)" "dma_at addr + 16 \<le> SHM_SIZE"
  shows "bdpiDmaWriteData mm addr d1 d2 b m =
    Some (True, b1, store64 (store64 m1 (dma_at addr) d1) (dma_at addr + 8) d2)"
proof -
  have "8 * unat (drop_bit 3 addr) = dma_at addr" "8 * unat (drop_bit 3 addr + 1) = dma_at addr + 8"
    by (simp_all add: dma_word_index dma_at_def)
  with assms show ?thesis by (simp add: bdpiDmaWriteData_def Let_def)
qed

fun dma_read_words :: "nat \<Rightarrow> bdpi \<Rightarrow> mem \<Rightarrow> (u32 list \<times> bdpi) option" where
  "dma_read_words 0 b m = Some ([], b)"
| "dma_read_words (Suc n) b m =
     (case bdpiDmaReadData b m of None \<Rightarrow> None
      | Some (d, b1) \<Rightarrow>
          (case dma_read_words n b1 m of None \<Rightarrow> None | Some (ds, b2) \<Rightarrow> Some (d # ds, b2)))"

lemma dma_read_words_eq:
  assumes "shm_mapped b" "4 * (unat (dmaReadStartAddr b) div 4 + unat (dmaReadWordsOffset b) + n) \<le> SHM_SIZE"
  shows "dma_read_words n b m =
    Some (map (\<lambda>k. load32 m (4 * (unat (dmaReadStartAddr b) div 4 + k)))
        [unat (dmaReadWordsOffset b) ..< unat (dmaReadWordsOffset b) + n],
      b\<lparr>dmaReadWordsRemain := dmaReadWordsRemain b - of_nat n,
        dmaReadWordsOffset := dmaReadWordsOffset b + of_nat n\<rparr>)"
  using assms
proof (induction n arbitrary: b)
  case 0
  then show ?case by simp
next
  case (Suc n)
  let ?s = "unat (dmaReadStartAddr b) div 4" and ?o = "unat (dmaReadWordsOffset b)"
  have small: "?s + ?o + 1 < 2 ^ 32" using Suc.prems(2) by (simp add: SHM_SIZE_def DMA_BUFFER_SIZE_def)
  have i: "unat (drop_bit 2 (dmaReadStartAddr b) + dmaReadWordsOffset b) = ?s + ?o"
    using small by (simp add: unat_add_lem [THEN iffD1] unat_drop_bit)
  have o1: "unat (dmaReadWordsOffset b + 1) = ?o + 1"
    using small by (intro unat_add_one_small) simp
  let ?b1 = "b\<lparr>dmaReadWordsRemain := dmaReadWordsRemain b - 1, dmaReadWordsOffset := dmaReadWordsOffset b + 1\<rparr>"
  have step: "bdpiDmaReadData b m = Some (load32 m (4 * (?s + ?o)), ?b1)"
    using Suc.prems by (simp add: bdpiDmaReadData_def i Let_def)
  have IH: "dma_read_words n ?b1 m =
    Some (map (\<lambda>k. load32 m (4 * (?s + k))) [?o + 1 ..< ?o + 1 + n],
      ?b1\<lparr>dmaReadWordsRemain := dmaReadWordsRemain b - 1 - of_nat n,
        dmaReadWordsOffset := dmaReadWordsOffset b + 1 + of_nat n\<rparr>)"
    using Suc.IH [of ?b1] Suc.prems o1 by simp
  have "[?o ..< ?o + Suc n] = ?o # [?o + 1 ..< ?o + 1 + n]" by (simp add: upt_conv_Cons)
  then show ?case
    using step IH by (simp add: algebra_simps)
qed

lemma dma_round_trip:
  assumes "bdpi_inv b m" "shm_ready b" "unat addr mod 8 = 0" "unat addr + 16 \<le> DMA_BUFFER_SIZE"
  shows "\<exists>m'. bdpiDmaWriteData mm addr d1 d2 b m = Some (True, b, m') \<and> bdpi_inv b m'
    \<and> (\<forall>k<3. fifo_list (shm_fifo k) m' = fifo_list (shm_fifo k) m)
    \<and> (case bdpiDmaReadReq mm addr 1 b m' of (ok, b1, m1) \<Rightarrow> ok \<and> m1 = m'
        \<and> (\<exists>b2. dma_read_words 4 b1 m' =
             Some ([ucast d1, ucast (drop_bit 32 d1), ucast d2, ucast (drop_bit 32 d2)], b2)
             \<and> fst (bdpiDmaReadReady mm b2 m') = False))"
proof -
  let ?a = "unat addr"
  note inv = bdpi_invD [OF assms(1,2)]
  have at: "dma_at addr = ?a" using assms(3) by (simp add: dma_at_def mod_0_imp_dvd)
  have le: "?a + 16 \<le> SHM_SIZE" using assms(4) by (simp add: SHM_SIZE_def)
  let ?m' = "store64 (store64 m ?a d1) (?a + 8) d2"
  have w: "bdpiDmaWriteData mm addr d1 d2 b m = Some (True, b, ?m')"
    using bdpiDmaWriteData_eq [OF shmReady_again [OF assms(2)], of addr] le at by simp
  have out: "?m' a = m a" if "DMA_BUFFER_SIZE \<le> a" for a
    using that assms(4) by (simp add: store64_other)
  note dma = shm_inv_dma [OF inv(5) out]
  let ?b1 = "b\<lparr>dmaReadStartAddr := addr, dmaReadWordsRemain := 4, dmaReadWordsOffset := 0\<rparr>"
  let ?b2 = "?b1\<lparr>dmaReadWordsRemain := 0, dmaReadWordsOffset := 4\<rparr>"
  have rq: "bdpiDmaReadReq mm addr 1 b ?m' = (True, ?b1, ?m')"
    using assms(2) by (simp add: bdpiDmaReadReq_def shmReady_again)
  have four: "4 * (?a div 4) = ?a" using assms(3) by presburger
  have "dma_read_words 4 ?b1 ?m' = Some (map (\<lambda>k. load32 ?m' (?a + 4 * k)) [0 ..< 4], ?b2)"
    using dma_read_words_eq [of ?b1 4 ?m'] inv(1) le by (simp add: four distrib_left)
  moreover have "map (\<lambda>k. load32 ?m' (?a + 4 * k)) [0 ..< 4] =
      [ucast d1, ucast (drop_bit 32 d1), ucast d2, ucast (drop_bit 32 d2)]"
    using load32_store64_high [of "store64 m ?a d1" "?a + 8" d2]
    by (simp add: upt_rec load32_store64_low load32_store64_high load32_store64_other add.assoc)
  ultimately have "dma_read_words 4 ?b1 ?m' =
      Some ([ucast d1, ucast (drop_bit 32 d1), ucast d2, ucast (drop_bit 32 d2)], ?b2)" by simp
  moreover have "fst (bdpiDmaReadReady mm ?b2 ?m') = False"
    using assms(2) by (simp add: bdpiDmaReadReady_def shmReady_again)
  ultimately show ?thesis
    using w rq dma bdpi_inv_mem [OF assms(1)] by (intro exI [of _ ?m']) auto
qed

lemma dma_past_buffer:
  assumes "bdpi_inv b m" "shm_ready b"
  shows "\<exists>m'. bdpiDmaWriteData mm (of_nat DMA_BUFFER_SIZE) d1 d2 b m = Some (True, b, m')
    \<and> load64 m' (headidx (shm_fifo 0)) = d1 \<and> load64 m' (tailidx (shm_fifo 0)) = d2"
proof -
  let ?addr = "of_nat DMA_BUFFER_SIZE :: u32"
  have "unat ?addr = DMA_BUFFER_SIZE" by (rule unat_of_nat_small) (simp add: DMA_BUFFER_SIZE_def)
  then have at: "dma_at ?addr = shm_fifo_base 0"
    unfolding dma_at_def by (simp add: DMA_BUFFER_SIZE_def shm_fifo_base_def)
  have "dma_at ?addr + 16 \<le> SHM_SIZE"
    unfolding at by (simp add: shm_fifo_base_def DMA_BUFFER_SIZE_def SHM_SIZE_def)
  from bdpiDmaWriteData_eq [OF shmReady_again [OF assms(2)] this]
  show ?thesis unfolding at by (simp add: shm_fifo_def load64_store64_other)
qed

end
