(* ===== verification/BsimHw.thy ===== *)
theory BsimHw
  imports PcieBdpi
begin

text \<open>
  The Bluespec rules at the simulator's end of the programmed I/O link: the rules
  \<open>receiveIO\<close> and \<open>relayIOReadResp\<close> of \<^verbatim>\<open>src/PcieCtrl_bsim.bsv\<close>, and the user logic of
  \<^verbatim>\<open>examples/simple/HwMain.bsv\<close> (two registers that the host writes and reads back). A FIFO
  made by \<open>mkFIFO\<close> holds two elements; a rule fires only when every FIFO it enqueues to has
  room. In a cycle each rule fires once if it can, the rules further down the
  pipeline first.
\<close>

record hwsim =
  bdpi_st :: bdpi
  ioWriteQ :: "(ioaddr \<times> u32) list"
  ioReadReqQ :: "ioaddr list"
  ioReadRespQ :: "(ioaddr \<times> u32) list"
  dataBuffer0 :: u32
  dataBuffer1 :: u32
  writeBuffer :: "u32 list"
  writeBufferCnt :: "4 word"
  writeCounter :: u32

text \<open>\<open>{0, addr, data}\<close> as a 64-bit word, and the fields \<open>receiveIO\<close> cuts out of one.\<close>

definition io_resp :: "ioaddr \<Rightarrow> u32 \<Rightarrow> u64" where
  "io_resp addr data = push_bit 32 (ucast addr) OR ucast data"

definition msg_data :: "u64 \<Rightarrow> u32" where
  "msg_data d = ucast d"

definition msg_addr :: "u64 \<Rightarrow> ioaddr" where
  "msg_addr d = ucast (drop_bit 32 d)"

definition msg_write :: "u64 \<Rightarrow> bool" where
  "msg_write d \<longleftrightarrow> bit d (32 + 24)"

definition msg_notready :: "u64 \<Rightarrow> bool" where
  "msg_notready d \<longleftrightarrow> bit d (32 + 31)"

definition receiveIO :: "hwsim \<times> mem \<Rightarrow> hwsim \<times> mem" where
  "receiveIO w = (case w of (h, m) \<Rightarrow>
     if length (ioWriteQ h) < 2 \<and> length (ioReadReqQ h) < 2 then
       (let (d, b1, m1) = bdpiIOData True (bdpi_st h) m;
            h1 = h\<lparr>bdpi_st := b1\<rparr>;
            addr = msg_addr d; data = msg_data d in
        if \<not> msg_notready d then
          if msg_write d then
            if addr \<ge> io_userspace_offset
            then (h1\<lparr>ioWriteQ := ioWriteQ h1 @ [(addr - io_userspace_offset, data)]\<rparr>, m1)
            else (h1, m1)
          else
            if addr \<ge> io_userspace_offset
            then (h1\<lparr>ioReadReqQ := ioReadReqQ h1 @ [addr - io_userspace_offset]\<rparr>, m1)
            else (let (r, b2, m2) = bdpiIOReadResp True (io_resp addr 0xc001d00d) b1 m1
                  in (h1\<lparr>bdpi_st := b2\<rparr>, m2))
        else (h1, m1))
     else (h, m))"

definition relayIOReadResp :: "hwsim \<times> mem \<Rightarrow> hwsim \<times> mem" where
  "relayIOReadResp w = (case w of (h, m) \<Rightarrow>
     (case ioReadRespQ h of
        [] \<Rightarrow> (h, m)
      | (addr, data) # rest \<Rightarrow>
          (let (isready, b1, m1) = bdpiIOReadRespReady True (bdpi_st h) m in
           if isready then
             (let (r, b2, m2) = bdpiIOReadResp True (io_resp (addr + io_userspace_offset) data) b1 m1
              in (h\<lparr>bdpi_st := b2, ioReadRespQ := rest\<rparr>, m2))
           else (h\<lparr>bdpi_st := b1\<rparr>, m1))))"

text \<open>The user logic: \<open>echoRead\<close> answers a read, \<open>recvWrite\<close> takes a write.\<close>

definition reg_read :: "hwsim \<Rightarrow> ioaddr \<Rightarrow> u32" where
  "reg_read h a =
     (let offset = drop_bit 2 a in
      if offset = 0 then dataBuffer0 h else if offset = 1 then dataBuffer1 h else 0)"

definition reg_write :: "ioaddr \<times> u32 \<Rightarrow> hwsim \<Rightarrow> hwsim" where
  "reg_write w h = (case w of (a, d) \<Rightarrow>
     (let h1 = (if a = 4 then h\<lparr>writeBuffer := [d, writeBuffer h ! 1] @ take 14 (drop 1 (writeBuffer h)),
            writeBufferCnt := writeBufferCnt h + 1\<rparr> else h);
          off = drop_bit 2 a in
      if off = 0 then h1\<lparr>dataBuffer0 := d\<rparr>
      else if off = 1 then h1\<lparr>dataBuffer1 := d\<rparr>
      else h1\<lparr>writeCounter := writeCounter h1 + 1\<rparr>))"

definition echoRead :: "hwsim \<times> mem \<Rightarrow> hwsim \<times> mem" where
  "echoRead w = (case w of (h, m) \<Rightarrow>
     (case ioReadReqQ h of
        [] \<Rightarrow> (h, m)
      | a # rest \<Rightarrow>
          if length (ioReadRespQ h) < 2
          then (h\<lparr>ioReadReqQ := rest, ioReadRespQ := ioReadRespQ h @ [(a, reg_read h a)]\<rparr>, m)
          else (h, m)))"

definition recvWrite :: "hwsim \<times> mem \<Rightarrow> hwsim \<times> mem" where
  "recvWrite w = (case w of (h, m) \<Rightarrow>
     (case ioWriteQ h of [] \<Rightarrow> (h, m) | x # rest \<Rightarrow> (reg_write x (h\<lparr>ioWriteQ := rest\<rparr>), m)))"

definition hw_cycle :: "hwsim \<times> mem \<Rightarrow> hwsim \<times> mem" where
  "hw_cycle w = receiveIO (recvWrite (echoRead (relayIOReadResp w)))"

end
