(* ===== verification/BdbmSim.thy ===== *)
theory BdbmSim
  imports BsimHw
begin

text \<open>
  The software side of the link in the simulation build (\<^verbatim>\<open>#ifdef BLUESIM\<close>):
  \<^verbatim>\<open>BdbmPcie\<close> of \<^verbatim>\<open>cpp/bdbmpcie.cpp\<close> over the shared segment. The state of the peer is
  any type \<open>'h\<close>; \<open>env\<close> is what the peer does while the software sleeps in a waiting loop.
\<close>

record bdbm_sim =
  sw_infifo :: shmfifo
  sw_outfifo :: shmfifo
  sw_interruptfifo :: shmfifo

text \<open>
  \<open>Init_Bluesim\<close>. The segment is opened without \<^verbatim>\<open>O_CREAT\<close>: when nobody has made it (\<open>None\<close>)
  \<open>shm_open\<close> fails, and \<open>ftruncate\<close> and \<open>mmap\<close> with it. Without \<^verbatim>\<open>BDBM_BSIM_PID\<close> or without the
  mapping the function returns before the queue pointers are set: \<open>None\<close>.
\<close>

definition Init_Bluesim :: "bool \<Rightarrow> bool \<Rightarrow> mem option \<Rightarrow> bdbm_sim option \<times> mem option" where
  "Init_Bluesim pid_given mm seg =
     (if \<not> pid_given then (None, seg)
      else case seg of
        None \<Rightarrow> (None, None)
      | Some m \<Rightarrow>
          if \<not> mm then (None, Some m)
          else let (inf, m1) = ShmFifo_init (DMA_BUFFER_SIZE div 8 * 8) 1024 m;
                   (out, m2) = ShmFifo_init ((DMA_BUFFER_SIZE div 8 + 1024) * 8) 1024 m1;
                   (intr, m3) = ShmFifo_init ((DMA_BUFFER_SIZE div 8 + 1024 * 2) * 8) 1024 m2
               in (Some \<lparr>sw_infifo = inf, sw_outfifo = out, sw_interruptfifo = intr\<rparr>, Some m3))"

text \<open>The message words: bit 56 marks a write, the address starts at bit 32.\<close>

definition io_write_msg :: "u32 \<Rightarrow> u32 \<Rightarrow> u64" where
  "io_write_msg addr data = ucast data OR push_bit (32 + 24) 1 OR push_bit 32 (ucast addr)"

definition io_read_msg :: "u32 \<Rightarrow> u64" where
  "io_read_msg addr = push_bit 32 (ucast addr)"

definition sim_send ::
  "('h \<times> mem \<Rightarrow> 'h \<times> mem) \<Rightarrow> bdbm_sim \<Rightarrow> u64 \<Rightarrow> 'h \<times> mem \<Rightarrow> ('h \<times> mem) option" where
  "sim_send env s d w =
     (case while_option (\<lambda>(h, m). fifo_full (sw_outfifo s) m) env w of
        None \<Rightarrow> None
      | Some (h, m) \<Rightarrow> Some (h, fifo_push (sw_outfifo s) d m))"

definition writeWord_sim ::
  "('h \<times> mem \<Rightarrow> 'h \<times> mem) \<Rightarrow> bdbm_sim \<Rightarrow> u32 \<Rightarrow> u32 \<Rightarrow> 'h \<times> mem \<Rightarrow> ('h \<times> mem) option" where
  "writeWord_sim env s addr data w = sim_send env s (io_write_msg addr data) w"

definition readWord_sim ::
  "('h \<times> mem \<Rightarrow> 'h \<times> mem) \<Rightarrow> bdbm_sim \<Rightarrow> u32 \<Rightarrow> 'h \<times> mem \<Rightarrow> (u32 \<times> 'h \<times> mem) option" where
  "readWord_sim env s addr w =
     (case sim_send env s (io_read_msg addr) w of
        None \<Rightarrow> None
      | Some w1 \<Rightarrow>
          (case while_option (\<lambda>(h, m). fifo_empty (sw_infifo s) m) env w1 of
             None \<Rightarrow> None
           | Some (h, m) \<Rightarrow> Some (ucast (fifo_tail (sw_infifo s) m), h, fifo_pop (sw_infifo s) m)))"

definition userWriteWord_sim ::
  "('h \<times> mem \<Rightarrow> 'h \<times> mem) \<Rightarrow> bdbm_sim \<Rightarrow> u32 \<Rightarrow> u32 \<Rightarrow> 'h \<times> mem \<Rightarrow> ('h \<times> mem) option" where
  "userWriteWord_sim env s addr data w = writeWord_sim env s (addr + CONFIG_BUFFER_SIZE) data w"

definition userReadWord_sim ::
  "('h \<times> mem \<Rightarrow> 'h \<times> mem) \<Rightarrow> bdbm_sim \<Rightarrow> u32 \<Rightarrow> 'h \<times> mem \<Rightarrow> (u32 \<times> 'h \<times> mem) option" where
  "userReadWord_sim env s addr w = readWord_sim env s (addr + CONFIG_BUFFER_SIZE) w"

text \<open>\<open>waitInterrupt\<close> does not wait: it empties the interrupt queue.\<close>

definition waitInterrupt_sim :: "bdbm_sim \<Rightarrow> mem \<Rightarrow> mem option" where
  "waitInterrupt_sim s m =
     while_option (\<lambda>m. \<not> fifo_empty (sw_interruptfifo s) m) (fifo_pop (sw_interruptfifo s)) m"

text \<open>\<open>Ioctl\<close> does nothing here; in the other build it is a call of the kernel.\<close>

definition Ioctl_sim :: "u32 \<Rightarrow> u64 \<Rightarrow> 's \<Rightarrow> 's" where
  "Ioctl_sim cmd arg w = w"

subsection \<open>The two sides agree on the rings\<close>

definition sim_rings :: bdbm_sim where
  "sim_rings = \<lparr>sw_infifo = shm_fifo 0, sw_outfifo = shm_fifo 1, sw_interruptfifo = shm_fifo 2\<rparr>"

lemma sim_rings_sel [simp]:
  "sw_infifo sim_rings = shm_fifo 0" "sw_outfifo sim_rings = shm_fifo 1"
  "sw_interruptfifo sim_rings = shm_fifo 2"
  by (simp_all add: sim_rings_def)

lemma Init_Bluesim_missing: "Init_Bluesim pid_given mm None = (None, None)"
  by (simp add: Init_Bluesim_def)

lemma Init_Bluesim_eq: "Init_Bluesim True True (Some m) = (Some sim_rings, Some (shm_setup_all m))"
  unfolding Init_Bluesim_def shm_bases ShmFifo_init_setup
  by (simp add: sim_rings_def shm_setup_all_def)

lemma waitInterrupt_empties:
  assumes "shm_inv m"
  shows "\<exists>m'. waitInterrupt_sim sim_rings m = Some m' \<and> shm_inv m' \<and> fifo_list (shm_fifo 2) m' = []
    \<and> (\<forall>k<2. fifo_list (shm_fifo k) m' = fifo_list (shm_fifo k) m)"
proof -
  let ?P = "\<lambda>m'. shm_inv m' \<and> (\<forall>k<2. fifo_list (shm_fifo k) m' = fifo_list (shm_fifo k) m)"
  have "\<exists>t. waitInterrupt_sim sim_rings m = Some t \<and> ?P t \<and> \<not> \<not> fifo_empty (shm_fifo 2) t"
    unfolding waitInterrupt_sim_def sim_rings_sel
  proof (rule poll_returns [where f = "\<lambda>m. length (fifo_list (shm_fifo 2) m)"])
    show "?P m" using assms by simp
  next
    fix m1 assume p: "?P m1" and ne: "\<not> fifo_empty (shm_fifo 2) m1"
    have i: "fifo_inv (shm_fifo 2) m1" using p by (simp add: shm_invD)
    have "shm_inv (fifo_pop (shm_fifo 2) m1)" using p by (simp add: shm_inv_pop)
    moreover have "fifo_list (shm_fifo k) (fifo_pop (shm_fifo 2) m1) = fifo_list (shm_fifo k) m1"
      if "k < 2" for k
      using shm_inv_pop(2) [of m1 2 k] p that by simp
    moreover have "length (fifo_list (shm_fifo 2) (fifo_pop (shm_fifo 2) m1)) < length (fifo_list (shm_fifo 2) m1)"
      using shm.deq_takes [OF i ne] by (metis length_Cons lessI)
    ultimately show "?P (fifo_pop (shm_fifo 2) m1) \<and>
        length (fifo_list (shm_fifo 2) (fifo_pop (shm_fifo 2) m1)) < length (fifo_list (shm_fifo 2) m1)"
      using p by simp
  qed
  then show ?thesis using shm_invD [of _ 2] by (auto simp: fifo_empty_iff)
qed

subsection \<open>Messages\<close>

lemma bit_bounded:
  assumes "unat (a :: 'a :: len word) < 2 ^ k" "bit a i"
  shows "i < k"
proof -
  have "take_bit k (unat a) = unat a" using assms(1) by (simp add: take_bit_nat_eq_self_iff)
  moreover have "bit (unat a) i"
    using assms(2) by (simp add: bit_unsigned_iff bit_imp_le_length)
  ultimately have "bit (take_bit k (unat a)) i" by simp
  then show ?thesis by (simp add: bit_take_bit_iff)
qed

lemma bit_push_one: "bit (push_bit k 1 :: u64) n \<longleftrightarrow> n = k \<and> k < 64"
  by (auto simp: bit_exp_iff possible_bit_word)

lemma bit_write_msg:
  "n < 64 \<Longrightarrow> bit (io_write_msg addr data) n \<longleftrightarrow>
    (n < 32 \<and> bit data n) \<or> n = 56 \<or> (32 \<le> n \<and> bit addr (n - 32))"
  unfolding io_write_msg_def bit_or_iff bit_push_one
  by (auto simp: bit_unsigned_iff bit_push_bit_iff dest: bit_imp_le_length)

lemma bit_read_msg:
  "n < 64 \<Longrightarrow> bit (io_read_msg addr) n \<longleftrightarrow> 32 \<le> n \<and> bit addr (n - 32)"
  by (auto simp: io_read_msg_def bit_unsigned_iff bit_push_bit_iff dest: bit_imp_le_length)

lemma bit_io_resp:
  "n < 64 \<Longrightarrow> bit (io_resp addr data) n \<longleftrightarrow> (n < 32 \<and> bit data n) \<or> (32 \<le> n \<and> bit addr (n - 32))"
  by (auto simp: io_resp_def bit_or_iff bit_unsigned_iff bit_push_bit_iff dest: bit_imp_le_length)

lemma msg_fields_write:
  assumes "unat addr < 2 ^ 20"
  shows "\<not> msg_notready (io_write_msg addr data)" "msg_write (io_write_msg addr data)"
    "msg_data (io_write_msg addr data) = data" "msg_addr (io_write_msg addr data) = ucast addr"
proof -
  note b = bit_bounded [OF assms]
  show "\<not> msg_notready (io_write_msg addr data)" using b [of 31] by (auto simp: msg_notready_def bit_write_msg)
  show "msg_write (io_write_msg addr data)" by (simp add: msg_write_def bit_write_msg)
  show "msg_data (io_write_msg addr data) = data"
    by (rule bit_word_eqI) (simp add: msg_data_def bit_unsigned_iff bit_write_msg)
  show "msg_addr (io_write_msg addr data) = ucast addr"
    by (rule bit_word_eqI)
      (auto simp: msg_addr_def bit_unsigned_iff bit_drop_bit_eq bit_write_msg dest: b)
qed

lemma msg_fields_read:
  assumes "unat addr < 2 ^ 20"
  shows "\<not> msg_notready (io_read_msg addr)" "\<not> msg_write (io_read_msg addr)"
    "msg_addr (io_read_msg addr) = ucast addr"
proof -
  note b = bit_bounded [OF assms]
  show "\<not> msg_notready (io_read_msg addr)" using b [of 31] by (auto simp: msg_notready_def bit_read_msg)
  show "\<not> msg_write (io_read_msg addr)" using b [of 24] by (auto simp: msg_write_def bit_read_msg)
  show "msg_addr (io_read_msg addr) = ucast addr"
    by (rule bit_word_eqI)
      (auto simp: msg_addr_def bit_unsigned_iff bit_drop_bit_eq bit_read_msg dest: b)
qed

lemma msg_resp_data: "ucast (io_resp addr data) = data"
  by (rule bit_word_eqI) (simp add: bit_unsigned_iff bit_io_resp)

lemma msg_notready_word: "msg_notready io_notready"
  by (simp add: msg_notready_def io_notready_def bit_push_one)

end
