(* ===== verification/PioPort.thy ===== *)
theory PioPort
  imports BdbmConfig
begin

text \<open>
  The contract of programmed I/O: what the libraries above \<open>BdbmPcie\<close> rely on. A user write
  always returns and reaches the peer in order; a user read always returns and changes
  nothing but what it may. \<open>view\<close> is what a state stands for, \<open>put\<close> what a write does to it,
  \<open>may\<close> which answers a read can get. The simulation link and the memory-mapped device both
  satisfy it.
\<close>

definition user_word :: "u32 \<Rightarrow> bool" where
  "user_word addr \<longleftrightarrow> unat addr < 2 ^ 20 - 2 ^ 14 \<and> unat addr mod 4 = 0"

datatype pio = UserWrite u32 u32 | UserRead u32

primrec pio_addr :: "pio \<Rightarrow> u32" where
  "pio_addr (UserWrite a d) = a"
| "pio_addr (UserRead a) = a"

text \<open>A client's sequence of calls; the result is the list of the values read.\<close>

fun run_pio ::
  "(u32 \<Rightarrow> u32 \<Rightarrow> 's \<Rightarrow> 's option) \<Rightarrow> (u32 \<Rightarrow> 's \<Rightarrow> (u32 \<times> 's) option) \<Rightarrow> pio list \<Rightarrow> 's
    \<Rightarrow> (u32 list \<times> 's) option" where
  "run_pio uw ur [] s = Some ([], s)"
| "run_pio uw ur (UserWrite a d # ops) s =
     (case uw a d s of None \<Rightarrow> None | Some s1 \<Rightarrow> run_pio uw ur ops s1)"
| "run_pio uw ur (UserRead a # ops) s =
     (case ur a s of None \<Rightarrow> None
      | Some (v, s1) \<Rightarrow>
          (case run_pio uw ur ops s1 of None \<Rightarrow> None | Some (vs, s2) \<Rightarrow> Some (v # vs, s2)))"

text \<open>What the same calls do to the view, and whether \<open>vs\<close> are answers they can get.\<close>

fun pio_view :: "(ioaddr \<times> u32 \<Rightarrow> 'v \<Rightarrow> 'v) \<Rightarrow> pio list \<Rightarrow> 'v \<Rightarrow> 'v" where
  "pio_view put [] v = v"
| "pio_view put (UserWrite a d # ops) v = pio_view put ops (put (ucast a, d) v)"
| "pio_view put (UserRead a # ops) v = pio_view put ops v"

fun pio_answers ::
  "(ioaddr \<times> u32 \<Rightarrow> 'v \<Rightarrow> 'v) \<Rightarrow> ('v \<Rightarrow> ioaddr \<Rightarrow> u32 \<Rightarrow> bool) \<Rightarrow> pio list \<Rightarrow> 'v \<Rightarrow> u32 list \<Rightarrow> bool" where
  "pio_answers put may [] v xs \<longleftrightarrow> xs = []"
| "pio_answers put may (UserWrite a d # ops) v xs \<longleftrightarrow> pio_answers put may ops (put (ucast a, d) v) xs"
| "pio_answers put may (UserRead a # ops) v xs \<longleftrightarrow>
     (case xs of [] \<Rightarrow> False | x # rest \<Rightarrow> may v (ucast a) x \<and> pio_answers put may ops v rest)"

lemma pio_answers_read [simp]:
  "pio_answers put may (UserRead a # ops) v xs \<longleftrightarrow>
    (\<exists>x rest. xs = x # rest \<and> may v (ucast a) x \<and> pio_answers put may ops v rest)"
  by (cases xs) simp_all

declare pio_answers.simps(3) [simp del]

definition pio_reads :: "pio list \<Rightarrow> nat" where
  "pio_reads ops = length (filter (\<lambda>op. case op of UserRead a \<Rightarrow> True | UserWrite a d \<Rightarrow> False) ops)"

lemma pio_answers_length: "pio_answers put may ops v xs \<Longrightarrow> length xs = pio_reads ops"
  by (induction put may ops v xs rule: pio_answers.induct) (auto simp: pio_reads_def)

definition pio_writes :: "pio list \<Rightarrow> (ioaddr \<times> u32) list" where
  "pio_writes ops = concat (map (\<lambda>p. case p of UserWrite a d \<Rightarrow> [(ucast a, d)] | UserRead a \<Rightarrow> []) ops)"

lemma pio_writes_simps [simp]:
  "pio_writes [] = []" "pio_writes (UserWrite a d # ops) = (ucast a, d) # pio_writes ops"
  "pio_writes (UserRead a # ops) = pio_writes ops"
  by (simp_all add: pio_writes_def)

lemma pio_view_writes: "pio_view put ops v = fold put (pio_writes ops) v"
  by (induction put ops v rule: pio_view.induct) simp_all

lemma fold_snoc: "fold (\<lambda>w l. l @ [w]) ws l = l @ ws"
  by (induction ws arbitrary: l) simp_all

locale pio_port =
  fixes uw :: "u32 \<Rightarrow> u32 \<Rightarrow> 's \<Rightarrow> 's option"
    and ur :: "u32 \<Rightarrow> 's \<Rightarrow> (u32 \<times> 's) option"
    and good :: "'s \<Rightarrow> bool"
    and view :: "'s \<Rightarrow> 'v"
    and put :: "ioaddr \<times> u32 \<Rightarrow> 'v \<Rightarrow> 'v"
    and may :: "'v \<Rightarrow> ioaddr \<Rightarrow> u32 \<Rightarrow> bool"
  assumes write_law: "good s \<Longrightarrow> user_word a \<Longrightarrow>
      \<exists>s'. uw a d s = Some s' \<and> good s' \<and> view s' = put (ucast a, d) (view s)"
    and read_law: "good s \<Longrightarrow> user_word a \<Longrightarrow>
      \<exists>x s'. ur a s = Some (x, s') \<and> good s' \<and> view s' = view s \<and> may (view s) (ucast a) x"
begin

lemma run_returns:
  assumes "good s" "list_all (user_word \<circ> pio_addr) ops"
  shows "\<exists>xs s'. run_pio uw ur ops s = Some (xs, s') \<and> good s' \<and> view s' = fold put (pio_writes ops) (view s)
    \<and> pio_answers put may ops (view s) xs"
  using assms
proof (induction ops arbitrary: s)
  case Nil
  then show ?case by simp
next
  case (Cons op ops)
  show ?case
  proof (cases op)
    case (UserWrite a d)
    with Cons.prems obtain s1 where s1: "uw a d s = Some s1" "good s1" "view s1 = put (ucast a, d) (view s)"
      using write_law [of s a d] by auto
    show ?thesis using Cons.IH [of s1] Cons.prems s1 UserWrite by auto
  next
    case (UserRead a)
    with Cons.prems obtain x s1 where s1: "ur a s = Some (x, s1)" "good s1" "view s1 = view s"
      "may (view s) (ucast a) x"
      using read_law [of s a] by auto
    then obtain xs s' where "run_pio uw ur ops s1 = Some (xs, s') \<and> good s' \<and>
        view s' = fold put (pio_writes ops) (view s1) \<and> pio_answers put may ops (view s1) xs"
      using Cons.IH [of s1] Cons.prems by auto
    then show ?thesis using s1 UserRead by auto
  qed
qed

text \<open>Writes alone, in order.\<close>

lemma writes_return:
  assumes "good s" "list_all (user_word \<circ> fst) ws"
  shows "\<exists>s'. run_pio uw ur (map (\<lambda>(a, d). UserWrite a d) ws) s = Some ([], s') \<and> good s'
    \<and> view s' = fold put (map (\<lambda>(a, d). (ucast a, d)) ws) (view s)"
  using assms
proof (induction ws arbitrary: s)
  case Nil
  then show ?case by simp
next
  case (Cons w ws)
  obtain a d where w: "w = (a, d)" by (cases w)
  obtain s1 where s1: "uw a d s = Some s1" "good s1" "view s1 = put (ucast a, d) (view s)"
    using write_law [OF Cons.prems(1), of a d] Cons.prems(2) w by auto
  show ?case using Cons.IH [OF s1(2)] Cons.prems(2) s1 w by auto
qed

end

text \<open>A port whose unshifted write is visible too: \<open>userWriteWord\<close> adds the configuration space.\<close>

locale word_port = pio_port +
  fixes ww :: "u32 \<Rightarrow> u32 \<Rightarrow> 's \<Rightarrow> 's option"
  assumes ww_user: "uw a d s = ww (a + CONFIG_BUFFER_SIZE) d s"

text \<open>
  A port on which the configuration space can be read too, a limited number of times:
  \<open>room n\<close> says that \<open>n\<close> such reads are still sure to return.
\<close>

locale config_port =
  fixes uw :: "u32 \<Rightarrow> u32 \<Rightarrow> 's \<Rightarrow> 's option"
    and ur :: "u32 \<Rightarrow> 's \<Rightarrow> (u32 \<times> 's) option"
    and rw :: "u32 \<Rightarrow> 's \<Rightarrow> (u32 \<times> 's) option"
    and room :: "nat \<Rightarrow> 's \<Rightarrow> bool"
    and view :: "'s \<Rightarrow> 'v"
    and put :: "ioaddr \<times> u32 \<Rightarrow> 'v \<Rightarrow> 'v"
    and may :: "'v \<Rightarrow> ioaddr \<Rightarrow> u32 \<Rightarrow> bool"
  assumes room_write: "room n s \<Longrightarrow> user_word a \<Longrightarrow>
      \<exists>s'. uw a d s = Some s' \<and> room n s' \<and> view s' = put (ucast a, d) (view s)"
    and room_read: "room n s \<Longrightarrow> user_word a \<Longrightarrow>
      \<exists>x s'. ur a s = Some (x, s') \<and> room n s' \<and> view s' = view s \<and> may (view s) (ucast a) x"
    and room_config: "room (Suc n) s \<Longrightarrow> a < CONFIG_BUFFER_SIZE \<Longrightarrow>
      \<exists>x s'. rw a s = Some (x, s') \<and> room n s' \<and> view s' = view s \<and> (drop_bit 2 a = 0 \<longrightarrow> x = 0xc001d00d)"
    and room_less: "room (Suc n) s \<Longrightarrow> room n s"

text \<open>What is read of such a port; the loops that wait only read.\<close>

locale read_port =
  fixes ur :: "u32 \<Rightarrow> 's \<Rightarrow> (u32 \<times> 's) option"
    and rw :: "u32 \<Rightarrow> 's \<Rightarrow> (u32 \<times> 's) option"
    and room :: "nat \<Rightarrow> 's \<Rightarrow> bool"
    and view :: "'s \<Rightarrow> 'v"
    and may :: "'v \<Rightarrow> ioaddr \<Rightarrow> u32 \<Rightarrow> bool"
  assumes read_returns: "room n s \<Longrightarrow> user_word a \<Longrightarrow>
      \<exists>x s'. ur a s = Some (x, s') \<and> room n s' \<and> view s' = view s \<and> may (view s) (ucast a) x"
    and config_returns: "room (Suc n) s \<Longrightarrow> a < CONFIG_BUFFER_SIZE \<Longrightarrow>
      \<exists>x s'. rw a s = Some (x, s') \<and> room n s' \<and> view s' = view s \<and> (drop_bit 2 a = 0 \<longrightarrow> x = 0xc001d00d)"
    and reads_less: "room (Suc n) s \<Longrightarrow> room n s"

sublocale config_port \<subseteq> read_port ur rw room view may
  by unfold_locales (auto intro: room_read room_config room_less)

sublocale config_port \<subseteq> user: pio_port uw ur "room n" view put may for n
  by unfold_locales (auto intro: room_write room_read)

end
