(* ===== verification/SimLink.thy ===== *)
theory SimLink
  imports BdbmSim PioPort
begin

text \<open>
  The two ends of the simulation link together: \<open>BdbmPcie\<close> of the software, whose waiting
  loops let the hardware run cycles, and the rules of the simulator with the two-register
  user logic. Seen from the software the whole pipeline is a register file: a write takes
  effect in order, a read returns what the writes before it left.
\<close>

type_synonym simple_regs = "u32 \<times> u32 \<times> u32"

definition regs_of :: "hwsim \<Rightarrow> simple_regs" where
  "regs_of h = (dataBuffer0 h, dataBuffer1 h, writeCounter h)"

definition regs_write :: "ioaddr \<times> u32 \<Rightarrow> simple_regs \<Rightarrow> simple_regs" where
  "regs_write w r = (case (w, r) of ((a, d), (b0, b1, n)) \<Rightarrow>
     if drop_bit 2 a = 0 then (d, b1, n) else if drop_bit 2 a = 1 then (b0, d, n) else (b0, b1, n + 1))"

definition regs_read :: "simple_regs \<Rightarrow> ioaddr \<Rightarrow> u32" where
  "regs_read r a = (case r of (b0, b1, n) \<Rightarrow>
     if drop_bit 2 a = 0 then b0 else if drop_bit 2 a = 1 then b1 else 0)"

text \<open>The user write a message stands for, if any: writes below the user space are dropped.\<close>

definition msg_user_write :: "u64 \<Rightarrow> (ioaddr \<times> u32) list" where
  "msg_user_write d =
     (if msg_addr d \<ge> io_userspace_offset then [(msg_addr d - io_userspace_offset, msg_data d)] else [])"

definition is_write_msg :: "u64 \<Rightarrow> bool" where
  "is_write_msg d \<longleftrightarrow> \<not> msg_notready d \<and> msg_write d"

definition pending_writes :: "hwsim \<Rightarrow> u64 list \<Rightarrow> (ioaddr \<times> u32) list" where
  "pending_writes h ds = ioWriteQ h @ concat (map msg_user_write ds)"

text \<open>The registers once everything under way has arrived: what the software sees.\<close>

definition link_regs :: "hwsim \<times> mem \<Rightarrow> simple_regs" where
  "link_regs w = (case w of (h, m) \<Rightarrow> fold regs_write (pending_writes h (fifo_list (shm_fifo 1) m)) (regs_of h))"

definition link_ready :: "hwsim \<times> mem \<Rightarrow> bool" where
  "link_ready w \<longleftrightarrow> (case w of (h, m) \<Rightarrow>
     shm_inv m \<and> shm_ready (bdpi_st h) \<and> bdpi_inv (bdpi_st h) m)"

text \<open>Between two calls of the software: no read is under way, only writes are.\<close>

definition link_quiet :: "hwsim \<times> mem \<Rightarrow> bool" where
  "link_quiet w \<longleftrightarrow> link_ready w \<and> (case w of (h, m) \<Rightarrow>
     fifo_list (shm_fifo 0) m = [] \<and> ioReadReqQ h = [] \<and> ioReadRespQ h = []
     \<and> length (ioWriteQ h) \<le> 1 \<and> list_all is_write_msg (fifo_list (shm_fifo 1) m))"

subsection \<open>One rule at a time\<close>

declare One_nat_def [simp del]

lemma regs_of_write: "regs_of (reg_write x h) = regs_write x (regs_of h)"
  by (cases x) (simp add: regs_of_def reg_write_def regs_write_def Let_def)

lemma reg_read_regs: "reg_read h a = regs_read (regs_of h) a"
  by (simp add: reg_read_def regs_read_def regs_of_def Let_def)

lemma reg_write_frame [simp]:
  "bdpi_st (reg_write x h) = bdpi_st h" "ioWriteQ (reg_write x h) = ioWriteQ h"
  "ioReadReqQ (reg_write x h) = ioReadReqQ h" "ioReadRespQ (reg_write x h) = ioReadRespQ h"
  by (cases x, simp add: reg_write_def Let_def)+

lemma regs_of_frame [simp]:
  "regs_of (h\<lparr>ioWriteQ := q\<rparr>) = regs_of h" "regs_of (h\<lparr>ioReadReqQ := q'\<rparr>) = regs_of h"
  "regs_of (h\<lparr>ioReadRespQ := q''\<rparr>) = regs_of h" "regs_of (h\<lparr>bdpi_st := b\<rparr>) = regs_of h"
  by (simp_all add: regs_of_def)

lemma hwsim_same_bdpi [simp]: "h\<lparr>bdpi_st := bdpi_st h\<rparr> = h"
  by (cases h) simp

lemma link_readyD:
  assumes "link_ready (h, m)"
  shows "shm_inv m" "shm_ready (bdpi_st h)" "bdpi_inv (bdpi_st h) m"
  using assms by (simp_all add: link_ready_def)

lemma link_ready_mem: "link_ready (h, m) \<Longrightarrow> shm_inv m' \<Longrightarrow> bdpi_st h' = bdpi_st h \<Longrightarrow> link_ready (h', m')"
  using bdpi_inv_mem by (auto simp: link_ready_def)

lemma receiveIO_empty:
  assumes "link_ready (h, m)" "fifo_list (shm_fifo 1) m = []"
  shows "receiveIO (h, m) = (h, m)"
  using bdpiIOData_ready [OF link_readyD(3,2) [OF assms(1)]] assms(2)
  by (simp add: receiveIO_def msg_notready_word)

lemma receiveIO_step:
  assumes "link_ready (h, m)" "fifo_list (shm_fifo 1) m = d # ds" "\<not> msg_notready d"
    and "length (ioWriteQ h) < 2" "length (ioReadReqQ h) < 2"
  shows "receiveIO (h, m) =
    (let m1 = fifo_pop (shm_fifo 1) m in
     if msg_write d then (h\<lparr>ioWriteQ := ioWriteQ h @ msg_user_write d\<rparr>, m1)
     else if msg_addr d \<ge> io_userspace_offset
     then (h\<lparr>ioReadReqQ := ioReadReqQ h @ [msg_addr d - io_userspace_offset]\<rparr>, m1)
     else (h, if length (fifo_list (shm_fifo 0) m) = 1020 then m1
              else fifo_push (shm_fifo 0) (io_resp (msg_addr d) 0xc001d00d) m1))"
proof -
  note r = link_readyD [OF assms(1)]
  let ?m1 = "fifo_pop (shm_fifo 1) m"
  have data: "bdpiIOData True (bdpi_st h) m = (d, bdpi_st h, ?m1)"
    using bdpiIOData_ready [OF r(3,2)] assms(2) by simp
  have "bdpi_inv (bdpi_st h) ?m1" using r shm_inv_pop(1) bdpi_inv_mem by auto
  moreover have "fifo_list (shm_fifo 0) ?m1 = fifo_list (shm_fifo 0) m"
    using shm_inv_pop(2) r(1) by simp
  ultimately have resp: "bdpiIOReadResp True x (bdpi_st h) ?m1 =
    (if length (fifo_list (shm_fifo 0) m) = 1020 then (False, bdpi_st h, ?m1)
     else (True, bdpi_st h, fifo_push (shm_fifo 0) x ?m1))" for x
    using bdpiIOReadResp_ready r(2) by simp
  have [simp]: "h\<lparr>ioWriteQ := ioWriteQ h\<rparr> = h" by (cases h) simp
  show ?thesis
    using assms(3-5)
    by (auto simp: receiveIO_def data resp msg_user_write_def Let_def split: prod.splits)
qed

lemma relay_none: "ioReadRespQ h = [] \<Longrightarrow> relayIOReadResp (h, m) = (h, m)"
  by (simp add: relayIOReadResp_def)

lemma relay_one:
  assumes "link_ready (h, m)" "ioReadRespQ h = [(a, v)]" "fifo_list (shm_fifo 0) m = []"
  shows "relayIOReadResp (h, m) =
    (h\<lparr>ioReadRespQ := []\<rparr>, fifo_push (shm_fifo 0) (io_resp (a + io_userspace_offset) v) m)"
  using bdpiIOReadRespReady_ready [OF link_readyD(3,2) [OF assms(1)]]
    bdpiIOReadResp_ready [OF link_readyD(3,2) [OF assms(1)]] assms(2,3)
  by (cases h) (simp add: relayIOReadResp_def)

lemma echo_none: "ioReadReqQ h = [] \<Longrightarrow> echoRead (h, m) = (h, m)"
  by (simp add: echoRead_def)

lemma echo_one:
  "ioReadReqQ h = [a] \<Longrightarrow> ioReadRespQ h = [] \<Longrightarrow>
    echoRead (h, m) = (h\<lparr>ioReadReqQ := [], ioReadRespQ := [(a, regs_read (regs_of h) a)]\<rparr>, m)"
  by (simp add: echoRead_def reg_read_regs)

text \<open>What \<open>recvWrite\<close> does when at most one write waits.\<close>

definition drained :: "hwsim \<Rightarrow> hwsim" where
  "drained h = (case ioWriteQ h of [] \<Rightarrow> h | x # rest \<Rightarrow> reg_write x (h\<lparr>ioWriteQ := rest\<rparr>))"

lemma recvWrite_drains:
  assumes "length (ioWriteQ h) \<le> 1"
  shows "recvWrite (h, m) = (drained h, m)" "ioWriteQ (drained h) = []"
    "bdpi_st (drained h) = bdpi_st h" "ioReadReqQ (drained h) = ioReadReqQ h"
    "ioReadRespQ (drained h) = ioReadRespQ h"
    "regs_of (drained h) = fold regs_write (ioWriteQ h) (regs_of h)"
  using assms
  by (cases "ioWriteQ h"; simp add: drained_def recvWrite_def regs_of_write)+

lemma drained_none: "ioWriteQ h = [] \<Longrightarrow> drained h = h"
  by (simp add: drained_def recvWrite_def)

subsection \<open>Cycles while writes drain\<close>

lemma pending_head: "is_write_msg d \<Longrightarrow> length (msg_user_write d) \<le> 1"
  by (simp add: msg_user_write_def)

text \<open>A cycle with no read under way: the waiting write reaches the registers, the next message enters.\<close>

lemma cycle_no_read:
  assumes "link_ready (h, m)" "ioReadReqQ h = []" "ioReadRespQ h = []" "length (ioWriteQ h) \<le> 1"
  shows "hw_cycle (h, m) = receiveIO (drained h, m)" "link_ready (drained h, m)"
  using assms recvWrite_drains(1) [OF assms(4), of m] recvWrite_drains(2-) [OF assms(4)]
  by (simp_all add: hw_cycle_def relay_none echo_none link_ready_def)

lemma cycle_write:
  assumes "link_ready (h, m)" "ioReadReqQ h = []" "ioReadRespQ h = []" "length (ioWriteQ h) \<le> 1"
    and Q: "fifo_list (shm_fifo 1) m = d # ds" and w: "is_write_msg d"
    and c: "hw_cycle (h, m) = (h', m')"
  shows "link_ready (h', m')" "fifo_list (shm_fifo 1) m' = ds"
    "fifo_list (shm_fifo 0) m' = fifo_list (shm_fifo 0) m"
    "ioReadReqQ h' = []" "ioReadRespQ h' = []" "ioWriteQ h' = msg_user_write d"
    "regs_of h' = fold regs_write (ioWriteQ h) (regs_of h)"
proof -
  note dr = recvWrite_drains [OF assms(4)] and cy = cycle_no_read [OF assms(1-4)]
  have eq: "h' = (drained h)\<lparr>ioWriteQ := msg_user_write d\<rparr>" "m' = fifo_pop (shm_fifo 1) m"
    using c cy(1) receiveIO_step [OF cy(2) Q] w dr assms(2) by (simp_all add: is_write_msg_def Let_def)
  note r = link_readyD [OF assms(1)]
  have "shm_inv m'" unfolding eq using r(1) by (simp add: shm_inv_pop(1))
  then show "link_ready (h', m')"
    using link_ready_mem [OF assms(1)] by (simp add: eq dr)
  show "fifo_list (shm_fifo 1) m' = ds"
    unfolding eq using shm.contents_deq [OF shm_invD [OF r(1)], of 1] Q by simp
  show "fifo_list (shm_fifo 0) m' = fifo_list (shm_fifo 0) m"
    unfolding eq using shm_inv_pop(2) [OF r(1), of 1 0] by simp
  show "ioReadReqQ h' = []" "ioReadRespQ h' = []" "ioWriteQ h' = msg_user_write d"
    "regs_of h' = fold regs_write (ioWriteQ h) (regs_of h)"
    by (simp_all add: eq dr assms(2,3))
qed

lemma cycle_quiet:
  assumes q: "link_quiet (h, m)" and ne: "fifo_list (shm_fifo 1) m \<noteq> []"
    and c: "hw_cycle (h, m) = (h', m')"
  shows "link_quiet (h', m') \<and> link_regs (h', m') = link_regs (h, m)
    \<and> fifo_list (shm_fifo 1) m' = tl (fifo_list (shm_fifo 1) m)"
proof -
  obtain d ds where Q: "fifo_list (shm_fifo 1) m = d # ds" using ne by (cases "fifo_list (shm_fifo 1) m") auto
  note a = q [unfolded link_quiet_def, simplified]
  have w: "is_write_msg d" using a Q by simp
  have r: "link_ready (h, m)" using a by simp
  note cy = cycle_write [OF r _ _ _ Q w c]
  show ?thesis
    using cy a Q pending_head [OF w] by (simp add: link_quiet_def link_regs_def pending_writes_def)
qed

subsection \<open>Writes\<close>

text \<open>The loop that waits for room ends, and the registers as the software sees them stay.\<close>

lemma wait_room:
  assumes "link_quiet w"
  shows "\<exists>h m. while_option (\<lambda>(h, m). fifo_full (shm_fifo 1) m) hw_cycle w = Some (h, m)
    \<and> link_quiet (h, m) \<and> link_regs (h, m) = link_regs w \<and> \<not> fifo_full (shm_fifo 1) m"
proof -
  let ?P = "\<lambda>w'. link_quiet w' \<and> link_regs w' = link_regs w"
  let ?b = "\<lambda>(h, m). fifo_full (shm_fifo 1) m"
  have "\<exists>t. while_option ?b hw_cycle w = Some t \<and> ?P t \<and> \<not> ?b t"
  proof (rule poll_returns [where f = "\<lambda>(h, m). length (fifo_list (shm_fifo 1) m)"])
    show "?P w" using assms by simp
  next
    fix w1 assume p: "?P w1" and full: "?b w1"
    obtain h m where w1: "w1 = (h, m)" by (cases w1)
    obtain h' m' where c: "hw_cycle (h, m) = (h', m')" by (cases "hw_cycle (h, m)")
    have q: "link_quiet (h, m)" using p w1 by simp
    then have "fifo_inv (shm_fifo 1) m" by (simp add: link_quiet_def link_ready_def shm_invD)
    then have "fifo_list (shm_fifo 1) m \<noteq> []" using full w1 by (auto simp: fifo_full_iff)
    from cycle_quiet [OF q this c] this
    show "?P (hw_cycle w1) \<and> (case hw_cycle w1 of (h, m) \<Rightarrow> length (fifo_list (shm_fifo 1) m))
        < (case w1 of (h, m) \<Rightarrow> length (fifo_list (shm_fifo 1) m))"
      using p w1 c by simp
  qed
  then show ?thesis by auto
qed

lemma push_message:
  assumes q: "link_quiet (h, m)" and room: "\<not> fifo_full (shm_fifo 1) m"
  shows "link_ready (h, fifo_push (shm_fifo 1) d m)"
    "fifo_list (shm_fifo 1) (fifo_push (shm_fifo 1) d m) = fifo_list (shm_fifo 1) m @ [d]"
    "fifo_list (shm_fifo 0) (fifo_push (shm_fifo 1) d m) = []"
proof -
  have inv: "shm_inv m" "fifo_list (shm_fifo 0) m = []" and r: "link_ready (h, m)"
    using q by (simp_all add: link_quiet_def link_ready_def)
  show "link_ready (h, fifo_push (shm_fifo 1) d m)"
    using link_ready_mem [OF r shm_inv_push(1) [OF inv(1)]] by simp
  show "fifo_list (shm_fifo 1) (fifo_push (shm_fifo 1) d m) = fifo_list (shm_fifo 1) m @ [d]"
    using shm.enq_accepts [OF shm_invD [OF inv(1)] room] by simp
  show "fifo_list (shm_fifo 0) (fifo_push (shm_fifo 1) d m) = []"
    using shm_inv_push(2) [OF inv(1), of 1 0] inv(2) by simp
qed

lemma sim_write:
  assumes "link_quiet w" "unat addr < 2 ^ 20"
  shows "\<exists>w'. writeWord_sim hw_cycle sim_rings addr data w = Some w' \<and> link_quiet w'
    \<and> link_regs w' = fold regs_write (msg_user_write (io_write_msg addr data)) (link_regs w)"
proof -
  let ?d = "io_write_msg addr data"
  obtain h m where w: "while_option (\<lambda>(h, m). fifo_full (shm_fifo 1) m) hw_cycle w = Some (h, m)"
    and q: "link_quiet (h, m)" and regs: "link_regs (h, m) = link_regs w"
    and room: "\<not> fifo_full (shm_fifo 1) m"
    using wait_room [OF assms(1)] by blast
  let ?w' = "(h, fifo_push (shm_fifo 1) ?d m)"
  note p = push_message [OF q room, of ?d]
  have "is_write_msg ?d" using msg_fields_write [OF assms(2)] by (simp add: is_write_msg_def)
  then have "link_quiet ?w'" using p q by (simp add: link_quiet_def)
  moreover have "link_regs ?w' = fold regs_write (msg_user_write ?d) (link_regs (h, m))"
    using p by (simp add: link_regs_def pending_writes_def)
  ultimately show ?thesis
    using w regs by (simp add: writeWord_sim_def sim_send_def)
qed

text \<open>A user address, shifted past the configuration space, comes back as it was.\<close>

lemma user_addr:
  fixes addr :: u32
  assumes "unat addr < 2 ^ 20 - 2 ^ 14"
  shows "unat (addr + CONFIG_BUFFER_SIZE) < 2 ^ 20"
    "io_userspace_offset \<le> (ucast (addr + CONFIG_BUFFER_SIZE) :: ioaddr)"
    "ucast (addr + CONFIG_BUFFER_SIZE) - io_userspace_offset = (ucast addr :: ioaddr)"
proof -
  have u: "unat (addr + CONFIG_BUFFER_SIZE) = unat addr + 2 ^ 14"
    using assms by (subst unat_add_lem [THEN iffD1]) (simp_all add: CONFIG_BUFFER_SIZE_def)
  then show lt: "unat (addr + CONFIG_BUFFER_SIZE) < 2 ^ 20" using assms by simp
  have ua: "unat (ucast (addr + CONFIG_BUFFER_SIZE) :: ioaddr) = unat addr + 2 ^ 14"
    using lt u by (simp add: unat_ucast_small)
  then show "io_userspace_offset \<le> (ucast (addr + CONFIG_BUFFER_SIZE) :: ioaddr)"
    by (simp add: word_le_nat_alt io_userspace_offset_def)
  then have "unat (ucast (addr + CONFIG_BUFFER_SIZE) - io_userspace_offset) = unat addr"
    using ua by (simp add: unat_sub io_userspace_offset_def)
  moreover have "unat (ucast addr :: ioaddr) = unat addr" using assms by (simp add: unat_ucast_small)
  ultimately show "ucast (addr + CONFIG_BUFFER_SIZE) - io_userspace_offset = (ucast addr :: ioaddr)"
    by (simp add: word_unat_eq_iff)
qed

lemma sim_user_write:
  assumes "link_quiet w" "unat addr < 2 ^ 20 - 2 ^ 14"
  shows "\<exists>w'. userWriteWord_sim hw_cycle sim_rings addr data w = Some w' \<and> link_quiet w'
    \<and> link_regs w' = regs_write (ucast addr, data) (link_regs w)"
  using sim_write [OF assms(1) user_addr(1) [OF assms(2)], of data] user_addr [OF assms(2)]
    msg_fields_write [OF user_addr(1) [OF assms(2)], of data]
  by (simp add: userWriteWord_sim_def msg_user_write_def)

subsection \<open>Reads\<close>

text \<open>What a read of address \<open>a\<close> gives: a register, or the magic word of the configuration space.\<close>

definition read_value :: "ioaddr \<Rightarrow> simple_regs \<Rightarrow> u32" where
  "read_value a rs =
     (if io_userspace_offset \<le> a then regs_read rs (a - io_userspace_offset) else 0xc001d00d)"

text \<open>The stations of a read request, with nothing else under way behind it.\<close>

definition rd_queued :: "ioaddr \<Rightarrow> simple_regs \<Rightarrow> u64 list \<Rightarrow> hwsim \<times> mem \<Rightarrow> bool" where
  "rd_queued a rs ds w \<longleftrightarrow> link_ready w \<and> (case w of (h, m) \<Rightarrow>
     fifo_list (shm_fifo 0) m = [] \<and> ioReadReqQ h = [] \<and> ioReadRespQ h = []
     \<and> length (ioWriteQ h) \<le> 1 \<and> list_all is_write_msg ds
     \<and> fold regs_write (pending_writes h ds) (regs_of h) = rs
     \<and> (\<exists>d. fifo_list (shm_fifo 1) m = ds @ [d] \<and> \<not> msg_notready d \<and> \<not> msg_write d \<and> msg_addr d = a))"

definition rd_idle :: "simple_regs \<Rightarrow> hwsim \<times> mem \<Rightarrow> bool" where
  "rd_idle rs w \<longleftrightarrow> link_ready w \<and> (case w of (h, m) \<Rightarrow>
     fifo_list (shm_fifo 1) m = [] \<and> ioWriteQ h = [] \<and> regs_of h = rs)"

definition rd_requested :: "ioaddr \<Rightarrow> simple_regs \<Rightarrow> hwsim \<times> mem \<Rightarrow> bool" where
  "rd_requested a rs w \<longleftrightarrow> rd_idle rs w \<and> io_userspace_offset \<le> a \<and> (case w of (h, m) \<Rightarrow>
     fifo_list (shm_fifo 0) m = [] \<and> ioReadReqQ h = [a - io_userspace_offset] \<and> ioReadRespQ h = [])"

definition rd_answered :: "ioaddr \<Rightarrow> simple_regs \<Rightarrow> hwsim \<times> mem \<Rightarrow> bool" where
  "rd_answered a rs w \<longleftrightarrow> rd_idle rs w \<and> (case w of (h, m) \<Rightarrow>
     fifo_list (shm_fifo 0) m = [] \<and> ioReadReqQ h = []
     \<and> (\<exists>x. ioReadRespQ h = [(x, read_value a rs)]))"

definition rd_done :: "ioaddr \<Rightarrow> simple_regs \<Rightarrow> hwsim \<times> mem \<Rightarrow> bool" where
  "rd_done a rs w \<longleftrightarrow> rd_idle rs w \<and> (case w of (h, m) \<Rightarrow>
     ioReadReqQ h = [] \<and> ioReadRespQ h = []
     \<and> (\<exists>r. fifo_list (shm_fifo 0) m = [r] \<and> ucast r = read_value a rs))"

lemma cycle_queued:
  assumes "rd_queued a rs (d # ds) w"
  shows "rd_queued a rs ds (hw_cycle w)"
proof -
  obtain h m where w: "w = (h, m)" by (cases w)
  obtain h' m' where c: "hw_cycle (h, m) = (h', m')" by (cases "hw_cycle (h, m)")
  note a = assms [unfolded rd_queued_def w, simplified]
  then obtain d' where Q: "fifo_list (shm_fifo 1) m = d # ds @ [d']" and wr: "is_write_msg d"
    and r: "link_ready (h, m)" and d': "\<not> msg_notready d'" "\<not> msg_write d'" "msg_addr d' = a"
    by auto
  note cy = cycle_write [OF r _ _ _ Q wr c]
  have "fold regs_write (pending_writes h' ds) (regs_of h') = rs"
    using a cy by (simp add: pending_writes_def)
  then show ?thesis
    using cy a d' pending_head [OF wr] unfolding w c by (simp add: rd_queued_def)
qed

lemma cycle_queued_last:
  assumes "rd_queued a rs [] w"
  shows "rd_requested a rs (hw_cycle w) \<or> rd_done a rs (hw_cycle w)"
proof -
  obtain h m where w: "w = (h, m)" by (cases w)
  note a = assms [unfolded rd_queued_def w, simplified]
  then obtain d where Q: "fifo_list (shm_fifo 1) m = [d]" and r: "link_ready (h, m)"
    and d: "\<not> msg_notready d" "\<not> msg_write d" "msg_addr d = a" by auto
  have wq: "length (ioWriteQ h) \<le> 1" using a by simp
  note dr = recvWrite_drains [OF wq] and cy = cycle_no_read [OF r _ _ wq]
  let ?m1 = "fifo_pop (shm_fifo 1) m"
  have inv: "shm_inv m" "shm_inv ?m1" using link_readyD(1) [OF r] by (simp_all add: shm_inv_pop(1))
  have r1: "link_ready (drained h, ?m1)" by (rule link_ready_mem [OF r inv(2) dr(3)])
  have l1: "fifo_list (shm_fifo 1) ?m1 = []" "fifo_list (shm_fifo 0) ?m1 = []"
    using shm.contents_deq [OF shm_invD [OF inv(1)], of 1] shm_inv_pop(2) [OF inv(1), of 1 0] Q a
    by simp_all
  have regs: "regs_of (drained h) = rs" using a dr(6) by (simp add: pending_writes_def)
  have step: "hw_cycle w = (if io_userspace_offset \<le> a
      then ((drained h)\<lparr>ioReadReqQ := [a - io_userspace_offset]\<rparr>, ?m1)
      else (drained h, fifo_push (shm_fifo 0) (io_resp a 0xc001d00d) ?m1))"
    using cy a d receiveIO_step [OF cy(2) Q d(1)] dr by (simp add: w Let_def)
  show ?thesis
  proof (cases "io_userspace_offset \<le> a")
    case True
    then show ?thesis
      using step r1 l1 regs dr a by (simp add: rd_requested_def rd_idle_def link_ready_def)
  next
    case False
    let ?m2 = "fifo_push (shm_fifo 0) (io_resp a 0xc001d00d) ?m1"
    have i2: "shm_inv ?m2" using inv(2) by (simp add: shm_inv_push(1))
    have "fifo_list (shm_fifo 0) ?m2 = [io_resp a 0xc001d00d]"
      using shm.contents_enq [OF shm_invD [OF inv(2)], of 0] l1 by simp
    moreover have "fifo_list (shm_fifo 1) ?m2 = []"
      using shm_inv_push(2) [OF inv(2), of 0 1] l1 by simp
    ultimately have "rd_done a rs (drained h, ?m2)"
      using False link_ready_mem [OF r1 i2] regs dr a
      by (simp add: rd_done_def rd_idle_def read_value_def msg_resp_data)
    then show ?thesis using step False by simp
  qed
qed

lemma cycle_requested:
  assumes "rd_requested a rs w"
  shows "rd_answered a rs (hw_cycle w)"
proof -
  obtain h m where w: "w = (h, m)" by (cases w)
  note q = assms [unfolded rd_requested_def rd_idle_def w, simplified]
  let ?h1 = "h\<lparr>ioReadReqQ := [], ioReadRespQ := [(a - io_userspace_offset, read_value a rs)]\<rparr>"
  have e: "echoRead (relayIOReadResp (h, m)) = (?h1, m)"
    using q by (simp add: relay_none echo_one read_value_def)
  have "recvWrite (?h1, m) = (?h1, m)" using q by (simp add: recvWrite_def)
  moreover have r: "link_ready (?h1, m)" using q by (simp add: link_ready_def)
  ultimately have "hw_cycle w = (?h1, m)"
    using q by (simp add: hw_cycle_def w e receiveIO_empty)
  then show ?thesis using q r by (simp add: rd_answered_def rd_idle_def)
qed

lemma cycle_answered:
  assumes "rd_answered a rs w"
  shows "rd_done a rs (hw_cycle w)"
proof -
  obtain h m where w: "w = (h, m)" by (cases w)
  note q = assms [unfolded rd_answered_def rd_idle_def w, simplified]
  then obtain x where x: "ioReadRespQ h = [(x, read_value a rs)]" and r: "link_ready (h, m)"
    and l: "fifo_list (shm_fifo 0) m = []" by auto
  let ?r = "io_resp (x + io_userspace_offset) (read_value a rs)"
  let ?h1 = "h\<lparr>ioReadRespQ := []\<rparr>" and ?m1 = "fifo_push (shm_fifo 0) ?r m"
  have inv: "shm_inv m" "shm_inv ?m1" using link_readyD(1) [OF r] by (simp_all add: shm_inv_push(1))
  have r1: "link_ready (?h1, ?m1)" using link_ready_mem [OF r inv(2)] by simp
  have l1: "fifo_list (shm_fifo 1) ?m1 = []" "fifo_list (shm_fifo 0) ?m1 = [?r]"
    using shm_inv_push(2) [OF inv(1), of 0 1] q shm.contents_enq [OF shm_invD [OF inv(1)], of 0] l
    by simp_all
  have "recvWrite (?h1, ?m1) = (?h1, ?m1)" using q by (simp add: recvWrite_def)
  then have "hw_cycle w = (?h1, ?m1)"
    using q relay_one [OF r x l] by (simp add: hw_cycle_def w echo_none receiveIO_empty [OF r1 l1(1)])
  then show ?thesis using q r1 l1 by (simp add: rd_done_def rd_idle_def msg_resp_data)
qed

definition rd_under_way :: "ioaddr \<Rightarrow> simple_regs \<Rightarrow> hwsim \<times> mem \<Rightarrow> bool" where
  "rd_under_way a rs w \<longleftrightarrow>
     (\<exists>ds. rd_queued a rs ds w) \<or> rd_requested a rs w \<or> rd_answered a rs w \<or> rd_done a rs w"

definition rd_distance :: "hwsim \<times> mem \<Rightarrow> nat" where
  "rd_distance w = (case w of (h, m) \<Rightarrow>
     4 * length (fifo_list (shm_fifo 1) m) + 3 * length (ioReadReqQ h) + 2 * length (ioReadRespQ h))"

lemma rd_distances:
  "rd_queued a rs ds w \<Longrightarrow> rd_distance w = 4 * (length ds + 1)"
  "rd_requested a rs w \<Longrightarrow> rd_distance w = 3"
  "rd_answered a rs w \<Longrightarrow> rd_distance w = 2"
  "rd_done a rs w \<Longrightarrow> rd_distance w = 0"
  by (auto simp: rd_distance_def rd_queued_def rd_idle_def rd_requested_def rd_answered_def rd_done_def)

lemma response_iff_done:
  assumes "rd_under_way a rs (h, m)"
  shows "fifo_empty (shm_fifo 0) m \<longleftrightarrow> \<not> rd_done a rs (h, m)"
proof -
  have "link_ready (h, m)"
    using assms by (auto simp: rd_under_way_def rd_queued_def rd_requested_def rd_answered_def
        rd_done_def rd_idle_def)
  then have "fifo_inv (shm_fifo 0) m" by (simp add: link_ready_def shm_invD)
  with assms show ?thesis
    by (auto simp: fifo_empty_iff rd_under_way_def rd_queued_def rd_requested_def rd_answered_def rd_done_def)
qed

lemma rd_progress:
  assumes "rd_under_way a rs w" "\<not> rd_done a rs w"
  shows "rd_under_way a rs (hw_cycle w) \<and> rd_distance (hw_cycle w) < rd_distance w"
proof -
  consider ds d where "rd_queued a rs (d # ds) w" | "rd_queued a rs [] w"
    | "rd_requested a rs w" | "rd_answered a rs w"
    using assms unfolding rd_under_way_def by (metis neq_Nil_conv)
  then show ?thesis
  proof cases
    case 1
    from cycle_queued [OF 1] rd_distances(1) [OF 1] show ?thesis
      by (auto simp: rd_under_way_def dest: rd_distances(1))
  next
    case 2
    from cycle_queued_last [OF 2] rd_distances(1) [OF 2] show ?thesis
      by (auto simp: rd_under_way_def dest: rd_distances)
  next
    case 3
    from cycle_requested [OF 3] rd_distances(2) [OF 3] show ?thesis
      by (auto simp: rd_under_way_def dest: rd_distances)
  next
    case 4
    from cycle_answered [OF 4] rd_distances(3) [OF 4] show ?thesis
      by (auto simp: rd_under_way_def dest: rd_distances)
  qed
qed

lemma wait_response:
  assumes "rd_under_way a rs w"
  shows "\<exists>h m. while_option (\<lambda>(h, m). fifo_empty (shm_fifo 0) m) hw_cycle w = Some (h, m)
    \<and> rd_done a rs (h, m)"
proof -
  let ?b = "\<lambda>(h, m). fifo_empty (shm_fifo 0) m"
  have "\<exists>t. while_option ?b hw_cycle w = Some t \<and> rd_under_way a rs t \<and> \<not> ?b t"
  proof (rule poll_returns [where f = rd_distance])
    fix w1 assume "rd_under_way a rs w1" "?b w1"
    then show "rd_under_way a rs (hw_cycle w1) \<and> rd_distance (hw_cycle w1) < rd_distance w1"
      using rd_progress [of a rs w1] response_iff_done [of a rs] by (cases w1) auto
  qed (rule assms)
  then obtain h m where "while_option ?b hw_cycle w = Some (h, m)" "rd_under_way a rs (h, m)"
    "\<not> fifo_empty (shm_fifo 0) m" by auto
  with response_iff_done [of a rs h m] show ?thesis by blast
qed

lemma sim_read:
  assumes "link_quiet w" "unat addr < 2 ^ 20"
  shows "\<exists>w'. readWord_sim hw_cycle sim_rings addr w =
      Some (read_value (ucast addr) (link_regs w), w') \<and> link_quiet w' \<and> link_regs w' = link_regs w"
proof -
  let ?d = "io_read_msg addr" and ?rs = "link_regs w" and ?a = "ucast addr :: ioaddr"
  obtain h m where s: "while_option (\<lambda>(h, m). fifo_full (shm_fifo 1) m) hw_cycle w = Some (h, m)"
    and q: "link_quiet (h, m)" and regs: "link_regs (h, m) = ?rs"
    and room: "\<not> fifo_full (shm_fifo 1) m"
    using wait_room [OF assms(1)] by blast
  let ?w1 = "(h, fifo_push (shm_fifo 1) ?d m)"
  note p = push_message [OF q room, of ?d]
  have "rd_queued ?a ?rs (fifo_list (shm_fifo 1) m) ?w1"
    using p q regs msg_fields_read [OF assms(2)]
    by (simp add: rd_queued_def link_quiet_def link_regs_def)
  then have "rd_under_way ?a ?rs ?w1" by (auto simp: rd_under_way_def)
  then obtain h2 m2 where s2: "while_option (\<lambda>(h, m). fifo_empty (shm_fifo 0) m) hw_cycle ?w1 = Some (h2, m2)"
    and d: "rd_done ?a ?rs (h2, m2)"
    using wait_response by blast
  then obtain r where r: "fifo_list (shm_fifo 0) m2 = [r]" "ucast r = read_value ?a ?rs"
    and r2: "link_ready (h2, m2)"
    by (auto simp: rd_done_def rd_idle_def)
  let ?m3 = "fifo_pop (shm_fifo 0) m2"
  have inv: "shm_inv m2" "shm_inv ?m3" using link_readyD(1) [OF r2] by (simp_all add: shm_inv_pop(1))
  have l: "fifo_list (shm_fifo 0) ?m3 = []" "fifo_list (shm_fifo 1) ?m3 = fifo_list (shm_fifo 1) m2"
    using shm.contents_deq [OF shm_invD [OF inv(1)], of 0] r shm_inv_pop(2) [OF inv(1), of 0 1] by simp_all
  have t: "fifo_tail (shm_fifo 0) m2 = r"
    using shm.front_hd [OF shm_invD [OF inv(1)], of 0] r by simp
  have "link_quiet (h2, ?m3) \<and> link_regs (h2, ?m3) = ?rs"
    using d l link_ready_mem [OF r2 inv(2)]
    by (simp add: link_quiet_def link_regs_def pending_writes_def rd_done_def rd_idle_def)
  then show ?thesis
    using s s2 r(2) t by (simp add: readWord_sim_def sim_send_def)
qed

lemma sim_user_read:
  assumes "link_quiet w" "unat addr < 2 ^ 20 - 2 ^ 14"
  shows "\<exists>w'. userReadWord_sim hw_cycle sim_rings addr w =
      Some (regs_read (link_regs w) (ucast addr), w') \<and> link_quiet w' \<and> link_regs w' = link_regs w"
  using sim_read [OF assms(1) user_addr(1) [OF assms(2)]] user_addr [OF assms(2)]
  by (simp add: userReadWord_sim_def read_value_def)

text \<open>The link satisfies the contract of programmed I/O, over the register file.\<close>

interpretation sim_port: pio_port "userWriteWord_sim hw_cycle sim_rings"
  "userReadWord_sim hw_cycle sim_rings" link_quiet link_regs regs_write "\<lambda>r a x. x = regs_read r a"
proof unfold_locales
  fix w and a d :: u32
  assume q: "link_quiet w" and "user_word a"
  then have a: "unat a < 2 ^ 20 - 2 ^ 14" by (simp add: user_word_def)
  show "\<exists>w'. userWriteWord_sim hw_cycle sim_rings a d w = Some w' \<and> link_quiet w' \<and>
      link_regs w' = regs_write (ucast a, d) (link_regs w)"
    by (rule sim_user_write [OF q a])
  show "\<exists>x w'. userReadWord_sim hw_cycle sim_rings a w = Some (x, w') \<and> link_quiet w' \<and>
      link_regs w' = link_regs w \<and> x = regs_read (link_regs w) (ucast a)"
    using sim_user_read [OF q a] by blast
qed

interpretation sim_words: word_port "userWriteWord_sim hw_cycle sim_rings"
  "userReadWord_sim hw_cycle sim_rings" link_quiet link_regs regs_write "\<lambda>r a x. x = regs_read r a"
  "writeWord_sim hw_cycle sim_rings"
  by unfold_locales (simp add: userWriteWord_sim_def)

text \<open>The configuration space answers every read with the magic word.\<close>

lemma sim_config_read:
  assumes "link_quiet w" "a < CONFIG_BUFFER_SIZE"
  shows "\<exists>w'. readWord_sim hw_cycle sim_rings a w = Some (0xc001d00d, w') \<and> link_quiet w'
    \<and> link_regs w' = link_regs w"
proof -
  have a: "unat a < 2 ^ 14" using assms(2) by (simp add: CONFIG_BUFFER_SIZE_def word_less_nat_alt)
  then have "unat (ucast a :: ioaddr) < 2 ^ 14" by (simp add: unat_ucast_small)
  then have "\<not> io_userspace_offset \<le> (ucast a :: ioaddr)"
    by (simp add: word_le_nat_alt io_userspace_offset_def)
  then show ?thesis using sim_read [OF assms(1), of a] a by (simp add: read_value_def)
qed

subsection \<open>Start-up\<close>

definition hw_start :: hwsim where
  "hw_start = \<lparr>bdpi_st = bdpi_start, ioWriteQ = [], ioReadReqQ = [], ioReadRespQ = [],
     dataBuffer0 = 0, dataBuffer1 = 0, writeBuffer = replicate 16 0, writeBufferCnt = 0, writeCounter = 0\<rparr>"

text \<open>
  The simulator sets the segment up in its first cycle; the software maps it afterwards
  and constructs its queues over it.
\<close>

lemma start_up_cycle:
  assumes "shm_fresh m"
  shows "link_quiet (hw_cycle (hw_start, m)) \<and> link_regs (hw_cycle (hw_start, m)) = (0, 0, 0)
    \<and> snd (hw_cycle (hw_start, m)) = shm_setup_all m"
proof -
  let ?b = "bdpi_start\<lparr>shm_mapped := True, shm_ready := True, outfifo := shm_fifo 0,
    infifo := shm_fifo 1, interruptfifo := shm_fifo 2\<rparr>"
  let ?m = "shm_setup_all m"
  note fresh = shm_setup_all_fresh [OF assms]
  have "fifo_empty (shm_fifo 1) ?m" using fresh by (simp add: fifo_empty_iff shm_invD)
  then have "bdpiIOData True bdpi_start m = (io_notready, ?b, ?m)"
    using shmReady_first [of bdpi_start m]
    by (simp add: bdpiIOData_def bdpi_start_def)
  then have "hw_cycle (hw_start, m) = (hw_start\<lparr>bdpi_st := ?b\<rparr>, ?m)"
    by (simp add: hw_cycle_def hw_start_def relay_none echo_none recvWrite_def receiveIO_def msg_notready_word)
  then show ?thesis
    using fresh
    by (simp add: link_quiet_def link_ready_def bdpi_inv_def hw_start_def link_regs_def
        pending_writes_def regs_of_def)
qed

text \<open>Once the software has set it up, the simulator finds it so.\<close>

lemma start_up_second:
  assumes "shm_fresh m"
  shows "snd (hw_cycle (hw_start, shm_setup_all m)) = shm_setup_all m"
proof -
  note fresh = shm_setup_all_fresh [OF assms]
  let ?b = "bdpi_start\<lparr>shm_mapped := True, shm_ready := True, outfifo := shm_fifo 0,
    infifo := shm_fifo 1, interruptfifo := shm_fifo 2\<rparr>"
  have "fifo_empty (shm_fifo 1) (shm_setup_all m)" using fresh by (simp add: fifo_empty_iff shm_invD)
  then have "bdpiIOData True bdpi_start (shm_setup_all m) = (io_notready, ?b, shm_setup_all m)"
    using shmReady_first [of bdpi_start "shm_setup_all m"] fresh
    by (simp add: bdpiIOData_def bdpi_start_def shm_setup_all_marked)
  then show ?thesis
    by (simp add: hw_cycle_def hw_start_def relay_none echo_none recvWrite_def receiveIO_def msg_notready_word)
qed

declare One_nat_def [simp]

end
