(* ===== verification/SpscSteps.thy ===== *)
theory SpscSteps
  imports ShmFifo
begin

text \<open>
  One producer and one consumer on a \<open>ShmFifo\<close>, at the granularity of the accesses to
  the shared memory. \<open>push\<close> reads the tail index, stores the word, then stores the head
  index. \<open>pop\<close> increments the tail index in place and, in a second store, resets it to 0
  when it reached the size: between the two stores the peer can read a tail index that
  equals the size. \<open>sent\<close> and \<open>got\<close> record the words published and taken.
\<close>

datatype producer_pc = PIdle | PChecked u64 u64 | PStored u64 u64
datatype consumer_pc = CIdle | CTaken | CBumped

record spsc =
  smem :: mem
  ppc :: producer_pc
  cpc :: consumer_pc
  sent :: "u64 list"
  got :: "u64 list"

inductive spsc_step :: "shmfifo \<Rightarrow> spsc \<Rightarrow> spsc \<Rightarrow> bool" for f where
  push_check: "ppc s = PIdle \<Longrightarrow> fifo_nexthead f (smem s) \<noteq> load64 (smem s) (tailidx f) \<Longrightarrow>
    spsc_step f s (s\<lparr>ppc := PChecked v (fifo_nexthead f (smem s))\<rparr>)"
| push_store: "ppc s = PChecked v nh \<Longrightarrow>
    spsc_step f s (s\<lparr>ppc := PStored v nh,
      smem := store64 (smem s) (fifo_slot f (load64 (smem s) (headidx f))) v\<rparr>)"
| push_publish: "ppc s = PStored v nh \<Longrightarrow>
    spsc_step f s (s\<lparr>ppc := PIdle, smem := store64 (smem s) (headidx f) nh, sent := sent s @ [v]\<rparr>)"
| pop_take: "cpc s = CIdle \<Longrightarrow> \<not> fifo_empty f (smem s) \<Longrightarrow>
    spsc_step f s (s\<lparr>cpc := CTaken, got := got s @ [fifo_tail f (smem s)]\<rparr>)"
| pop_bump: "cpc s = CTaken \<Longrightarrow>
    spsc_step f s (s\<lparr>cpc := CBumped,
      smem := store64 (smem s) (tailidx f) (load64 (smem s) (tailidx f) + 1)\<rparr>)"
| pop_wrap: "cpc s = CBumped \<Longrightarrow>
    spsc_step f s (s\<lparr>cpc := CIdle,
      smem := (if load64 (smem s) (tailidx f) \<ge> fsize f then store64 (smem s) (tailidx f) 0
               else smem s)\<rparr>)"

inductive_cases spsc_stepE: "spsc_step f s s'"

inductive spsc_reach :: "shmfifo \<Rightarrow> spsc \<Rightarrow> spsc \<Rightarrow> bool" for f where
  reach_refl: "spsc_reach f s s"
| reach_step: "spsc_reach f s s' \<Longrightarrow> spsc_step f s' s'' \<Longrightarrow> spsc_reach f s s''"

text \<open>
  The same steps when the producer never looks while the tail index is out of range (as
  if \<open>pop\<close> stored the wrapped index at once).
\<close>

definition tail_in_range :: "shmfifo \<Rightarrow> spsc \<Rightarrow> bool" where
  "tail_in_range f s \<longleftrightarrow> load64 (smem s) (tailidx f) < fsize f"

inductive ordered_reach :: "shmfifo \<Rightarrow> spsc \<Rightarrow> spsc \<Rightarrow> bool" for f where
  ordered_refl: "ordered_reach f s s"
| ordered_step: "ordered_reach f s s' \<Longrightarrow> spsc_step f s' s'' \<Longrightarrow>
    (ppc s' = PIdle \<Longrightarrow> ppc s'' \<noteq> PIdle \<Longrightarrow> tail_in_range f s') \<Longrightarrow> ordered_reach f s s''"

definition spsc_init :: "mem \<Rightarrow> spsc" where
  "spsc_init m = \<lparr>smem = m, ppc = PIdle, cpc = CIdle, sent = [], got = []\<rparr>"

subsection \<open>The invariant of the ordered steps\<close>

definition spsc_head :: "shmfifo \<Rightarrow> spsc \<Rightarrow> nat" where
  "spsc_head f s = unat (load64 (smem s) (headidx f))"

text \<open>The tail index once the pending wrap is done.\<close>

definition spsc_tail :: "shmfifo \<Rightarrow> spsc \<Rightarrow> nat" where
  "spsc_tail f s =
     (if cpc s = CBumped \<and> fsize f \<le> load64 (smem s) (tailidx f) then 0
      else unat (load64 (smem s) (tailidx f)))"

definition spsc_pending :: "shmfifo \<Rightarrow> spsc \<Rightarrow> u64 list" where
  "spsc_pending f s = ring_list (fifo_word f (smem s)) (unat (fsize f)) (spsc_tail f s) (spsc_head f s)"

fun producer_ok :: "shmfifo \<Rightarrow> spsc \<Rightarrow> producer_pc \<Rightarrow> bool" where
  "producer_ok f s PIdle = True"
| "producer_ok f s (PChecked v nh) =
     (ring_next (unat (fsize f)) (spsc_head f s) \<noteq> spsc_tail f s
      \<and> unat nh = ring_next (unat (fsize f)) (spsc_head f s))"
| "producer_ok f s (PStored v nh) =
     (ring_next (unat (fsize f)) (spsc_head f s) \<noteq> spsc_tail f s
      \<and> unat nh = ring_next (unat (fsize f)) (spsc_head f s)
      \<and> fifo_word f (smem s) (spsc_head f s) = v)"

definition spsc_inv :: "shmfifo \<Rightarrow> u64 list \<Rightarrow> spsc \<Rightarrow> bool" where
  "spsc_inv f start s \<longleftrightarrow>
     fifo_wf f \<and> spsc_head f s < unat (fsize f) \<and> spsc_tail f s < unat (fsize f)
     \<and> (cpc s \<noteq> CBumped \<longrightarrow> tail_in_range f s)
     \<and> (cpc s = CTaken \<longrightarrow> spsc_head f s \<noteq> spsc_tail f s)
     \<and> producer_ok f s (ppc s)
     \<and> start @ sent s = got s @ (if cpc s = CTaken then tl (spsc_pending f s) else spsc_pending f s)"

lemma spsc_views_other [simp]:
  "spsc_head f (s\<lparr>ppc := p\<rparr>) = spsc_head f s" "spsc_tail f (s\<lparr>ppc := p\<rparr>) = spsc_tail f s"
  "spsc_head f (s\<lparr>cpc := c\<rparr>) = spsc_head f s"
  "spsc_head f (s\<lparr>got := g\<rparr>) = spsc_head f s" "spsc_tail f (s\<lparr>got := g\<rparr>) = spsc_tail f s"
  "spsc_head f (s\<lparr>sent := g\<rparr>) = spsc_head f s" "spsc_tail f (s\<lparr>sent := g\<rparr>) = spsc_tail f s"
  "tail_in_range f (s\<lparr>ppc := p\<rparr>) = tail_in_range f s"
  "tail_in_range f (s\<lparr>cpc := c\<rparr>) = tail_in_range f s"
  "tail_in_range f (s\<lparr>got := g\<rparr>) = tail_in_range f s"
  "tail_in_range f (s\<lparr>sent := g\<rparr>) = tail_in_range f s"
  by (simp_all add: spsc_head_def spsc_tail_def tail_in_range_def)

lemma spsc_tail_in_range:
  "tail_in_range f s \<Longrightarrow> spsc_tail f s = unat (load64 (smem s) (tailidx f))"
  by (auto simp: spsc_tail_def tail_in_range_def)

lemma spsc_invD:
  assumes "spsc_inv f start s"
  shows "fifo_wf f" "spsc_head f s < unat (fsize f)" "spsc_tail f s < unat (fsize f)"
    "cpc s \<noteq> CBumped \<Longrightarrow> tail_in_range f s"
    "cpc s = CTaken \<Longrightarrow> spsc_head f s \<noteq> spsc_tail f s"
    "producer_ok f s (ppc s)"
    "start @ sent s = got s @ (if cpc s = CTaken then tl (spsc_pending f s) else spsc_pending f s)"
  using assms by (auto simp: spsc_inv_def)

lemma spsc_fifo_inv: "spsc_inv f start s \<Longrightarrow> tail_in_range f s \<Longrightarrow> fifo_inv f (smem s)"
  by (auto simp: spsc_inv_def fifo_inv_def tail_in_range_def spsc_head_def word_less_nat_alt)

lemma spsc_pending_list:
  "tail_in_range f s \<Longrightarrow> spsc_pending f s = fifo_list f (smem s)"
  by (simp add: spsc_pending_def fifo_list_def spsc_tail_in_range spsc_head_def)

text \<open>Storing a word into the free slot, and the two index stores, as changes of the view.\<close>

lemma store_slot_views:
  assumes "fifo_wf f" "i < fsize f" "s' = s\<lparr>ppc := p, smem := store64 (smem s) (fifo_slot f i) v\<rparr>"
  shows "spsc_head f s' = spsc_head f s" "spsc_tail f s' = spsc_tail f s"
    "tail_in_range f s' = tail_in_range f s"
    "fifo_word f (smem s') = (fifo_word f (smem s))(unat i := v)"
proof -
  note r = fifo_slot_range [OF assms(1,2)] and w = fifo_wfD [OF assms(1)]
  have ht: "load64 (smem s') (headidx f) = load64 (smem s) (headidx f)"
    "load64 (smem s') (tailidx f) = load64 (smem s) (tailidx f)"
    using r w by (simp_all add: assms(3) load64_store64_other)
  show "spsc_head f s' = spsc_head f s" "spsc_tail f s' = spsc_tail f s"
    "tail_in_range f s' = tail_in_range f s"
    using ht by (simp_all add: spsc_head_def spsc_tail_def tail_in_range_def assms(3))
  show "fifo_word f (smem s') = (fifo_word f (smem s))(unat i := v)"
  proof
    fix j
    show "fifo_word f (smem s') j = ((fifo_word f (smem s))(unat i := v)) j"
    proof (cases "j = unat i")
      case True
      then show ?thesis by (simp add: fifo_word_def assms(3) fifo_slot_def)
    next
      case False
      then have "j + 1 \<le> unat i \<or> unat i + 1 \<le> j" by linarith
      then have "load64 (smem s') (fmem f + 8 * j) = load64 (smem s) (fmem f + 8 * j)"
        unfolding assms(3) by (auto simp: fifo_slot_def intro!: load64_store64_other)
      with False show ?thesis by (simp add: fifo_word_def)
    qed
  qed
qed

lemma store_index_words:
  assumes "fifo_wf f" "a = headidx f \<or> a = tailidx f"
  shows "fifo_word f (store64 m a v) = fifo_word f m"
  using assms fifo_wfD [OF assms(1)] by (auto simp: fifo_word_def load64_store64_other)

lemma store_index_other:
  assumes "fifo_wf f"
  shows "load64 (store64 m (headidx f) v) (tailidx f) = load64 m (tailidx f)"
    "load64 (store64 m (tailidx f) v) (headidx f) = load64 m (headidx f)"
  using fifo_wfD [OF assms] by (simp_all add: load64_store64_other)

subsection \<open>Each step keeps the invariant\<close>

lemma push_check_inv:
  assumes inv: "spsc_inv f start s" and r: "tail_in_range f s"
    and p: "ppc s = PIdle" and nf: "fifo_nexthead f (smem s) \<noteq> load64 (smem s) (tailidx f)"
  shows "spsc_inv f start (s\<lparr>ppc := PChecked v (fifo_nexthead f (smem s))\<rparr>)"
proof -
  have n: "unat (fifo_nexthead f (smem s)) = ring_next (unat (fsize f)) (spsc_head f s)"
    using unat_nexthead [OF spsc_fifo_inv [OF inv r]] by (simp add: spsc_head_def)
  then have "ring_next (unat (fsize f)) (spsc_head f s) \<noteq> spsc_tail f s"
    using nf by (simp add: spsc_tail_in_range [OF r] word_unat_eq_iff)
  with n inv show ?thesis by (simp add: spsc_inv_def spsc_pending_def)
qed

lemma pending_store:
  assumes "spsc_inv f start s"
  shows "ring_list ((fifo_word f (smem s))(spsc_head f s := v)) (unat (fsize f)) (spsc_tail f s)
      (spsc_head f s) = spsc_pending f s"
  using spsc_invD(2,3) [OF assms] ring_pos_not_head
  by (auto simp: spsc_pending_def ring_list_def)

lemma push_store_inv:
  assumes inv: "spsc_inv f start s" and p: "ppc s = PChecked v nh"
  shows "spsc_inv f start (s\<lparr>ppc := PStored v nh,
      smem := store64 (smem s) (fifo_slot f (load64 (smem s) (headidx f))) v\<rparr>)" (is "spsc_inv f start ?s'")
proof -
  have i: "load64 (smem s) (headidx f) < fsize f"
    using spsc_invD(2) [OF inv] by (simp add: spsc_head_def word_less_nat_alt)
  note v = store_slot_views [OF spsc_invD(1) [OF inv] i, of ?s' s, OF refl]
  have "spsc_pending f ?s' = spsc_pending f s"
    using pending_store [OF inv] v by (simp add: spsc_pending_def spsc_head_def [symmetric])
  with v inv p show ?thesis
    by (simp add: spsc_inv_def spsc_head_def [symmetric])
qed

lemma ring_next_inj: "t < n \<Longrightarrow> h < n \<Longrightarrow> ring_next n h = ring_next n t \<Longrightarrow> h = t"
  by (auto simp: ring_next_def split: if_splits)

lemma push_publish_inv:
  assumes inv: "spsc_inv f start s" and p: "ppc s = PStored v nh"
  shows "spsc_inv f start (s\<lparr>ppc := PIdle, smem := store64 (smem s) (headidx f) nh, sent := sent s @ [v]\<rparr>)"
    (is "spsc_inv f start ?s'")
proof -
  note d = spsc_invD [OF inv]
  let ?n = "unat (fsize f)" and ?h = "spsc_head f s" and ?t = "spsc_tail f s"
  have ok: "ring_next ?n ?h \<noteq> ?t" "unat nh = ring_next ?n ?h" "fifo_word f (smem s) ?h = v"
    using d(6) p by simp_all
  have views: "spsc_head f ?s' = ring_next ?n ?h" "spsc_tail f ?s' = ?t"
    "tail_in_range f ?s' = tail_in_range f s" "fifo_word f (smem ?s') = fifo_word f (smem s)"
    using store_index_other [OF d(1)] ok
    by (simp_all add: spsc_head_def spsc_tail_def tail_in_range_def store_index_words [OF d(1)])
  have w: "(fifo_word f (smem s))(?h := v) = fifo_word f (smem s)" using ok(3) by auto
  have pend: "spsc_pending f ?s' = spsc_pending f s @ [v]"
    using ring_list_push [OF d(3,2) ok(1), of "fifo_word f (smem s)" v] views
    by (simp add: spsc_pending_def w)
  have ne: "spsc_pending f s \<noteq> []" if "cpc s = CTaken"
    using ring_list_empty [OF d(3,2), of "fifo_word f (smem s)"] d(5) [OF that]
    by (simp add: spsc_pending_def)
  have "0 < ?n" using d(2) by simp
  then show ?thesis
    using d views pend ne ok(1) by (auto simp: spsc_inv_def)
qed

lemma pop_take_inv:
  assumes inv: "spsc_inv f start s" and c: "cpc s = CIdle" and ne: "\<not> fifo_empty f (smem s)"
  shows "spsc_inv f start (s\<lparr>cpc := CTaken, got := got s @ [fifo_tail f (smem s)]\<rparr>)"
    (is "spsc_inv f start ?s'")
proof -
  note d = spsc_invD [OF inv]
  have r: "tail_in_range f s" using d(4) c by simp
  note fi = spsc_fifo_inv [OF inv r]
  have views: "spsc_head f ?s' = spsc_head f s" "spsc_tail f ?s' = spsc_tail f s"
    using c by (simp_all add: spsc_head_def spsc_tail_def)
  have l: "fifo_list f (smem s) = fifo_tail f (smem s) # tl (fifo_list f (smem s))"
    using fi ne by (simp add: fifo_tail_hd fifo_empty_iff)
  have pend: "spsc_pending f ?s' = fifo_list f (smem s)" "spsc_pending f s = fifo_list f (smem s)"
    using views spsc_pending_list [OF r] by (simp_all add: spsc_pending_def)
  have "spsc_head f s \<noteq> spsc_tail f s"
    using ne by (auto simp: spsc_head_def spsc_tail_in_range [OF r] fifo_empty_def word_unat_eq_iff)
  moreover have "producer_ok f ?s' (ppc s)" using d(6) views by (cases "ppc s") simp_all
  ultimately show ?thesis
    using d c r l pend views by (simp add: spsc_inv_def)
qed

lemma pop_bump_inv:
  assumes inv: "spsc_inv f start s" and c: "cpc s = CTaken"
  shows "spsc_inv f start (s\<lparr>cpc := CBumped,
      smem := store64 (smem s) (tailidx f) (load64 (smem s) (tailidx f) + 1)\<rparr>)"
    (is "spsc_inv f start ?s'")
proof -
  note d = spsc_invD [OF inv]
  let ?n = "unat (fsize f)" and ?h = "spsc_head f s" and ?t = "spsc_tail f s"
  have r: "tail_in_range f s" using d(4) c by simp
  have ht: "?h \<noteq> ?t" using d(5) c by simp
  have n: "0 < ?n" using d(2) by simp
  have views: "spsc_head f ?s' = ?h" "fifo_word f (smem ?s') = fifo_word f (smem s)"
    using store_index_other [OF d(1)]
    by (simp_all add: spsc_head_def store_index_words [OF d(1)])
  have "spsc_tail f ?s' = unat (if load64 (smem s) (tailidx f) + 1 \<ge> fsize f then 0
      else load64 (smem s) (tailidx f) + 1)"
    by (simp add: spsc_tail_def)
  then have t': "spsc_tail f ?s' = ring_next ?n ?t"
    using unat_next r by (simp add: tail_in_range_def spsc_tail_in_range)
  have pend: "spsc_pending f ?s' = tl (spsc_pending f s)"
    using ring_list_pop [OF d(3,2) ht, of "fifo_word f (smem s)"] views t'
    by (simp add: spsc_pending_def)
  have "ring_next ?n ?h \<noteq> ring_next ?n ?t" using ring_next_inj [OF d(3,2)] ht by blast
  then have "producer_ok f ?s' (ppc s)" using d(6) views t' by (cases "ppc s") simp_all
  then show ?thesis
    using d c views t' pend n by (simp add: spsc_inv_def)
qed

lemma pop_wrap_inv:
  assumes inv: "spsc_inv f start s" and c: "cpc s = CBumped"
  shows "spsc_inv f start (s\<lparr>cpc := CIdle,
      smem := (if load64 (smem s) (tailidx f) \<ge> fsize f then store64 (smem s) (tailidx f) 0
               else smem s)\<rparr>)" (is "spsc_inv f start ?s'")
proof -
  note d = spsc_invD [OF inv]
  have n: "0 < fsize f" by (rule fifo_wfD(3) [OF d(1)])
  have views: "spsc_head f ?s' = spsc_head f s" "spsc_tail f ?s' = spsc_tail f s"
    "fifo_word f (smem ?s') = fifo_word f (smem s)" "tail_in_range f ?s'"
    using store_index_other [OF d(1)] c n
    by (auto simp: spsc_head_def spsc_tail_def tail_in_range_def store_index_words [OF d(1)])
  moreover have "producer_ok f ?s' (ppc s)" using d(6) views by (cases "ppc s") simp_all
  ultimately show ?thesis
    using d c by (simp add: spsc_inv_def spsc_pending_def)
qed

lemma spsc_step_inv:
  assumes "spsc_step f s s'" "spsc_inv f start s"
    and "ppc s = PIdle \<Longrightarrow> ppc s' \<noteq> PIdle \<Longrightarrow> tail_in_range f s"
  shows "spsc_inv f start s'"
  using assms(1)
proof (rule spsc_stepE)
  fix v
  assume s': "s' = s\<lparr>ppc := PChecked v (fifo_nexthead f (smem s))\<rparr>" and p: "ppc s = PIdle"
    and nf: "fifo_nexthead f (smem s) \<noteq> load64 (smem s) (tailidx f)"
  have "tail_in_range f s" using assms(3) p s' by simp
  then show ?thesis unfolding s' using assms(2) p nf by (intro push_check_inv)
qed (erule ssubst, blast intro: push_store_inv push_publish_inv pop_take_inv pop_bump_inv
    pop_wrap_inv assms(2))+

lemma spsc_init_inv:
  assumes "fifo_inv f m"
  shows "spsc_inv f (fifo_list f m) (spsc_init m)"
  using assms
  by (auto simp: spsc_inv_def spsc_init_def spsc_head_def spsc_tail_def tail_in_range_def
      fifo_inv_def word_less_nat_alt spsc_pending_def fifo_list_def)

lemma ordered_reach_inv:
  "ordered_reach f s s' \<Longrightarrow> spsc_inv f start s \<Longrightarrow> spsc_inv f start s'"
  by (induction rule: ordered_reach.induct) (auto intro: spsc_step_inv)

lemma ordered_delivery:
  assumes "fifo_inv f m" "ordered_reach f (spsc_init m) s"
  shows "\<exists>rest. fifo_list f m @ sent s = got s @ rest
    \<and> (ppc s = PIdle \<and> cpc s = CIdle \<longrightarrow> rest = fifo_list f (smem s))"
proof -
  note d = spsc_invD [OF ordered_reach_inv [OF assms(2) spsc_init_inv [OF assms(1)]]]
  show ?thesis
    using d(7) spsc_pending_list [OF d(4)] by (cases "cpc s") auto
qed

text \<open>A push and the first half of a pop, as a run.\<close>

lemma ordered_push_take:
  assumes inv: "fifo_inv f m" and nf: "\<not> fifo_full f m"
  shows "\<exists>s x. ordered_reach f (spsc_init m) s \<and> sent s = [v] \<and> got s = [x]"
proof -
  let ?nh = "fifo_nexthead f m"
  let ?s1 = "(spsc_init m)\<lparr>ppc := PChecked v ?nh\<rparr>"
  let ?m2 = "store64 m (fifo_slot f (load64 m (headidx f))) v"
  let ?s2 = "?s1\<lparr>ppc := PStored v ?nh, smem := ?m2\<rparr>"
  let ?s3 = "?s2\<lparr>ppc := PIdle, smem := store64 ?m2 (headidx f) ?nh, sent := [v]\<rparr>"
  let ?s4 = "?s3\<lparr>cpc := CTaken, got := [fifo_tail f (smem ?s3)]\<rparr>"
  have c: "?nh \<noteq> load64 m (tailidx f)" using nf by (simp add: fifo_full_def)
  have "spsc_step f (spsc_init m) ?s1"
    using push_check [of "spsc_init m" f v] c by (simp add: spsc_init_def)
  moreover have "tail_in_range f (spsc_init m)" using inv by (simp add: tail_in_range_def spsc_init_def fifo_inv_def)
  ultimately have r1: "ordered_reach f (spsc_init m) ?s1" by (intro ordered_step [OF ordered_refl])
  have "spsc_step f ?s1 ?s2" using push_store [of ?s1 v ?nh f] by (simp add: spsc_init_def)
  then have r2: "ordered_reach f (spsc_init m) ?s2" by (rule ordered_step [OF r1]) simp_all
  have "spsc_step f ?s2 ?s3" using push_publish [of ?s2 v ?nh f] by (simp add: spsc_init_def)
  then have r3: "ordered_reach f (spsc_init m) ?s3" by (rule ordered_step [OF r2]) simp_all
  have "smem ?s3 = fifo_push f v m" using c by (simp add: fifo_push_def Let_def)
  then have "\<not> fifo_empty f (smem ?s3)" using shm.not_empty_after_enq [OF inv nf] by simp
  then have "spsc_step f ?s3 ?s4" using pop_take [of ?s3 f] by (simp add: spsc_init_def)
  then have r4: "ordered_reach f (spsc_init m) ?s4" by (rule ordered_step [OF r3]) simp_all
  then show ?thesis by (intro exI [of _ ?s4] exI [of _ "fifo_tail f (smem ?s3)"]) simp
qed

subsection \<open>The out-of-range tail index\<close>

text \<open>The three steps of the producer, taken together, are \<open>push\<close>.\<close>

lemma push_reach:
  assumes "spsc_reach f s0 s" "ppc s = PIdle"
    and "fifo_nexthead f (smem s) \<noteq> load64 (smem s) (tailidx f)"
    and "s' = s\<lparr>smem := fifo_push f v (smem s), sent := sent s @ [v]\<rparr>"
  shows "spsc_reach f s0 s'"
proof -
  let ?nh = "fifo_nexthead f (smem s)"
  let ?s1 = "s\<lparr>ppc := PChecked v ?nh\<rparr>"
  let ?s2 = "?s1\<lparr>ppc := PStored v ?nh, smem := store64 (smem s) (fifo_slot f (load64 (smem s) (headidx f))) v\<rparr>"
  have "spsc_reach f s0 ?s1"
    by (rule reach_step [OF assms(1)], rule push_check) (use assms in auto)
  moreover have "spsc_step f ?s1 ?s2"
    using push_store [of ?s1 v ?nh f] by simp
  ultimately have r2: "spsc_reach f s0 ?s2" by (rule reach_step)
  have s': "s' = ?s2\<lparr>ppc := PIdle, smem := store64 (smem ?s2) (headidx f) ?nh,
      sent := sent ?s2 @ [v]\<rparr>"
    using assms by (cases s) (simp add: fifo_push_def Let_def)
  have "spsc_step f ?s2 s'"
    unfolding s' by (rule push_publish) simp
  with r2 show ?thesis by (rule reach_step)
qed

lemma fifo_push_indices_raw:
  assumes "fifo_wf f" "load64 m (headidx f) < fsize f"
    and "fifo_nexthead f m \<noteq> load64 m (tailidx f)"
  shows "load64 (fifo_push f v m) (headidx f) = fifo_nexthead f m"
    and "load64 (fifo_push f v m) (tailidx f) = load64 m (tailidx f)"
  using assms fifo_slot_range [OF assms(1,2)] fifo_wfD [OF assms(1)]
  by (auto simp: fifo_push_def Let_def load64_store64_other)

lemma fifo_list_same_index:
  "load64 m (tailidx f) = load64 m (headidx f) \<Longrightarrow> fifo_list f m = []"
  by (simp add: fifo_list_def ring_list_def ring_count_def)

lemma nexthead_below:
  assumes "load64 m (headidx f) + 1 < fsize f"
  shows "fifo_nexthead f m = load64 m (headidx f) + 1"
  using assms by (auto simp: fifo_nexthead_def Let_def not_less)

text \<open>
  The interleaving: the queue is full with the tail index in its last position; \<open>pop\<close> has
  done its first store, two pushes go through, and the second store of \<open>pop\<close> then makes the
  indices equal.
\<close>

lemma pop_race:
  assumes inv: "fifo_inv f m" and full: "fifo_full f m" and n: "1 < fsize f"
    and t: "load64 m (tailidx f) = fsize f - 1"
  shows "\<exists>s. spsc_reach f (spsc_init m) s \<and> ppc s = PIdle \<and> cpc s = CIdle
    \<and> sent s = [v1, v2] \<and> got s = [hd (fifo_list f m)] \<and> fifo_list f (smem s) = []"
proof -
  let ?N = "fsize f"
  note wf = fifo_invD(1) [OF inv]
  have nh: "fifo_nexthead f m = ?N - 1" using full t by (simp add: fifo_full_def)
  have N0: "?N - 1 \<noteq> 0" using n by auto
  have h: "load64 m (headidx f) + 1 = ?N - 1"
    using nh N0 by (auto simp: fifo_nexthead_def Let_def split: if_splits)
  have hN: "load64 m (headidx f) < ?N" using inv by (simp add: fifo_inv_def)
  have ne: "\<not> fifo_empty f m"
    by (simp add: fifo_empty_def t h [symmetric])
  let ?s0 = "spsc_init m"
  let ?s1 = "?s0\<lparr>cpc := CTaken, got := [fifo_tail f m]\<rparr>"
  let ?m1 = "store64 m (tailidx f) ?N"
  let ?s2 = "?s1\<lparr>cpc := CBumped, smem := ?m1\<rparr>"
  let ?m2 = "fifo_push f v1 ?m1"
  let ?s3 = "?s2\<lparr>smem := ?m2, sent := [v1]\<rparr>"
  let ?m3 = "fifo_push f v2 ?m2"
  let ?s4 = "?s3\<lparr>smem := ?m3, sent := [v1, v2]\<rparr>"
  let ?s5 = "?s4\<lparr>cpc := CIdle, smem := store64 ?m3 (tailidx f) 0\<rparr>"
  have "spsc_reach f ?s0 ?s1"
    using reach_step [OF reach_refl pop_take [of ?s0 f]] ne by (simp add: spsc_init_def)
  moreover have "spsc_step f ?s1 ?s2"
    using pop_bump [of ?s1 f] t by (simp add: spsc_init_def)
  ultimately have r2: "spsc_reach f ?s0 ?s2" by (rule reach_step)
  have i1: "load64 ?m1 (headidx f) = load64 m (headidx f)" "load64 ?m1 (tailidx f) = ?N"
    using store_index_other [OF wf] by simp_all
  have n1: "fifo_nexthead f ?m1 = ?N - 1"
    using nh by (simp add: fifo_nexthead_def i1)
  have c1: "fifo_nexthead f ?m1 \<noteq> load64 ?m1 (tailidx f)" using n1 i1 by simp
  have r3: "spsc_reach f ?s0 ?s3"
    by (rule push_reach [OF r2, where v = v1]) (use c1 in \<open>simp_all add: spsc_init_def\<close>)
  have i2: "load64 ?m2 (headidx f) = ?N - 1" "load64 ?m2 (tailidx f) = ?N"
    using fifo_push_indices_raw [OF wf _ c1] hN i1 n1 by simp_all
  have n2: "fifo_nexthead f ?m2 = 0" by (simp add: fifo_nexthead_def i2)
  have c2: "fifo_nexthead f ?m2 \<noteq> load64 ?m2 (tailidx f)" using n n2 i2 by auto
  have r4: "spsc_reach f ?s0 ?s4"
    by (rule push_reach [OF r3, where v = v2]) (use c2 in \<open>simp_all add: spsc_init_def\<close>)
  have "?N \<noteq> 0" using n by auto
  then have "?N - 1 < ?N" by (simp add: word_less_nat_alt unat_minus_one unat_gt_0)
  then have i3: "load64 ?m3 (headidx f) = 0" "load64 ?m3 (tailidx f) = ?N"
    using fifo_push_indices_raw [OF wf _ c2] i2 n2 by simp_all
  have "spsc_step f ?s4 ?s5"
    using pop_wrap [of ?s4 f] i3 by (simp add: spsc_init_def)
  then have r5: "spsc_reach f ?s0 ?s5" by (rule reach_step [OF r4])
  have "fifo_list f (smem ?s5) = []"
    using i3 store_index_other(2) [OF wf] by (simp add: fifo_list_same_index)
  moreover have "fifo_tail f m = hd (fifo_list f m)"
    using inv ne by (simp add: fifo_tail_hd fifo_empty_iff)
  ultimately show ?thesis
    using r5 by (intro exI [of _ ?s5]) (simp add: spsc_init_def)
qed

end
