(* ===== verification/BdbmPcie.thy ===== *)
theory BdbmPcie
  imports BdbmConfig
begin

text \<open>
  \<open>BdbmPcie\<close> of \<^verbatim>\<open>cpp/bdbmpcie.cpp\<close> in the build for the device (no \<^verbatim>\<open>BLUESIM\<close>): memory-mapped
  reads and writes of the 1 MB BAR, with a window of 512 outstanding user accesses. The
  accesses \<open>ummd[i]\<close> are the operations \<open>rd\<close> and \<open>wr\<close> of a device state \<open>'d\<close>; a read may
  change it, since the device moves on meanwhile. \<open>None\<close> is a call that does not return: it
  polls for ever, or it leaves the mapping.
\<close>

record bdbm =
  io_wreq :: u32
  io_rreq :: u32
  io_wbudget :: u32
  io_rbudget :: u32

definition wemit_idx :: u32 where
  "wemit_idx = CONFIG_BUFFER_ISIZE - 1"

definition remit_idx :: u32 where
  "remit_idx = CONFIG_BUFFER_ISIZE - 2"

definition in_bar0 :: "u32 \<Rightarrow> bool" where
  "in_bar0 i \<longleftrightarrow> 4 * unat i + 4 \<le> BAR0_SIZE"

text \<open>\<open>Init_Pcie\<close>: the write of word 0 resets the counters of the device.\<close>

definition Init_Pcie :: "('d \<Rightarrow> u32 \<Rightarrow> u32 \<Rightarrow> 'd) \<Rightarrow> 'd \<Rightarrow> bdbm \<times> 'd" where
  "Init_Pcie wr d =
     (let d1 = wr d 0 0
      in (\<lparr>io_wreq = 0, io_rreq = 0, io_wbudget = 0, io_rbudget = 0\<rparr>, d1))"

definition writeWord ::
  "('d \<Rightarrow> u32 \<Rightarrow> u32 \<times> 'd) \<Rightarrow> ('d \<Rightarrow> u32 \<Rightarrow> u32 \<Rightarrow> 'd) \<Rightarrow> u32 \<Rightarrow> u32 \<Rightarrow> bdbm \<times> 'd \<Rightarrow> (bdbm \<times> 'd) option" where
  "writeWord rd wr addr data s = (case s of (p, d) \<Rightarrow>
     if \<not> in_bar0 (drop_bit 2 addr) then None
     else if io_wbudget p > 0
     then Some (p\<lparr>io_wbudget := io_wbudget p - 1\<rparr>, wr d (drop_bit 2 addr) data)
     else
       (case while_option (\<lambda>(io_wemit, d). io_wreq p - io_wemit \<ge> IO_QUEUE_SIZE div 2)
               (\<lambda>(io_wemit, d). rd d wemit_idx) (rd d wemit_idx) of
          None \<Rightarrow> None
        | Some (io_wemit, d1) \<Rightarrow>
            Some (p\<lparr>io_wbudget := IO_QUEUE_SIZE - (io_wreq p - io_wemit),
                    io_wreq := io_wreq p + (IO_QUEUE_SIZE - (io_wreq p - io_wemit) + 1)\<rparr>,
                  wr d1 (drop_bit 2 addr) data)))"

definition readWord ::
  "('d \<Rightarrow> u32 \<Rightarrow> u32 \<times> 'd) \<Rightarrow> u32 \<Rightarrow> bdbm \<times> 'd \<Rightarrow> (u32 \<times> bdbm \<times> 'd) option" where
  "readWord rd addr s = (case s of (p, d) \<Rightarrow>
     if \<not> in_bar0 (drop_bit 2 addr) then None
     else if io_rbudget p > 0
     then (let (data, d1) = rd d (drop_bit 2 addr)
           in Some (data, p\<lparr>io_rreq := 0xffff AND (io_rreq p + 1), io_rbudget := io_rbudget p - 1\<rparr>, d1))
     else
       (let (e, d0) = rd d remit_idx;
            io_remit = e AND 0xffff;
            iob = (if io_remit > io_rreq p then io_rreq p + 0x10000 else io_rreq p)
        in case while_option (\<lambda>(io_remit, d). iob \<ge> io_remit + IO_QUEUE_SIZE)
                  (\<lambda>(io_remit, d). let (e, d1) = rd d remit_idx in (e AND 0xffff, d1)) (io_remit, d0) of
             None \<Rightarrow> None
           | Some (io_remit, d1) \<Rightarrow>
               (let (data, d2) = rd d1 (drop_bit 2 addr)
                in Some (data, p\<lparr>io_rbudget := io_remit + IO_QUEUE_SIZE - iob,
                                 io_rreq := 0xffff AND (io_rreq p + 1)\<rparr>, d2))))"

definition userWriteWord ::
  "('d \<Rightarrow> u32 \<Rightarrow> u32 \<times> 'd) \<Rightarrow> ('d \<Rightarrow> u32 \<Rightarrow> u32 \<Rightarrow> 'd) \<Rightarrow> u32 \<Rightarrow> u32 \<Rightarrow> bdbm \<times> 'd \<Rightarrow> (bdbm \<times> 'd) option" where
  "userWriteWord rd wr addr data s = writeWord rd wr (addr + CONFIG_BUFFER_SIZE) data s"

definition userReadWord ::
  "('d \<Rightarrow> u32 \<Rightarrow> u32 \<times> 'd) \<Rightarrow> u32 \<Rightarrow> bdbm \<times> 'd \<Rightarrow> (u32 \<times> bdbm \<times> 'd) option" where
  "userReadWord rd addr s = readWord rd (addr + CONFIG_BUFFER_SIZE) s"

text \<open>A word index in the user space of the BAR, and the address the user logic sees.\<close>

definition user_index :: "u32 \<Rightarrow> bool" where
  "user_index i \<longleftrightarrow> CONFIG_BUFFER_ISIZE \<le> i \<and> in_bar0 i"

definition bar_addr :: "u32 \<Rightarrow> ioaddr" where
  "bar_addr i = ucast (4 * i)"

lemma mask_16: "0xffff = (mask 16 :: u32)"
  by (simp add: mask_eq_exp_minus_1)

lemma unat_and_ffff: "unat (0xffff AND (x :: u32)) = unat x mod 2 ^ 16"
proof -
  have "0xffff AND x = take_bit 16 x" unfolding mask_16 take_bit_eq_mask by (rule and.commute)
  then show ?thesis by (simp add: take_bit_eq_mod unat_mod_distrib)
qed

lemma and_mask_add_one: "0xffff AND ((0xffff AND x) + 1) = 0xffff AND ((x :: u32) + 1)"
proof -
  have small: "unat x mod 2 ^ 16 < 2 ^ 16" by simp
  then have "unat ((0xffff AND x) + 1) = unat x mod 2 ^ 16 + 1"
    using unat_add_one_small [of "0xffff AND x"] unat_and_ffff [of x] by simp
  moreover have "unat (x + 1) mod 2 ^ 16 = (unat x + 1) mod 2 ^ 16"
    by (simp add: unat_word_ariths mod_mod_cancel)
  ultimately have "unat (0xffff AND ((0xffff AND x) + 1)) = unat (0xffff AND (x + 1))"
    unfolding unat_and_ffff by (simp add: mod_simps)
  then show ?thesis by (simp add: word_unat_eq_iff)
qed

text \<open>
  A count that is \<open>k\<close> ahead of another, both modulo 65536, is \<open>k\<close> above it once \<open>readWord\<close> has
  unwrapped it; the loop of \<open>readWord\<close> waits unless \<open>k\<close> is less than 512.
\<close>

definition unwrap16 :: "u32 \<Rightarrow> u32 \<Rightarrow> u32" where
  "unwrap16 e r = (if e > r then r + 0x10000 else r)"

lemma unwrap16_lag:
  fixes n :: u32
  assumes "k < 2 ^ 16"
  shows "unat (unwrap16 (n AND 0xffff) (0xffff AND (n + of_nat k))) = unat (n AND 0xffff) + k"
    "unat ((n AND 0xffff) + 512) = unat (n AND 0xffff) + 512"
proof -
  let ?r = "0xffff AND (n + of_nat k)" and ?e = "n AND 0xffff"
  have k: "unat (of_nat k :: u32) = k" using assms by (simp add: unat_of_nat_small)
  define x where "x = unat n mod 65536"
  have e: "unat ?e = x" using unat_and_ffff [of n] by (simp add: and.commute x_def)
  have r: "unat ?r = (x + k) mod 65536"
    unfolding unat_and_ffff x_def by (simp add: unat_word_ariths k mod_mod_cancel mod_simps)
  have x: "x < 65536" by (simp add: x_def)
  show "unat (?e + 512) = unat ?e + 512" using x e by (subst unat_add_lem [THEN iffD1]) simp_all
  show "unat (unwrap16 ?e ?r) = unat ?e + k"
  proof (cases "x + k < 65536")
    case True
    then show ?thesis using e r by (simp add: unwrap16_def word_less_nat_alt)
  next
    case False
    have r': "unat ?r = x + k - 65536" using r x assms False by (simp add: mod_if)
    have "unat (?r + 0x10000) = x + k"
      using r' x assms False by (subst unat_add_lem [THEN iffD1]) simp_all
    then show ?thesis using assms x e r' False by (simp add: unwrap16_def word_less_nat_alt)
  qed
qed

lemma unwrap16_waits:
  assumes "k < 2 ^ 16"
  shows "unwrap16 (n AND 0xffff) (0xffff AND (n + of_nat k)) \<ge> (n AND 0xffff) + 512 \<longleftrightarrow> 512 \<le> k"
  by (simp add: word_le_nat_alt unwrap16_lag [OF assms])

lemma unwrap16_budget:
  assumes "k < 512"
  shows "unat ((n AND 0xffff) + 512 - unwrap16 (n AND 0xffff) (0xffff AND (n + of_nat k))) = 512 - k"
proof -
  have "k < 2 ^ 16" using assms by simp
  note u = unwrap16_lag [OF this, of n]
  show ?thesis using assms by (subst unat_sub) (simp_all add: word_le_nat_alt u)
qed

text \<open>
  Whatever the polling does to the device, it does by reads: the write then hits a device
  that some reads led to.
\<close>

lemma writeWord_device:
  assumes "writeWord rd wr addr data (p, d) = Some (p', d')"
    and "R d d" "\<And>x i. R d x \<Longrightarrow> R d (snd (rd x i))"
  shows "\<exists>d1. R d d1 \<and> d' = wr d1 (drop_bit 2 addr) data"
proof (cases "io_wbudget p > 0")
  case True
  then show ?thesis using assms(1,2) by (auto simp: writeWord_def split: if_splits)
next
  case False
  obtain e d1 where w: "while_option (\<lambda>(e, d). io_wreq p - e \<ge> IO_QUEUE_SIZE div 2)
      (\<lambda>(e, d). rd d wemit_idx) (rd d wemit_idx) = Some (e, d1)"
    and d': "d' = wr d1 (drop_bit 2 addr) data"
    using assms(1) False by (auto simp: writeWord_def split: option.splits if_splits)
  have "R d (snd (e, d1))"
    by (rule while_option_rule [where P = "\<lambda>s. R d (snd s)", OF _ w])
      (auto intro: assms(2,3) split: prod.splits)
  then show ?thesis using d' by auto
qed

subsection \<open>What the window needs of the device\<close>

text \<open>
  \<open>issued\<close> counts the user writes the device was given, \<open>queued\<close> those of them its user
  logic has not taken, \<open>written\<close> lists them, \<open>reads\<close> counts the completed user reads. The
  register at \<open>wemit_idx\<close> holds the writes taken, the one at \<open>remit_idx\<close> the reads
  completed.
\<close>

locale flow_device =
  fixes rd :: "'d \<Rightarrow> u32 \<Rightarrow> u32 \<times> 'd"
    and wr :: "'d \<Rightarrow> u32 \<Rightarrow> u32 \<Rightarrow> 'd"
    and good :: "'d \<Rightarrow> bool"
    and issued :: "'d \<Rightarrow> u32"
    and queued :: "'d \<Rightarrow> nat"
    and written :: "'d \<Rightarrow> (ioaddr \<times> u32) list"
    and reads :: "'d \<Rightarrow> u32"
  assumes good_wr: "good d \<Longrightarrow> good (wr d i v)"
    and good_rd: "good d \<Longrightarrow> good (snd (rd d i))"
    and issued_wr: "good d \<Longrightarrow> user_index i \<Longrightarrow> issued (wr d i v) = issued d + 1"
    and issued_rd: "good d \<Longrightarrow> issued (snd (rd d i)) = issued d"
    and queued_wr: "good d \<Longrightarrow> user_index i \<Longrightarrow> queued (wr d i v) \<le> queued d + 1"
    and queued_rd: "good d \<Longrightarrow> queued (snd (rd d i)) \<le> queued d"
    and wemit_value: "good d \<Longrightarrow> fst (rd d wemit_idx) = issued d - of_nat (queued (snd (rd d wemit_idx)))"
    and written_wr: "good d \<Longrightarrow> user_index i \<Longrightarrow> 
      written (wr d i v) = written d @ [(bar_addr i - io_userspace_offset, v)]"
    and written_rd: "good d \<Longrightarrow> written (snd (rd d i)) = written d"
    and reads_user: "good d \<Longrightarrow> user_index i \<Longrightarrow> reads (snd (rd d i)) = reads d + 1"
    and reads_config: "good d \<Longrightarrow> i < CONFIG_BUFFER_ISIZE \<Longrightarrow> reads (snd (rd d i)) = reads d"
    and remit_value: "good d \<Longrightarrow> fst (rd d remit_idx) = reads d"
    and reads_wr: "good d \<Longrightarrow> user_index i \<Longrightarrow> reads (wr d i v) = reads d"
begin

text \<open>
  The window: what was issued plus the writes still allowed without looking is \<open>io_wreq\<close>,
  and those allowed plus those queued in the device are at most 513.
\<close>

definition write_window :: "bdbm \<times> 'd \<Rightarrow> bool" where
  "write_window s \<longleftrightarrow> (case s of (p, d) \<Rightarrow>
     good d \<and> issued d + io_wbudget p = io_wreq p \<and> queued d + unat (io_wbudget p) \<le> 513)"

text \<open>
  \<open>io_rreq\<close> is ahead of the device by the reads it does not count, those of the configuration space;
  together with the reads still allowed without looking they are at most 513.
\<close>

definition read_lag :: "nat \<Rightarrow> bdbm \<times> 'd \<Rightarrow> bool" where
  "read_lag k s \<longleftrightarrow> (case s of (p, d) \<Rightarrow>
     good d \<and> io_rreq p = 0xffff AND (reads d + of_nat k) \<and> unat (io_rbudget p) + k \<le> 513)"

lemma reads_status: "good d \<Longrightarrow> i = wemit_idx \<or> i = remit_idx \<Longrightarrow> reads (snd (rd d i)) = reads d"
  by (rule reads_config)
    (auto simp: wemit_idx_def remit_idx_def CONFIG_BUFFER_ISIZE_def CONFIG_BUFFER_SIZE_def)

lemma poll_wemit:
  assumes "write_window (p, d)" "io_wbudget p = 0"
    and "while_option (\<lambda>(e, d). io_wreq p - e \<ge> IO_QUEUE_SIZE div 2) (\<lambda>(e, d). rd d wemit_idx)
      (rd d wemit_idx) = Some (e, d1)"
  shows "good d1" "issued d1 = issued d" "queued d1 < 256" "io_wreq p - e = of_nat (queued d1)"
    "written d1 = written d" "reads d1 = reads d"
proof -
  let ?P = "\<lambda>(e, d'). good d' \<and> issued d' = issued d \<and> queued d' \<le> 513
    \<and> e = issued d - of_nat (queued d') \<and> written d' = written d \<and> reads d' = reads d"
  have step: "?P (rd d' wemit_idx)"
    if "good d'" "issued d' = issued d" "queued d' \<le> 513" "written d' = written d" "reads d' = reads d" for d'
    using that good_rd [OF that(1), of wemit_idx] issued_rd [OF that(1), of wemit_idx]
      queued_rd [OF that(1), of wemit_idx] wemit_value [OF that(1)]
      written_rd [OF that(1), of wemit_idx] reads_status [OF that(1), of wemit_idx]
    by (simp add: case_prod_unfold)
  have "?P (e, d1)"
  proof (rule while_option_rule [where P = ?P, OF _ assms(3)])
    show "?P (rd d wemit_idx)"
      using assms(1) by (intro step) (simp_all add: write_window_def)
    show "?P ((\<lambda>(e, d). rd d wemit_idx) s)" if "?P s" for s
      using that by (cases s) (simp only: prod.case, intro step, simp_all)
  qed
  moreover have "\<not> io_wreq p - e \<ge> IO_QUEUE_SIZE div 2"
    using while_option_stop [OF assms(3)] by simp
  ultimately have d1: "good d1" "issued d1 = issued d" "queued d1 \<le> 513" "e = issued d - of_nat (queued d1)"
    "written d1 = written d" "reads d1 = reads d"
    and lt: "io_wreq p - e < 256"
    by (auto simp: IO_QUEUE_SIZE_def)
  show eq: "io_wreq p - e = of_nat (queued d1)"
    using assms(1,2) d1(4) by (simp add: write_window_def)
  have "unat (of_nat (queued d1) :: u32) = queued d1" using d1(3) by (simp add: unat_of_nat_small)
  with lt show "queued d1 < 256" unfolding eq by (simp add: word_less_nat_alt)
  show "good d1" "issued d1 = issued d" "written d1 = written d" "reads d1 = reads d" by (rule d1)+
qed

lemma writeWord_keeps_window:
  assumes "write_window (p, d)" "user_index (drop_bit 2 addr)"
    and "writeWord rd wr addr data (p, d) = Some (p', d')"
  shows "write_window (p', d') \<and> 
    written d' = written d @ [(bar_addr (drop_bit 2 addr) - io_userspace_offset, data)] \<and> reads d' = reads d
    \<and> io_rreq p' = io_rreq p \<and> io_rbudget p' = io_rbudget p"
proof (cases "io_wbudget p > 0")
  case True
  let ?i = "drop_bit 2 addr"
  have "p' = p\<lparr>io_wbudget := io_wbudget p - 1\<rparr>" "d' = wr d ?i data"
    using assms(2,3) True by (auto simp: writeWord_def user_index_def)
  moreover have "unat (io_wbudget p - 1) = unat (io_wbudget p) - 1" "0 < unat (io_wbudget p)"
    using True by (auto simp: unat_minus_one unat_gt_0)
  ultimately show ?thesis
    using assms(1) good_wr [of d ?i data] issued_wr [of d ?i data] queued_wr [of d ?i data]
      written_wr [of d ?i data] reads_wr [of d ?i data] assms(2)
    by (auto simp: write_window_def)
next
  case False
  let ?i = "drop_bit 2 addr"
  have b0: "io_wbudget p = 0" using False by (simp add: word_gt_0)
  obtain e d1 where w: "while_option (\<lambda>(e, d). io_wreq p - e \<ge> IO_QUEUE_SIZE div 2) (\<lambda>(e, d). rd d wemit_idx)
      (rd d wemit_idx) = Some (e, d1)"
    and p': "p' = p\<lparr>io_wbudget := IO_QUEUE_SIZE - (io_wreq p - e),
        io_wreq := io_wreq p + (IO_QUEUE_SIZE - (io_wreq p - e) + 1)\<rparr>" and d': "d' = wr d1 ?i data"
    using assms(2,3) False by (auto simp: writeWord_def user_index_def split: option.splits)
  note q = poll_wemit [OF assms(1) b0 w]
  have "unat (512 - of_nat (queued d1) :: u32) = 512 - queued d1"
    using q(3) by (subst unat_sub) (simp_all add: word_le_nat_alt unat_of_nat_small)
  then show ?thesis
    using assms(1) b0 q good_wr [OF q(1), of ?i data] issued_wr [OF q(1) assms(2), of data]
      queued_wr [OF q(1) assms(2), of data] written_wr [OF q(1) assms(2), of data]
      reads_wr [OF q(1) assms(2), of data]
    by (simp add: write_window_def p' d' IO_QUEUE_SIZE_def)
qed

lemma in_flight_bound: "write_window (p, d) \<Longrightarrow> queued d \<le> 513"
  by (simp add: write_window_def)

text \<open>What a read does when it does not wait: it may look at the counter first.\<close>

definition read_done :: "nat \<Rightarrow> u32 \<Rightarrow> bdbm \<times> 'd \<Rightarrow> (u32 \<times> bdbm \<times> 'd) option \<Rightarrow> bool" where
  "read_done k i s r \<longleftrightarrow> (case s of (p, d) \<Rightarrow> \<exists>b d1. r = Some (fst (rd d1 i),
      p\<lparr>io_rbudget := b, io_rreq := 0xffff AND (io_rreq p + 1)\<rparr>, snd (rd d1 i))
    \<and> (d1 = d \<or> d1 = snd (rd d remit_idx)) \<and> unat b + k \<le> 512)"

lemma readWord_allowed:
  assumes "read_lag k (p, d)" "io_rbudget p > 0" "in_bar0 (drop_bit 2 addr)"
  shows "read_done k (drop_bit 2 addr) (p, d) (readWord rd addr (p, d))"
proof -
  let ?i = "drop_bit 2 addr"
  have "readWord rd addr (p, d) = Some (fst (rd d ?i),
      p\<lparr>io_rbudget := io_rbudget p - 1, io_rreq := 0xffff AND (io_rreq p + 1)\<rparr>, snd (rd d ?i))"
    using assms(2,3) by (cases p) (simp add: readWord_def case_prod_unfold Let_def)
  moreover have "unat (io_rbudget p - 1) = unat (io_rbudget p) - 1" "0 < unat (io_rbudget p)"
    using assms(2) by (auto simp: unat_minus_one unat_gt_0)
  then have "unat (io_rbudget p - 1) + k \<le> 512" using assms(1) unfolding read_lag_def prod.case by linarith
  ultimately show ?thesis unfolding read_done_def by blast
qed

text \<open>
  With no read allowed it looks at the counter. The device has answered every read before it,
  and only the lag is missing from its count: below 512 the read does not wait, from there
  on it waits for ever.
\<close>

lemma readWord_refill:
  assumes "read_lag k (p, d)" "\<not> io_rbudget p > 0" "k < 512" "in_bar0 (drop_bit 2 addr)"
  shows "read_done k (drop_bit 2 addr) (p, d) (readWord rd addr (p, d))"
proof -
  let ?i = "drop_bit 2 addr"
  have g: "good d" and r: "io_rreq p = 0xffff AND (reads d + of_nat k)"
    using assms(1) by (auto simp: read_lag_def)
  obtain d0 where rem: "rd d remit_idx = (reads d, d0)"
    using remit_value [OF g] by (metis prod.collapse)
  define iob where "iob = unwrap16 (reads d AND 0xffff) (io_rreq p)"
  have "\<not> (iob \<ge> (reads d AND 0xffff) + IO_QUEUE_SIZE)"
    unfolding iob_def r IO_QUEUE_SIZE_def using unwrap16_waits [of k "reads d"] assms(3) by simp
  then have "while_option (\<lambda>(e, d). iob \<ge> e + IO_QUEUE_SIZE)
      (\<lambda>(e, d). let (e, d1) = rd d remit_idx in (e AND 0xffff, d1)) (reads d AND 0xffff, d0)
      = Some (reads d AND 0xffff, d0)"
    by (intro poll_at_once) simp
  then have "readWord rd addr (p, d) = Some (fst (rd d0 ?i),
      p\<lparr>io_rbudget := (reads d AND 0xffff) + IO_QUEUE_SIZE - iob, io_rreq := 0xffff AND (io_rreq p + 1)\<rparr>,
      snd (rd d0 ?i))"
    using assms(2,4) unfolding readWord_def iob_def unwrap16_def
    by (simp only: rem prod.case Let_def if_False not_not if_True simp_thms option.case)
      (simp add: case_prod_unfold)
  moreover have "unat ((reads d AND 0xffff) + IO_QUEUE_SIZE - iob) + k \<le> 512"
    unfolding iob_def r IO_QUEUE_SIZE_def using unwrap16_budget [OF assms(3), of "reads d"] assms(3) by simp
  moreover have "d0 = snd (rd d remit_idx)" by (simp add: rem)
  ultimately show ?thesis unfolding read_done_def by blast
qed

lemma readWord_blocks:
  assumes "read_lag k (p, d)" "\<not> io_rbudget p > 0" "512 \<le> k"
  shows "readWord rd addr (p, d) = None"
proof -
  have g: "good d" and r: "io_rreq p = 0xffff AND (reads d + of_nat k)" "k < 2 ^ 16"
    using assms(1) by (auto simp: read_lag_def)
  let ?P = "\<lambda>(e, d'). e = reads d AND 0xffff \<and> good d' \<and> reads d' = reads d"
  have step: "?P (let (e, d1) = rd d' remit_idx in (e AND 0xffff, d1))" if "good d'" "reads d' = reads d" for d'
    using that good_rd [OF that(1), of remit_idx] reads_status [OF that(1), of remit_idx] remit_value [OF that(1)]
    by (simp add: case_prod_unfold)
  obtain d0 where rem: "rd d remit_idx = (reads d, d0)"
    using remit_value [OF g] by (metis prod.collapse)
  have "while_option (\<lambda>(e, d). unwrap16 (reads d0 AND 0xffff) (io_rreq p) \<ge> e + IO_QUEUE_SIZE)
      (\<lambda>(e, d). let (e, d1) = rd d remit_idx in (e AND 0xffff, d1)) (reads d AND 0xffff, d0) = None"
  proof (rule poll_stuck [where P = ?P])
    show "?P (reads d AND 0xffff, d0)" using step [OF g] by (simp add: rem)
  next
    fix s assume p: "?P s"
    obtain e d' where s: "s = (e, d')" by (cases s)
    have "reads d0 = reads d" using step [OF g] by (simp add: rem)
    then have "e + IO_QUEUE_SIZE \<le> unwrap16 (reads d0 AND 0xffff) (io_rreq p)"
      using p s unwrap16_waits [OF r(2), of "reads d"] assms(3) by (simp add: r(1) IO_QUEUE_SIZE_def)
    then show "(case s of (e, d) \<Rightarrow> unwrap16 (reads d0 AND 0xffff) (io_rreq p) \<ge> e + IO_QUEUE_SIZE) \<and>
        ?P (case s of (e, d) \<Rightarrow> let (e, d1) = rd d remit_idx in (e AND 0xffff, d1))"
      using p s step [of d'] by simp
  qed
  moreover have "reads d0 = reads d" using step [OF g] by (simp add: rem)
  ultimately show ?thesis using assms(2)
    by (simp add: readWord_def rem Let_def unwrap16_def)
qed

lemma readWord_cases:
  assumes "read_lag k (p, d)" "in_bar0 (drop_bit 2 addr)"
  shows "readWord rd addr (p, d) = None \<or> read_done k (drop_bit 2 addr) (p, d) (readWord rd addr (p, d))"
  using readWord_allowed [OF assms(1) _ assms(2)] readWord_refill [OF assms(1) _ _ assms(2)]
    readWord_blocks [OF assms(1)] not_le by blast

text \<open>A user read keeps the lag, a read of the configuration space adds to it.\<close>

lemma read_done_keeps:
  assumes "write_window (p, d)" "read_lag k (p, d)" "in_bar0 i" "read_done k i (p, d) r"
  shows "\<exists>data p' d'. r = Some (data, p', d') \<and> read_lag (if user_index i then k else k + 1) (p', d')
    \<and> write_window (p', d') \<and> written d' = written d
    \<and> (\<exists>d1. (d1 = d \<or> d1 = snd (rd d remit_idx)) \<and> (data, d') = rd d1 i)
    \<and> io_wreq p' = io_wreq p \<and> io_wbudget p' = io_wbudget p \<and> unat (io_rbudget p') + k \<le> 512"
proof -
  obtain b d1 where run: "r = Some (fst (rd d1 i),
      p\<lparr>io_rbudget := b, io_rreq := 0xffff AND (io_rreq p + 1)\<rparr>, snd (rd d1 i))"
    and d1: "d1 = d \<or> d1 = snd (rd d remit_idx)" and b: "unat b + k \<le> 512"
    using assms(4) by (auto simp: read_done_def)
  let ?p = "p\<lparr>io_rbudget := b, io_rreq := 0xffff AND (io_rreq p + 1)\<rparr>" and ?d = "snd (rd d1 i)"
  have g: "good d" and r: "io_rreq p = 0xffff AND (reads d + of_nat k)"
    using assms(2) by (auto simp: read_lag_def)
  have g1: "good d1" "reads d1 = reads d"
    using d1 g good_rd [OF g] reads_status [OF g] by auto
  have cfg: "reads ?d = reads d1" if "\<not> user_index i"
    using that assms(3) reads_config [OF g1(1)] by (simp add: user_index_def not_le)
  have "read_lag (if user_index i then k else k + 1) (?p, ?d)"
    using good_rd [OF g1(1)] r b g1(2) cfg reads_user [OF g1(1), of i] and_mask_add_one [of "reads d + of_nat k"]
    by (simp add: read_lag_def ac_simps)
  moreover have a: "issued d1 = issued d" "queued d1 \<le> queued d" "written d1 = written d"
    using d1 issued_rd [OF g] queued_rd [OF g] written_rd [OF g] by auto
  have "queued ?d \<le> queued d" by (rule le_trans [OF queued_rd [OF g1(1)] a(2)])
  then have "write_window (?p, ?d)" "written ?d = written d"
    using assms(1) a good_rd [OF g1(1)] issued_rd [OF g1(1)] written_rd [OF g1(1)]
    by (simp_all add: write_window_def)
  moreover have "(fst (rd d1 i), ?d) = rd d1 i" by simp
  ultimately show ?thesis using run d1 b by fastforce
qed

lemma readWord_lag:
  assumes "write_window (p, d)" "read_lag k (p, d)" "k < 512" "in_bar0 (drop_bit 2 addr)"
  shows "\<exists>data p' d'. readWord rd addr (p, d) = Some (data, p', d')
    \<and> read_lag (if user_index (drop_bit 2 addr) then k else k + 1) (p', d')
    \<and> write_window (p', d') \<and> written d' = written d
    \<and> (\<exists>d1. (d1 = d \<or> d1 = snd (rd d remit_idx)) \<and> (data, d') = rd d1 (drop_bit 2 addr))
    \<and> io_wreq p' = io_wreq p \<and> io_wbudget p' = io_wbudget p \<and> unat (io_rbudget p') + k \<le> 512"
  using readWord_allowed [OF assms(2) _ assms(4)] readWord_refill [OF assms(2) _ assms(3,4)]
  by (intro read_done_keeps [OF assms(1,2,4)]) blast

end

text \<open>
  A device whose user logic keeps taking writes: each look at the counter finds fewer
  queued, as long as any are.
\<close>

locale live_flow_device = flow_device +
  assumes progress: "good d \<Longrightarrow> 0 < queued d \<Longrightarrow> queued (snd (rd d wemit_idx)) < queued d"
begin

lemma writeWord_returns:
  assumes "write_window (p, d)" "user_index (drop_bit 2 addr)"
  shows "\<exists>s. writeWord rd wr addr data (p, d) = Some s"
proof (cases "io_wbudget p > 0")
  case True
  then show ?thesis using assms(2) by (simp add: writeWord_def user_index_def)
next
  case False
  let ?P = "\<lambda>(e, d'). good d' \<and> io_wreq p - e = of_nat (queued d') \<and> queued d' \<le> 513
    \<and> issued d' = issued d"
  have b0: "io_wbudget p = 0" using False by (simp add: word_gt_0)
  have w: "good d" "issued d = io_wreq p" "queued d \<le> 513"
    using assms(1) b0 by (auto simp: write_window_def)
  have step: "?P (rd d' wemit_idx)" if "good d'" "issued d' = issued d" "queued d' \<le> 513" for d'
    using that w good_rd [OF that(1), of wemit_idx] issued_rd [OF that(1), of wemit_idx]
      queued_rd [OF that(1), of wemit_idx] wemit_value [OF that(1)]
    by (simp add: case_prod_unfold)
  have "\<exists>t. while_option (\<lambda>(e, d). io_wreq p - e \<ge> IO_QUEUE_SIZE div 2) (\<lambda>(e, d). rd d wemit_idx)
      (rd d wemit_idx) = Some t \<and> ?P t \<and> \<not> (case t of (e, d) \<Rightarrow> io_wreq p - e \<ge> IO_QUEUE_SIZE div 2)"
  proof (rule poll_returns [where f = "\<lambda>(e, d). queued d"])
    show "?P (rd d wemit_idx)" using w by (intro step) simp_all
  next
    fix t assume p: "?P t" and b: "case t of (e, d) \<Rightarrow> io_wreq p - e \<ge> IO_QUEUE_SIZE div 2"
    obtain e d' where t: "t = (e, d')" by (cases t)
    have "queued d' \<noteq> 0"
    proof
      assume "queued d' = 0"
      with p b t show False by (simp add: IO_QUEUE_SIZE_def)
    qed
    then have "queued (snd (rd d' wemit_idx)) < queued d'" using p t progress [of d'] by simp
    moreover have "?P (rd d' wemit_idx)" using p t by (intro step) auto
    ultimately show "?P ((\<lambda>(e, d). rd d wemit_idx) t)
        \<and> (case (\<lambda>(e, d). rd d wemit_idx) t of (e, d) \<Rightarrow> queued d) < (case t of (e, d) \<Rightarrow> queued d)"
      using t by (simp add: case_prod_unfold)
  qed
  then obtain e d1 where "while_option (\<lambda>(e, d). io_wreq p - e \<ge> IO_QUEUE_SIZE div 2)
      (\<lambda>(e, d). rd d wemit_idx) (rd d wemit_idx) = Some (e, d1)" by auto
  then show ?thesis using False assms(2) by (simp add: writeWord_def user_index_def)
qed

end

end
