(* ===== verification/PcieDev.thy ===== *)
theory PcieDev
  imports BdbmPcie PioPort
begin

text \<open>
  The device's end of programmed I/O: the rules \<open>filterStatReadTLP\<close>, \<open>procTLP\<close>, \<open>procIOWrite\<close>
  and the methods \<open>dataReceive\<close>, \<open>dataReq\<close> of \<^verbatim>\<open>src/PcieCtrl.bsv\<close>, at the level of accesses
  to the BAR. The user logic behind it is not fixed, its state is any type \<open>'u\<close>: before each access
  of the host it takes \<open>user_takes\<close> of the queued writes (each changes its state by \<open>user_put\<close>)
  and runs by itself (\<open>user_run\<close>); it answers a read by \<open>user_get\<close>. \<open>userTaken\<close> records the
  writes it took.
\<close>

record 'u pcidev =
  dtick :: nat
  userWriteQ :: "(ioaddr \<times> u32) list"
  userTaken :: "(ioaddr \<times> u32) list"
  userWriteEmit :: u32
  userReadEmit :: u32
  configBuffer :: "ioaddr \<Rightarrow> u32"
  debugCode :: u32
  user_takes :: "nat \<Rightarrow> nat"
  user :: 'u
  user_put :: "ioaddr \<times> u32 \<Rightarrow> 'u \<Rightarrow> 'u"
  user_run :: "nat \<Rightarrow> 'u \<Rightarrow> 'u"
  user_get :: "'u \<Rightarrow> ioaddr \<Rightarrow> u32"

definition dev_advance :: "'u pcidev \<Rightarrow> 'u pcidev" where
  "dev_advance d =
     (let n = min (user_takes d (dtick d)) (length (userWriteQ d))
      in d\<lparr>dtick := dtick d + 1, userTaken := userTaken d @ take n (userWriteQ d),
           userWriteQ := drop n (userWriteQ d), userWriteEmit := userWriteEmit d + of_nat n,
           user := user_run d (dtick d) (fold (user_put d) (take n (userWriteQ d)) (user d))\<rparr>)"

definition dev_write :: "'u pcidev \<Rightarrow> u32 \<Rightarrow> u32 \<Rightarrow> 'u pcidev" where
  "dev_write d i v =
     (let d1 = dev_advance d; a = bar_addr i in
      if a = 0 then d1\<lparr>userWriteEmit := 0, userReadEmit := 0\<rparr>
      else if a < io_userspace_offset
      then d1\<lparr>configBuffer := (configBuffer d1)(drop_bit 2 a := v)\<rparr>
      else d1\<lparr>userWriteQ := userWriteQ d1 @ [(a - io_userspace_offset, v)]\<rparr>)"

definition dev_read :: "'u pcidev \<Rightarrow> u32 \<Rightarrow> u32 \<times> 'u pcidev" where
  "dev_read d i =
     (let d1 = dev_advance d; a = bar_addr i in
      if a = 0 then (0xc001d00d, d1)
      else if a = 4 then (debugCode d1, d1)
      else if a = io_userspace_offset - 8 then (userReadEmit d1, d1)
      else if a = io_userspace_offset - 4 then (userWriteEmit d1, d1)
      else if a < io_userspace_offset then (configBuffer d1 (drop_bit 2 a), d1)
      else (user_get d1 (user d1) (a - io_userspace_offset),
            d1\<lparr>userReadEmit := userReadEmit d1 + 1\<rparr>))"

definition dev_issued :: "'u pcidev \<Rightarrow> u32" where
  "dev_issued d = userWriteEmit d + of_nat (length (userWriteQ d))"

definition dev_queued :: "'u pcidev \<Rightarrow> nat" where
  "dev_queued d = length (userWriteQ d)"

definition dev_written :: "'u pcidev \<Rightarrow> (ioaddr \<times> u32) list" where
  "dev_written d = userTaken d @ userWriteQ d"

text \<open>User logic that takes at least one waiting write between two accesses.\<close>

definition dev_live :: "'u pcidev \<Rightarrow> bool" where
  "dev_live d \<longleftrightarrow> (\<forall>t. 0 < user_takes d t)"

lemmas dev_views = dev_issued_def dev_queued_def dev_written_def

lemma advance_views [simp]:
  "dev_issued (dev_advance d) = dev_issued d" "dev_written (dev_advance d) = dev_written d"
  "userReadEmit (dev_advance d) = userReadEmit d" "user_takes (dev_advance d) = user_takes d"
  by (simp_all add: dev_views dev_advance_def Let_def flip: of_nat_add)

lemma advance_queued: "dev_queued (dev_advance d) = dev_queued d - user_takes d (dtick d)"
  by (simp add: dev_queued_def dev_advance_def Let_def min_def)

lemma unat_bar_addr:
  assumes "in_bar0 i"
  shows "unat (bar_addr i) = 4 * unat i"
proof -
  have lt: "4 * unat i < 2 ^ 20" using assms by (simp add: in_bar0_def BAR0_SIZE_def)
  then have "unat (4 * i) = 4 * unat i" by (simp add: unat_word_ariths)
  with lt show ?thesis by (simp add: bar_addr_def unat_ucast_small)
qed

lemma bar_addr_status:
  "bar_addr wemit_idx = io_userspace_offset - 4" "bar_addr remit_idx = io_userspace_offset - 8"
  by (simp_all add: bar_addr_def wemit_idx_def remit_idx_def io_userspace_offset_def
      CONFIG_BUFFER_ISIZE_def CONFIG_BUFFER_SIZE_def)

lemma user_index_addr:
  assumes "user_index i"
  shows "io_userspace_offset \<le> bar_addr i"
proof -
  have "4096 \<le> unat i"
    using assms by (simp add: user_index_def CONFIG_BUFFER_ISIZE_def CONFIG_BUFFER_SIZE_def word_le_nat_alt)
  then show ?thesis
    using unat_bar_addr [of i] assms
    by (simp add: word_le_nat_alt user_index_def io_userspace_offset_def)
qed

lemma dev_write_user:
  assumes "user_index i"
  shows "dev_write d i v = (dev_advance d)\<lparr>userWriteQ := userWriteQ (dev_advance d) @
    [(bar_addr i - io_userspace_offset, v)]\<rparr>"
  using user_index_addr [OF assms]
  by (auto simp: dev_write_def Let_def io_userspace_offset_def)

lemma dev_read_views [simp]:
  "dev_issued (snd (dev_read d i)) = dev_issued d" "dev_written (snd (dev_read d i)) = dev_written d"
  "dev_queued (snd (dev_read d i)) = dev_queued d - user_takes d (dtick d)"
  "user_takes (snd (dev_read d i)) = user_takes d"
  using advance_views [of d] advance_queued [of d]
  by (auto simp: dev_read_def Let_def dev_views)

lemma dev_read_user:
  assumes "user_index i"
  shows "userReadEmit (snd (dev_read d i)) = userReadEmit d + 1"
    and "fst (dev_read d i) = user_get d (user (dev_advance d)) (bar_addr i - io_userspace_offset)"
proof -
  have "bar_addr i \<noteq> 0" "bar_addr i \<noteq> 4" "bar_addr i \<noteq> io_userspace_offset - 8"
    "bar_addr i \<noteq> io_userspace_offset - 4" "\<not> bar_addr i < io_userspace_offset"
    using user_index_addr [OF assms] by (auto simp: io_userspace_offset_def)
  then show "userReadEmit (snd (dev_read d i)) = userReadEmit d + 1"
    and "fst (dev_read d i) = user_get d (user (dev_advance d)) (bar_addr i - io_userspace_offset)"
    by (simp_all add: dev_read_def Let_def) (simp add: dev_advance_def Let_def)
qed

lemma dev_read_status:
  "dev_read d wemit_idx = (userWriteEmit (dev_advance d), dev_advance d)"
  "dev_read d remit_idx = (userReadEmit d, dev_advance d)"
  by (simp_all add: dev_read_def bar_addr_status Let_def io_userspace_offset_def)

lemma config_index_addr:
  assumes "i < CONFIG_BUFFER_ISIZE"
  shows "in_bar0 i" "bar_addr i < io_userspace_offset" "\<not> user_index i"
proof -
  have i: "unat i < 4096"
    using assms by (simp add: CONFIG_BUFFER_ISIZE_def CONFIG_BUFFER_SIZE_def word_less_nat_alt)
  then show b: "in_bar0 i" by (simp add: in_bar0_def BAR0_SIZE_def)
  show "bar_addr i < io_userspace_offset"
    using unat_bar_addr [OF b] i by (simp add: word_less_nat_alt io_userspace_offset_def)
  show "\<not> user_index i" using assms by (simp add: user_index_def not_le)
qed

lemma dev_read_config:
  "i < CONFIG_BUFFER_ISIZE \<Longrightarrow> userReadEmit (snd (dev_read d i)) = userReadEmit d"
  using config_index_addr [of i] by (simp add: dev_read_def Let_def)

lemma dev_write_user_takes [simp]: "user_takes (dev_write d i v) = user_takes d"
  using advance_views(4) [of d] by (simp add: dev_write_def Let_def)

interpretation dev: flow_device "dev_read :: 'u pcidev \<Rightarrow> u32 \<Rightarrow> u32 \<times> 'u pcidev" dev_write "\<lambda>_. True" dev_issued dev_queued dev_written userReadEmit
proof unfold_locales
  fix d :: "'u pcidev" and i v :: u32
  assume u: "user_index i"
  show "dev_issued (dev_write d i v) = dev_issued d + 1"
    using advance_views(1) [of d] by (simp add: dev_write_user [OF u] dev_issued_def)
  show "dev_queued (dev_write d i v) \<le> dev_queued d + 1"
    using advance_queued [of d] by (simp add: dev_write_user [OF u] dev_queued_def)
  show "dev_written (dev_write d i v) = dev_written d @ [(bar_addr i - io_userspace_offset, v)]"
    using advance_views(2) [of d] by (simp add: dev_write_user [OF u] dev_written_def)
  show "userReadEmit (dev_write d i v) = userReadEmit d"
    by (simp add: dev_write_user [OF u])
next
  fix d :: "'u pcidev"
  show "fst (dev_read d wemit_idx) = dev_issued d - of_nat (dev_queued (snd (dev_read d wemit_idx)))"
    using advance_views(1) [of d] by (simp add: dev_read_status dev_issued_def dev_queued_def eq_diff_eq)
qed (auto simp: dev_read_user dev_read_status dev_read_config)

interpretation dev_live: live_flow_device "dev_read :: 'u pcidev \<Rightarrow> u32 \<Rightarrow> u32 \<times> 'u pcidev" dev_write dev_live dev_issued dev_queued dev_written userReadEmit
proof unfold_locales
  fix d assume "dev_live d" "0 < dev_queued d"
  then show "dev_queued (snd (dev_read d wemit_idx)) < dev_queued d" by (simp add: dev_live_def)
qed (simp_all add: dev_live_def dev.issued_wr dev.issued_rd dev.queued_wr [simplified] dev.queued_rd dev.wemit_value
    dev.written_wr dev.written_rd dev.reads_user dev.reads_config dev.remit_value dev.reads_wr)

subsection \<open>A port for the libraries above\<close>

lemma user_word_index:
  assumes "user_word addr"
  shows "user_index (drop_bit 2 (addr + CONFIG_BUFFER_SIZE))"
    and "bar_addr (drop_bit 2 (addr + CONFIG_BUFFER_SIZE)) - io_userspace_offset = ucast addr"
proof -
  let ?i = "drop_bit 2 (addr + CONFIG_BUFFER_SIZE)"
  have a: "unat addr < 2 ^ 20 - 2 ^ 14" "unat addr mod 4 = 0" using assms by (simp_all add: user_word_def)
  have u: "unat (addr + CONFIG_BUFFER_SIZE) = unat addr + 2 ^ 14"
    using a(1) by (subst unat_add_lem [THEN iffD1]) (simp_all add: CONFIG_BUFFER_SIZE_def)
  have i: "4 * unat ?i = unat addr + 2 ^ 14"
    unfolding unat_drop_bit u using a(2) by simp presburger
  show idx: "user_index ?i"
    using i a by (simp add: user_index_def in_bar0_def BAR0_SIZE_def CONFIG_BUFFER_ISIZE_def
        CONFIG_BUFFER_SIZE_def word_le_nat_alt) presburger
  have "unat (bar_addr ?i) = unat addr + 2 ^ 14"
    using unat_bar_addr [of ?i] idx i by (simp add: user_index_def)
  then have "unat (bar_addr ?i - io_userspace_offset) = unat addr"
    by (simp add: unat_sub word_le_nat_alt io_userspace_offset_def)
  then show "bar_addr ?i - io_userspace_offset = ucast addr"
    using a(1) by (simp add: word_unat_eq_iff unat_ucast_small)
qed

text \<open>
  Both windows are open, with room for \<open>n\<close> more reads of the configuration space: each of
  them makes \<open>io_rreq\<close> run one further ahead of the device's count.
\<close>

definition pcie_room :: "nat \<Rightarrow> bdbm \<times> 'u pcidev \<Rightarrow> bool" where
  "pcie_room n s \<longleftrightarrow> dev_live.write_window s \<and> (\<exists>k. k + n < 512 \<and> dev_live.read_lag k s)"

definition pcie_good :: "bdbm \<times> 'u pcidev \<Rightarrow> bool" where
  "pcie_good = pcie_room 0"

lemma pcie_room_user [simp]: "pcie_room n (p, d\<lparr>user := u\<rparr>) = pcie_room n (p, d)"
  by (simp add: pcie_room_def dev_live.write_window_def dev_live.read_lag_def dev_live_def dev_views)

lemma pcie_room_mono: "pcie_room n s \<Longrightarrow> m \<le> n \<Longrightarrow> pcie_room m s"
  unfolding pcie_room_def by (meson add_left_mono le_less_trans)

lemma pcie_room_less: "pcie_room (Suc n) s \<Longrightarrow> pcie_room n s"
  by (erule pcie_room_mono) simp

lemma pcie_room_write:
  fixes s :: "bdbm \<times> 'u pcidev"
  assumes g: "pcie_room n s" and a: "user_word a"
  shows "\<exists>s'. userWriteWord dev_read dev_write a d s = Some s' \<and> pcie_room n s'
    \<and> dev_written (snd s') = dev_written (snd s) @ [(ucast a, d)]"
proof -
  obtain p dv where s: "s = (p, dv)" by (cases s)
  note ui = user_word_index [OF a]
  obtain k where w: "dev_live.write_window (p, dv)" and k: "k + n < 512" "dev_live.read_lag k (p, dv)"
    using g s by (auto simp: pcie_room_def)
  obtain p' d' where r: "writeWord dev_read dev_write (a + CONFIG_BUFFER_SIZE) d (p, dv) = Some (p', d')"
    using dev_live.writeWord_returns [OF w ui(1), of d] by auto
  note kw = dev_live.writeWord_keeps_window [OF w ui(1) r]
  then have "dev_live.read_lag k (p', d')"
    using k(2) by (simp add: dev_live.read_lag_def dev_live.write_window_def)
  then show ?thesis using kw ui(2) k(1) r by (auto simp: userWriteWord_def s pcie_room_def)
qed

lemma pcie_room_read:
  fixes s :: "bdbm \<times> 'u pcidev"
  assumes g: "pcie_room n s" and a: "user_word a"
  shows "\<exists>x s'. userReadWord dev_read a s = Some (x, s') \<and> pcie_room n s'
    \<and> dev_written (snd s') = dev_written (snd s)"
proof -
  obtain p dv where s: "s = (p, dv)" by (cases s)
  note ui = user_word_index [OF a]
  obtain k where w: "dev_live.write_window (p, dv)" and k: "k + n < 512" "dev_live.read_lag k (p, dv)"
    using g s by (auto simp: pcie_room_def)
  have "in_bar0 (drop_bit 2 (a + CONFIG_BUFFER_SIZE))" using ui(1) by (simp add: user_index_def)
  from dev_live.readWord_lag [OF w k(2) _ this] k(1) ui(1)
  show ?thesis by (auto simp: userReadWord_def s pcie_room_def)
qed

lemma config_index:
  assumes "addr < CONFIG_BUFFER_SIZE"
  shows "drop_bit 2 addr < CONFIG_BUFFER_ISIZE"
    "4 \<le> addr \<Longrightarrow> bar_addr (drop_bit 2 addr) \<noteq> 0"
proof -
  have "unat addr < 16384"
    using assms by (simp add: CONFIG_BUFFER_SIZE_def word_less_nat_alt)
  then have "unat addr div 4 < 4096" by simp
  then show i: "drop_bit 2 addr < CONFIG_BUFFER_ISIZE"
    by (simp add: word_less_nat_alt unat_drop_bit CONFIG_BUFFER_ISIZE_def CONFIG_BUFFER_SIZE_def)
  show "bar_addr (drop_bit 2 addr) \<noteq> 0" if "4 \<le> addr"
  proof -
    have "4 \<le> unat addr" using that by (simp add: word_le_nat_alt)
    then have "unat (bar_addr (drop_bit 2 addr)) \<noteq> 0"
      unfolding unat_bar_addr [OF config_index_addr(1) [OF i]] unat_drop_bit by simp
    then show ?thesis by auto
  qed
qed

lemma pcie_room_config:
  fixes s :: "bdbm \<times> 'u pcidev"
  assumes g: "pcie_room (Suc n) s" and a: "a < CONFIG_BUFFER_SIZE"
  shows "\<exists>x s'. readWord dev_read a s = Some (x, s') \<and> pcie_room n s'
    \<and> dev_written (snd s') = dev_written (snd s) \<and> (drop_bit 2 a = 0 \<longrightarrow> x = 0xc001d00d)"
proof -
  obtain p dv where s: "s = (p, dv)" by (cases s)
  note ci = config_index_addr [OF config_index(1) [OF a]]
  obtain k where w: "dev_live.write_window (p, dv)" and k: "k + Suc n < 512" "dev_live.read_lag k (p, dv)"
    using g s by (auto simp: pcie_room_def)
  obtain x p' d' where r: "readWord dev_read a (p, dv) = Some (x, p', d')"
    "dev_live.read_lag (k + 1) (p', d')" "dev_live.write_window (p', d')" "dev_written d' = dev_written dv"
    and rd: "\<exists>d1. (x, d') = dev_read d1 (drop_bit 2 a)"
    using dev_live.readWord_lag [OF w k(2) _ ci(1)] k(1) ci(3) by auto
  have "pcie_room n (p', d')" using r(2,3) k(1) by (auto simp: pcie_room_def intro: exI [of _ "k + 1"])
  moreover have "x = 0xc001d00d" if "drop_bit 2 a = 0"
    using rd that by (auto simp: dev_read_def bar_addr_def Let_def)
  ultimately show ?thesis using r(1,4) s by auto
qed

interpretation pcie_port: pio_port "userWriteWord dev_read dev_write" "userReadWord dev_read"
  "pcie_good :: bdbm \<times> 'u pcidev \<Rightarrow> bool"
  "\<lambda>s. dev_written (snd s)" "\<lambda>w l. l @ [w]" "\<lambda>_ _ _. True"
  by unfold_locales (simp_all add: pcie_good_def pcie_room_write pcie_room_read del: split_paired_Ex)

interpretation pcie_words: word_port "userWriteWord dev_read dev_write" "userReadWord dev_read" pcie_good
  "\<lambda>s. dev_written (snd s)" "\<lambda>w l. l @ [w]" "\<lambda>_ _ _. True" "writeWord dev_read dev_write"
  by unfold_locales (simp add: userWriteWord_def)

text \<open>\<open>Init_Pcie\<close> opens both windows when the device has no user write waiting.\<close>

lemma init_views:
  assumes "userWriteQ d = []"
  shows "dev_issued (dev_write d 0 0) = 0" "dev_queued (dev_write d 0 0) = 0"
    "userReadEmit (dev_write d 0 0) = 0" "dev_written (dev_write d 0 0) = dev_written d"
  using assms by (simp_all add: dev_write_def bar_addr_def Let_def dev_views dev_advance_def)

lemma Init_Pcie_room:
  assumes "userWriteQ d = []" "dev_live d"
  shows "pcie_room 511 (Init_Pcie dev_write d)" "dev_written (snd (Init_Pcie dev_write d)) = dev_written d"
  using init_views [OF assms(1)] assms(2)
  by (auto simp: Init_Pcie_def pcie_room_def dev_live.write_window_def dev_live.read_lag_def dev_live_def)

lemma Init_Pcie_good:
  assumes "userWriteQ d = []" "dev_live d"
  shows "pcie_good (Init_Pcie dev_write d)" "dev_written (snd (Init_Pcie dev_write d)) = dev_written d"
  using Init_Pcie_room [OF assms] pcie_room_mono [of 511 _ 0] by (simp_all add: pcie_good_def)

end
