(* ===== verification/PcieLeak.thy ===== *)
theory PcieLeak
  imports PcieDev
begin

text \<open>
  What the windows count. \<open>writeWord\<close> and \<open>readWord\<close> count every access, the device counts
  only those above the configuration space, so an access below it is never reported as
  done and its place in the window is lost until the next \<open>Init_Pcie\<close>.
\<close>

definition config_addr :: "u32 \<Rightarrow> bool" where
  "config_addr addr \<longleftrightarrow> 4 \<le> addr \<and> addr < CONFIG_BUFFER_SIZE"

fun write_words :: "(u32 \<times> u32) list \<Rightarrow> bdbm \<times> 'u pcidev \<Rightarrow> (bdbm \<times> 'u pcidev) option" where
  "write_words [] s = Some s"
| "write_words ((a, v) # ws) s =
     (case writeWord dev_read dev_write a v s of None \<Rightarrow> None | Some s1 \<Rightarrow> write_words ws s1)"

fun read_words :: "u32 list \<Rightarrow> bdbm \<times> 'u pcidev \<Rightarrow> (u32 list \<times> bdbm \<times> 'u pcidev) option" where
  "read_words [] s = Some ([], s)"
| "read_words (a # as) s =
     (case readWord dev_read a s of None \<Rightarrow> None
      | Some (v, s1) \<Rightarrow>
          (case read_words as s1 of None \<Rightarrow> None | Some (vs, s2) \<Rightarrow> Some (v # vs, s2)))"

text \<open>A device with nothing to do: it holds no write and has completed none.\<close>

definition dev_idle :: "'u pcidev \<Rightarrow> bool" where
  "dev_idle d \<longleftrightarrow> userWriteQ d = [] \<and> userWriteEmit d = 0 \<and> userReadEmit d = 0"

lemma dev_idle_advance: "dev_idle d \<Longrightarrow> dev_idle (dev_advance d)"
  by (simp add: dev_idle_def dev_advance_def Let_def)

lemma config_access:
  assumes "addr < CONFIG_BUFFER_SIZE"
  shows "in_bar0 (drop_bit 2 addr)" "bar_addr (drop_bit 2 addr) < io_userspace_offset"
    "4 \<le> addr \<Longrightarrow> bar_addr (drop_bit 2 addr) \<noteq> 0"
  using config_index_addr [OF config_index(1) [OF assms]] config_index(2) [OF assms] by blast+

lemma dev_idle_config_write:
  assumes "dev_idle d" "config_addr addr"
  shows "dev_idle (dev_write d (drop_bit 2 addr) v)"
  using dev_idle_advance [OF assms(1)] config_access [of addr] assms(2)
  by (simp add: dev_write_def Let_def config_addr_def dev_idle_def)

lemma dev_idle_config_read:
  assumes "dev_idle d" "addr < CONFIG_BUFFER_SIZE"
  shows "dev_idle (snd (dev_read d (drop_bit 2 addr)))"
  using dev_idle_advance [OF assms(1)] config_access [OF assms(2)]
  by (simp add: dev_read_def Let_def)

lemma dev_idle_status:
  "dev_idle d \<Longrightarrow> fst (dev_read d wemit_idx) = 0 \<and> dev_idle (snd (dev_read d wemit_idx))"
  "dev_idle d \<Longrightarrow> fst (dev_read d remit_idx) = 0 \<and> dev_idle (snd (dev_read d remit_idx))"
  using dev_idle_advance [of d] by (auto simp: dev_read_status dev_idle_def)

lemma Init_Pcie_idle:
  "userWriteQ d = [] \<Longrightarrow> \<exists>d'. Init_Pcie dev_write d =
    (\<lparr>io_wreq = 0, io_rreq = 0, io_wbudget = 0, io_rbudget = 0\<rparr>, d') \<and> dev_idle d'"
  by (simp add: Init_Pcie_def dev_idle_def dev_write_def bar_addr_def Let_def dev_advance_def)

subsection \<open>Writes\<close>

lemma write_words_budget:
  assumes "dev_idle d" "list_all (config_addr \<circ> fst) ws" "length ws \<le> unat (io_wbudget p)"
  shows "\<exists>d'. write_words ws (p, d) = Some (p\<lparr>io_wbudget := io_wbudget p - of_nat (length ws)\<rparr>, d') \<and> dev_idle d'"
  using assms
proof (induction ws arbitrary: p d)
  case Nil
  then show ?case by simp
next
  case (Cons w ws)
  obtain a v where w: "w = (a, v)" by (cases w)
  have c: "config_addr a" using Cons.prems(2) w by simp
  have pos: "io_wbudget p > 0" using Cons.prems(3) by (cases "io_wbudget p = 0") (simp_all add: word_gt_0)
  let ?p = "p\<lparr>io_wbudget := io_wbudget p - 1\<rparr>" and ?d = "dev_write d (drop_bit 2 a) v"
  have step: "writeWord dev_read dev_write a v (p, d) = Some (?p, ?d)"
    using pos config_access(1) [of a] c by (simp add: writeWord_def config_addr_def)
  have "unat (io_wbudget p - 1) = unat (io_wbudget p) - 1" using pos by (auto simp: unat_minus_one)
  then have "\<exists>d'. write_words ws (?p, ?d) = Some (?p\<lparr>io_wbudget := io_wbudget ?p - of_nat (length ws)\<rparr>, d') \<and> dev_idle d'"
    using Cons.prems dev_idle_config_write [OF Cons.prems(1) c] by (intro Cons.IH) simp_all
  then show ?case using step w by (auto simp: algebra_simps)
qed

lemma writeWord_stuck:
  assumes "dev_idle d" "io_wbudget p = 0" "io_wreq p \<ge> 256"
  shows "writeWord dev_read dev_write a v (p, d) = None"
proof -
  have "while_option (\<lambda>(e, d). io_wreq p - e \<ge> IO_QUEUE_SIZE div 2) (\<lambda>(e, d). dev_read d wemit_idx)
      (dev_read d wemit_idx) = None"
    using assms dev_idle_status(1)
    by (intro poll_stuck [where P = "\<lambda>(e, d). e = 0 \<and> dev_idle d"])
      (auto simp: IO_QUEUE_SIZE_def case_prod_unfold)
  then show ?thesis using assms(2) by (simp add: writeWord_def)
qed

lemma config_writes_exhaust:
  assumes "userWriteQ d = []" "list_all (config_addr \<circ> fst) ws" "length ws = 513"
  shows "\<exists>s. write_words ws (Init_Pcie dev_write d) = Some s \<and> writeWord dev_read dev_write a v s = None"
proof -
  obtain w ws' where ws: "ws = w # ws'" "length ws' = 512" using assms(3) by (cases ws) auto
  obtain a1 v1 where w: "w = (a1, v1)" by (cases w)
  have c: "config_addr a1" "list_all (config_addr \<circ> fst) ws'" using assms(2) ws w by simp_all
  obtain d1 where d1: "Init_Pcie dev_write d =
      (\<lparr>io_wreq = 0, io_rreq = 0, io_wbudget = 0, io_rbudget = 0\<rparr>, d1)" "dev_idle d1"
    using Init_Pcie_idle [OF assms(1)] by blast
  let ?p = "\<lparr>io_wreq = 513, io_rreq = 0, io_wbudget = 512, io_rbudget = 0\<rparr>"
  let ?d = "dev_write (snd (dev_read d1 wemit_idx)) (drop_bit 2 a1) v1"
  note e = dev_idle_status(1) [OF d1(2)]
  then obtain d2 where d2: "dev_read d1 wemit_idx = (0, d2)" "dev_idle d2"
    by (cases "dev_read d1 wemit_idx") auto
  have "writeWord dev_read dev_write a1 v1 (Init_Pcie dev_write d) = Some (?p, ?d)"
    using config_access(1) [of a1] c(1) d2 unfolding d1(1)
    by (simp add: writeWord_def config_addr_def poll_at_once IO_QUEUE_SIZE_def)
  moreover obtain d' where "write_words ws' (?p, ?d) =
      Some (?p\<lparr>io_wbudget := io_wbudget ?p - of_nat (length ws')\<rparr>, d')" and d': "dev_idle d'"
    using write_words_budget [of ?d ws' ?p] dev_idle_config_write [OF _ c(1)] e c(2) ws(2) by auto
  moreover have "writeWord dev_read dev_write a v (?p\<lparr>io_wbudget := 0\<rparr>, d') = None"
    by (rule writeWord_stuck [OF d']) simp_all
  ultimately show ?thesis using ws w by simp
qed

subsection \<open>Reads\<close>

lemma readWord_budget:
  assumes "in_bar0 (drop_bit 2 a)" "io_rbudget p > 0"
  shows "readWord dev_read a (p, d) = Some (fst (dev_read d (drop_bit 2 a)),
    p\<lparr>io_rreq := 0xffff AND (io_rreq p + 1), io_rbudget := io_rbudget p - 1\<rparr>,
    snd (dev_read d (drop_bit 2 a)))"
  using assms by (simp add: readWord_def case_prod_unfold Let_def)

lemma read_words_budget:
  assumes "dev_idle d" "list_all (\<lambda>a. a < CONFIG_BUFFER_SIZE) as" "length as \<le> unat (io_rbudget p)"
    and "unat (io_rreq p) + length as < 2 ^ 16"
  shows "\<exists>vs p' d'. read_words as (p, d) = Some (vs, p', d') \<and> dev_idle d'
    \<and> unat (io_rreq p') = unat (io_rreq p) + length as
    \<and> unat (io_rbudget p') = unat (io_rbudget p) - length as"
  using assms
proof (induction as arbitrary: p d)
  case Nil
  then show ?case by auto
next
  case (Cons a as)
  have c: "a < CONFIG_BUFFER_SIZE" using Cons.prems(2) by simp
  have pos: "io_rbudget p > 0" using Cons.prems(3) by (cases "io_rbudget p = 0") (simp_all add: word_gt_0)
  let ?p = "p\<lparr>io_rreq := 0xffff AND (io_rreq p + 1), io_rbudget := io_rbudget p - 1\<rparr>"
  let ?d = "snd (dev_read d (drop_bit 2 a))"
  have b: "unat (io_rbudget p - 1) = unat (io_rbudget p) - 1" using pos by (auto simp: unat_minus_one)
  have r: "unat (0xffff AND (io_rreq p + 1)) = unat (io_rreq p) + 1"
    using Cons.prems(4) unat_add_one_small [of "io_rreq p"] by (simp add: unat_and_ffff)
  have "\<exists>vs p' d'. read_words as (?p, ?d) = Some (vs, p', d') \<and> dev_idle d'
      \<and> unat (io_rreq p') = unat (io_rreq ?p) + length as
      \<and> unat (io_rbudget p') = unat (io_rbudget ?p) - length as"
    using Cons.prems b r dev_idle_config_read [OF Cons.prems(1) c] by (intro Cons.IH) simp_all
  then show ?case
    using readWord_budget [OF config_access(1) [OF c] pos, of d] b r by auto
qed

lemma readWord_stuck:
  assumes "dev_idle d" "io_rbudget p = 0" "io_rreq p \<ge> 512"
  shows "readWord dev_read a (p, d) = None"
proof -
  obtain d0 where d0: "dev_read d remit_idx = (0, d0)" "dev_idle d0"
    using dev_idle_status(2) [OF assms(1)] by (cases "dev_read d remit_idx") auto
  have "while_option (\<lambda>(e, d). io_rreq p \<ge> e + IO_QUEUE_SIZE)
      (\<lambda>(e, d). let (e, d1) = dev_read d remit_idx in (e AND 0xffff, d1)) (0, d0) = None"
  proof (rule poll_stuck [where P = "\<lambda>(e, d). e = 0 \<and> dev_idle d"])
    show "case (0, d0) of (e, d) \<Rightarrow> e = 0 \<and> dev_idle d" using d0(2) by simp
  next
    fix s :: "u32 \<times> 'a pcidev"
    assume "case s of (e, d) \<Rightarrow> e = 0 \<and> dev_idle d"
    then obtain x where s: "s = (0, x)" and x: "dev_idle x" by (cases s) auto
    obtain y where y: "dev_read x remit_idx = (0, y)" "dev_idle y"
      using dev_idle_status(2) [OF x] by (cases "dev_read x remit_idx") auto
    show "(case s of (e, d) \<Rightarrow> io_rreq p \<ge> e + IO_QUEUE_SIZE) \<and>
        (case (case s of (e, d) \<Rightarrow> let (e, d1) = dev_read d remit_idx in (e AND 0xffff, d1)) of
           (e, d) \<Rightarrow> e = 0 \<and> dev_idle d)"
      using assms(3) s y by (simp add: IO_QUEUE_SIZE_def)
  qed
  then show ?thesis using assms(2) d0 by (simp add: readWord_def Let_def)
qed

lemma config_reads_exhaust:
  assumes "userWriteQ d = []" "list_all (\<lambda>a. a < CONFIG_BUFFER_SIZE) as" "length as = 513"
  shows "\<exists>vs s. read_words as (Init_Pcie dev_write d) = Some (vs, s) \<and> readWord dev_read a s = None"
proof -
  obtain a1 as' where as: "as = a1 # as'" "length as' = 512" using assms(3) by (cases as) auto
  have c: "a1 < CONFIG_BUFFER_SIZE" "list_all (\<lambda>a. a < CONFIG_BUFFER_SIZE) as'" using assms(2) as by simp_all
  obtain d1 where d1: "Init_Pcie dev_write d =
      (\<lparr>io_wreq = 0, io_rreq = 0, io_wbudget = 0, io_rbudget = 0\<rparr>, d1)" "dev_idle d1"
    using Init_Pcie_idle [OF assms(1)] by blast
  obtain d2 where d2: "dev_read d1 remit_idx = (0, d2)" "dev_idle d2"
    using dev_idle_status(2) [OF d1(2)] by (cases "dev_read d1 remit_idx") auto
  let ?p = "\<lparr>io_wreq = 0, io_rreq = 1, io_wbudget = 0, io_rbudget = 512\<rparr>"
  let ?d = "snd (dev_read d2 (drop_bit 2 a1))"
  have first: "readWord dev_read a1 (Init_Pcie dev_write d) = Some (fst (dev_read d2 (drop_bit 2 a1)), ?p, ?d)"
    using config_access(1) [OF c(1)] d2 unfolding d1(1)
    by (simp add: readWord_def poll_at_once IO_QUEUE_SIZE_def case_prod_unfold Let_def)
  obtain vs p' d' where rest: "read_words as' (?p, ?d) = Some (vs, p', d')" "dev_idle d'"
    "unat (io_rreq p') = 513" "unat (io_rbudget p') = 0"
    using read_words_budget [of ?d as' ?p] dev_idle_config_read [OF d2(2) c(1)] c(2) as(2) by auto
  have "io_rbudget p' = 0" "io_rreq p' \<ge> 512"
    using rest(3,4) by (simp_all add: unat_eq_0 word_le_nat_alt)
  then have "readWord dev_read a (p', d') = None" by (rule readWord_stuck [OF rest(2)])
  then show ?thesis using first rest(1) as by auto
qed

subsection \<open>User logic that takes nothing\<close>

definition dev_stalled :: "'u pcidev \<Rightarrow> bool" where
  "dev_stalled d \<longleftrightarrow> (\<forall>t. user_takes d t = 0) \<and> userWriteEmit d = 0"

lemma stalled_advance:
  "dev_stalled d \<Longrightarrow> dev_stalled (dev_advance d) \<and> userWriteQ (dev_advance d) = userWriteQ d"
  by (simp add: dev_stalled_def dev_advance_def Let_def)

lemma stalled_write:
  assumes "dev_stalled d" "user_word a"
  shows "dev_stalled (dev_write d (drop_bit 2 (a + CONFIG_BUFFER_SIZE)) v)"
    "dev_queued (dev_write d (drop_bit 2 (a + CONFIG_BUFFER_SIZE)) v) = dev_queued d + 1"
  using stalled_advance [OF assms(1)]
  by (simp_all add: dev_write_user [OF user_word_index(1) [OF assms(2)]] dev_stalled_def dev_queued_def)

lemma stalled_status:
  assumes "dev_stalled d"
  shows "fst (dev_read d wemit_idx) = 0" "dev_stalled (snd (dev_read d wemit_idx))"
    "dev_queued (snd (dev_read d wemit_idx)) = dev_queued d"
  using stalled_advance [OF assms] by (auto simp: dev_read_status dev_stalled_def dev_queued_def)

fun user_writes :: "(u32 \<times> u32) list \<Rightarrow> bdbm \<times> 'u pcidev \<Rightarrow> (bdbm \<times> 'u pcidev) option" where
  "user_writes [] s = Some s"
| "user_writes ((a, v) # ws) s =
     (case userWriteWord dev_read dev_write a v s of None \<Rightarrow> None | Some s1 \<Rightarrow> user_writes ws s1)"

lemma user_writes_budget:
  assumes "dev_stalled d" "list_all (user_word \<circ> fst) ws" "length ws \<le> unat (io_wbudget p)"
  shows "\<exists>d'. user_writes ws (p, d) = Some (p\<lparr>io_wbudget := io_wbudget p - of_nat (length ws)\<rparr>, d')
    \<and> dev_stalled d' \<and> dev_queued d' = dev_queued d + length ws"
  using assms
proof (induction ws arbitrary: p d)
  case Nil
  then show ?case by simp
next
  case (Cons w ws)
  obtain a v where w: "w = (a, v)" by (cases w)
  have c: "user_word a" using Cons.prems(2) w by simp
  have pos: "io_wbudget p > 0" using Cons.prems(3) by (cases "io_wbudget p = 0") (simp_all add: word_gt_0)
  let ?p = "p\<lparr>io_wbudget := io_wbudget p - 1\<rparr>"
  let ?d = "dev_write d (drop_bit 2 (a + CONFIG_BUFFER_SIZE)) v"
  note sw = stalled_write [OF Cons.prems(1) c, of v]
  have step: "userWriteWord dev_read dev_write a v (p, d) = Some (?p, ?d)"
    using pos user_word_index(1) [OF c] by (simp add: userWriteWord_def writeWord_def user_index_def)
  have "unat (io_wbudget p - 1) = unat (io_wbudget p) - 1" using pos by (auto simp: unat_minus_one)
  then have "\<exists>d'. user_writes ws (?p, ?d) = Some (?p\<lparr>io_wbudget := io_wbudget ?p - of_nat (length ws)\<rparr>, d')
      \<and> dev_stalled d' \<and> dev_queued d' = dev_queued ?d + length ws"
    using Cons.prems sw(1) by (intro Cons.IH) simp_all
  then show ?case using step w sw(2) by (auto simp: algebra_simps)
qed

lemma stalled_capacity:
  assumes "userWriteQ d = []" "\<forall>t. user_takes d t = 0"
    and "list_all (user_word \<circ> fst) ws" "length ws = 513" "user_word a"
  shows "\<exists>p' d'. user_writes ws (Init_Pcie dev_write d) = Some (p', d') \<and> dev_queued d' = 513
    \<and> userWriteWord dev_read dev_write a v (p', d') = None"
proof -
  obtain w ws' where ws: "ws = w # ws'" "length ws' = 512" using assms(4) by (cases ws) auto
  obtain a1 v1 where w: "w = (a1, v1)" by (cases w)
  have c: "user_word a1" "list_all (user_word \<circ> fst) ws'" using assms(3) ws w by simp_all
  let ?d1 = "dev_write d 0 0"
  have i: "Init_Pcie dev_write d = (\<lparr>io_wreq = 0, io_rreq = 0, io_wbudget = 0, io_rbudget = 0\<rparr>, ?d1)"
    by (simp add: Init_Pcie_def)
  have st: "dev_stalled ?d1" "dev_queued ?d1 = 0"
    using assms(1,2) by (simp_all add: dev_stalled_def dev_queued_def dev_write_def bar_addr_def
        Let_def dev_advance_def)
  let ?p = "\<lparr>io_wreq = 513, io_rreq = 0, io_wbudget = 512, io_rbudget = 0\<rparr>"
  obtain d2 where rd: "dev_read ?d1 wemit_idx = (0, d2)" and e: "dev_stalled d2" "dev_queued d2 = 0"
    using stalled_status [OF st(1)] st(2) by (cases "dev_read ?d1 wemit_idx") auto
  let ?d3 = "dev_write d2 (drop_bit 2 (a1 + CONFIG_BUFFER_SIZE)) v1"
  note sw = stalled_write [OF e(1) c(1), of v1]
  have "userWriteWord dev_read dev_write a1 v1 (Init_Pcie dev_write d) = Some (?p, ?d3)"
    using user_word_index(1) [OF c(1)] unfolding i
    by (simp add: userWriteWord_def writeWord_def rd user_index_def poll_at_once IO_QUEUE_SIZE_def)
  moreover obtain d' where "user_writes ws' (?p, ?d3) =
      Some (?p\<lparr>io_wbudget := io_wbudget ?p - of_nat (length ws')\<rparr>, d')"
    and d': "dev_stalled d'" "dev_queued d' = 513"
    using user_writes_budget [OF sw(1) c(2), of ?p] ws(2) sw(2) e(2) by auto
  moreover have "userWriteWord dev_read dev_write a v (?p\<lparr>io_wbudget := 0\<rparr>, d') = None"
  proof -
    have "while_option (\<lambda>(e, d). io_wreq ?p - e \<ge> IO_QUEUE_SIZE div 2) (\<lambda>(e, d). dev_read d wemit_idx)
        (dev_read d' wemit_idx) = None"
      using stalled_status d'(1)
      by (intro poll_stuck [where P = "\<lambda>(e, d). e = 0 \<and> dev_stalled d"])
        (auto simp: IO_QUEUE_SIZE_def case_prod_unfold)
    then show ?thesis by (simp add: userWriteWord_def writeWord_def)
  qed
  ultimately show ?thesis using ws w by simp
qed

end
