(* ===== verification/DmaSplitter.thy ===== *)
theory DmaSplitter
  imports SimLink PcieDev
begin

text \<open>
  \<open>DMASplitter\<close> of \<^verbatim>\<open>cpp/dmasplitter.cpp\<close> and \<^verbatim>\<open>cpp/dmasplitter.h\<close>: 128-bit words with a
  header, sent through five user registers and received through 128 slots of 32 bytes at
  the start of the DMA buffer. \<open>ww\<close> is \<open>BdbmPcie::writeWord\<close>, \<open>dma\<close> the DMA buffer in a state
  of the system. The slots are filled by hardware that is not part of the repository; a
  parameter of the theorems says what they hold. \<open>nextrecvidx\<close> is an \<^verbatim>\<open>int\<close> in the source, compared
  with unsigned words; it is a word here, which wraps where the increment of the \<^verbatim>\<open>int\<close> would
  overflow, after \<open>2 ^ 31\<close> words.
\<close>

definition IO_USER_OFFSET :: u32 where
  "IO_USER_OFFSET = 4096"

record pcieword =
  wdata :: "u32 list"
  wheader :: u32

record splitter =
  nextrecvidx :: u32
  nextrecvoff :: u32
  recvList :: "pcieword list"

text \<open>A sequence of register writes.\<close>

fun write_all :: "(u32 \<Rightarrow> u32 \<Rightarrow> 's \<Rightarrow> 's option) \<Rightarrow> (u32 \<times> u32) list \<Rightarrow> 's \<Rightarrow> 's option" where
  "write_all ww [] s = Some s"
| "write_all ww ((a, d) # ws) s = (case ww a d s of None \<Rightarrow> None | Some s1 \<Rightarrow> write_all ww ws s1)"

text \<open>The constructor: \<open>fill\<close> writes a 32-bit word of the DMA buffer.\<close>

definition DMASplitter_init ::
  "(u32 \<Rightarrow> u32 \<Rightarrow> 's \<Rightarrow> 's option) \<Rightarrow> (nat \<Rightarrow> u32 \<Rightarrow> 's \<Rightarrow> 's) \<Rightarrow> 's \<Rightarrow> (splitter \<times> 's) option" where
  "DMASplitter_init ww fill s =
     (let s1 = fold (\<lambda>i. fill (4 * i) 0xffffffff) [0 ..< 1024 * 4 div 4] s in
      case write_all ww [((IO_USER_OFFSET + 16) * 4, 0), ((IO_USER_OFFSET + 17) * 4, 0)] s1 of
        None \<Rightarrow> None
      | Some s2 \<Rightarrow> Some (\<lparr>nextrecvidx = 0, nextrecvoff = 0, recvList = []\<rparr>, s2))"

definition sendWord :: "(u32 \<Rightarrow> u32 \<Rightarrow> 's \<Rightarrow> 's option) \<Rightarrow> pcieword \<Rightarrow> 's \<Rightarrow> 's option" where
  "sendWord ww w s =
     write_all ww (((IO_USER_OFFSET + 4) * 4, wheader w) #
       map (\<lambda>i. ((IO_USER_OFFSET + of_nat i) * 4, wdata w ! i)) (rev [0 ..< 4])) s"

definition sendWord4 ::
  "(u32 \<Rightarrow> u32 \<Rightarrow> 's \<Rightarrow> 's option) \<Rightarrow> u32 \<Rightarrow> u32 \<Rightarrow> u32 \<Rightarrow> u32 \<Rightarrow> u32 \<Rightarrow> 's \<Rightarrow> 's option" where
  "sendWord4 ww header d1 d2 d3 d4 s =
     write_all ww [((IO_USER_OFFSET + 4) * 4, header), ((IO_USER_OFFSET + 3) * 4, d4),
       ((IO_USER_OFFSET + 2) * 4, d3), ((IO_USER_OFFSET + 1) * 4, d2), ((IO_USER_OFFSET + 0) * 4, d1)] s"

definition sendWord2 ::
  "(u32 \<Rightarrow> u32 \<Rightarrow> 's \<Rightarrow> 's option) \<Rightarrow> u32 \<Rightarrow> u32 \<Rightarrow> u32 \<Rightarrow> 's \<Rightarrow> 's option" where
  "sendWord2 ww header d1 d2 s =
     write_all ww [((IO_USER_OFFSET + 4) * 4, header), ((IO_USER_OFFSET + 1) * 4, d2),
       ((IO_USER_OFFSET + 0) * 4, d1)] s"

text \<open>The word in the slot that starts at 32-bit word \<open>u32off\<close> of the buffer.\<close>

definition slot_word :: "mem \<Rightarrow> u32 \<Rightarrow> pcieword" where
  "slot_word m u32off =
     \<lparr>wdata = [load32 m (4 * unat u32off), load32 m (4 * unat (u32off + 1)),
        load32 m (4 * unat (u32off + 2)), load32 m (4 * unat (u32off + 3))],
      wheader = load32 m (4 * unat (u32off + 4))\<rparr>"

text \<open>The loop of \<open>scanReceive\<close>: \<open>n\<close> iterations left, from \<open>i\<close> on.\<close>

fun scan_slots :: "mem \<Rightarrow> nat \<Rightarrow> u32 \<Rightarrow> bool \<Rightarrow> nat \<Rightarrow> splitter \<Rightarrow> nat \<times> splitter" where
  "scan_slots m 0 i found recvd sp = (recvd, sp)"
| "scan_slots m (Suc n) i found recvd sp =
     (let u32off = ((i + nextrecvoff sp) mod (1024 * 4 div 32)) * 4 * 2;
          nidx = load32 m (4 * unat (u32off + 5)) in
      if nidx = nextrecvidx sp
      then scan_slots m n (i + 1) True (recvd + 1)
             (sp\<lparr>recvList := slot_word m u32off # recvList sp, nextrecvidx := nextrecvidx sp + 1\<rparr>)
      else if found then (recvd, sp)
      else scan_slots m n (i + 1) found recvd sp)"

definition scanReceive ::
  "(u32 \<Rightarrow> u32 \<Rightarrow> 's \<Rightarrow> 's option) \<Rightarrow> ('s \<Rightarrow> mem) \<Rightarrow> splitter \<times> 's \<Rightarrow> (nat \<times> splitter \<times> 's) option" where
  "scanReceive ww dma st = (case st of (sp, s) \<Rightarrow>
     (let (recvd, sp1) = scan_slots (dma s) (1024 * 4 div 32) 0 False 0 sp;
          sp2 = sp1\<lparr>nextrecvoff := nextrecvoff sp1 + of_nat recvd\<rparr> in
      if recvd > 0
      then (case ww ((IO_USER_OFFSET + 16) * 4) (nextrecvidx sp2) s of
              None \<Rightarrow> None | Some s1 \<Rightarrow> Some (recvd, sp2, s1))
      else Some (recvd, sp2, s)))"

text \<open>
  \<open>recvWord\<close>: while nothing is in the list it waits for an interrupt (\<open>wait\<close>) and scans. A
  call that does not return is \<open>None\<close>, also when a write inside it does not.
\<close>

definition recvWord ::
  "(u32 \<Rightarrow> u32 \<Rightarrow> 's \<Rightarrow> 's option) \<Rightarrow> ('s \<Rightarrow> mem) \<Rightarrow> ('s \<Rightarrow> 's) \<Rightarrow> splitter \<times> 's
    \<Rightarrow> (pcieword \<times> splitter \<times> 's) option" where
  "recvWord ww dma wait st =
     (case while_option
         (\<lambda>r. case r of None \<Rightarrow> False | Some (sp, s) \<Rightarrow> recvList sp = [])
         (\<lambda>r. case r of None \<Rightarrow> None
            | Some (sp, s) \<Rightarrow> map_option snd (scanReceive ww dma (sp, wait s)))
         (Some st) of
        Some (Some (sp, s)) \<Rightarrow>
          Some (last (recvList sp), sp\<lparr>recvList := butlast (recvList sp)\<rparr>, s)
      | _ \<Rightarrow> None)"

text \<open>The part of the DMA buffer the library leaves to its client starts behind the slots.\<close>

definition splitter_dmaBuffer :: "nat \<Rightarrow> nat" where
  "splitter_dmaBuffer dmabuf = dmabuf + 1024 * 4"

subsection \<open>The slots\<close>

definition slot_off :: "nat \<Rightarrow> nat" where
  "slot_off i = 32 * (i mod 128)"

definition slot_holds :: "mem \<Rightarrow> nat \<Rightarrow> pcieword \<Rightarrow> bool" where
  "slot_holds m i w \<longleftrightarrow> load32 m (slot_off i + 20) = of_nat i \<and> wheader w = load32 m (slot_off i + 16)
     \<and> wdata w = map (\<lambda>k. load32 m (slot_off i + 4 * k)) [0 ..< 4]"

text \<open>
  What the hardware promises: the words \<open>ws\<close>, numbered from \<open>i\<close> on, are in their slots, and
  no other slot carries the number that comes next.
\<close>

definition slots_hold :: "mem \<Rightarrow> nat \<Rightarrow> pcieword list \<Rightarrow> bool" where
  "slots_hold m i ws \<longleftrightarrow> length ws \<le> 128
     \<and> (\<forall>k<length ws. slot_holds m (i + k) (ws ! k))
     \<and> (\<forall>j<128. length ws \<le> j \<longrightarrow> load32 m (slot_off (i + j) + 20) \<noteq> of_nat (i + length ws))"

text \<open>The receiver has taken the words below \<open>i\<close>.\<close>

definition recv_at :: "nat \<Rightarrow> splitter \<Rightarrow> bool" where
  "recv_at i sp \<longleftrightarrow> nextrecvidx sp = of_nat i \<and> nextrecvoff sp = of_nat i"

lemma u32_mod_128: "unat ((of_nat n :: u32) mod 128) = n mod 128"
  by (simp add: unat_mod_distrib unsigned_of_nat take_bit_eq_mod mod_mod_cancel)

lemma slot_u32:
  assumes "x < 8"
  shows "4 * unat ((of_nat n :: u32) mod 128 * 4 * 2 + of_nat x) = slot_off n + 4 * x"
proof -
  have m: "unat ((of_nat n :: u32) mod 128) = n mod 128" by (rule u32_mod_128)
  have lt: "n mod 128 < 128" by simp
  have "(of_nat n :: u32) mod 128 = of_nat (n mod 128)"
    using m lt by (simp add: word_unat_eq_iff unat_of_nat_small)
  then have "(of_nat n :: u32) mod 128 * 4 * 2 + of_nat x = of_nat (8 * (n mod 128) + x)" by simp
  moreover have "unat (of_nat (8 * (n mod 128) + x) :: u32) = 8 * (n mod 128) + x"
    using lt assms by (intro unat_of_nat_small) simp
  ultimately show ?thesis by (simp add: slot_off_def)
qed

lemma slot_word_eq: "slot_word m ((of_nat n :: u32) mod 128 * 4 * 2) =
    \<lparr>wdata = map (\<lambda>k. load32 m (slot_off n + 4 * k)) [0 ..< 4], wheader = load32 m (slot_off n + 16)\<rparr>"
  using slot_u32 [of 0 n] slot_u32 [of 1 n] slot_u32 [of 2 n] slot_u32 [of 3 n] slot_u32 [of 4 n]
  by (simp add: slot_word_def upt_rec)

subsection \<open>One scan\<close>

lemma slot_count: "(1024 * 4 div 32 :: u32) = 128"
  by (simp add: word_unat_eq_iff unat_div_distrib)

lemma scan_step:
  assumes "nextrecvoff sp = of_nat i0"
  shows "scan_slots m (Suc n) (of_nat k) found recvd sp =
    (if load32 m (slot_off (i0 + k) + 20) = nextrecvidx sp
     then scan_slots m n (of_nat (k + 1)) True (recvd + 1)
       (sp\<lparr>recvList := \<lparr>wdata = map (\<lambda>j. load32 m (slot_off (i0 + k) + 4 * j)) [0 ..< 4],
              wheader = load32 m (slot_off (i0 + k) + 16)\<rparr> # recvList sp,
            nextrecvidx := nextrecvidx sp + 1\<rparr>)
     else if found then (recvd, sp)
     else scan_slots m n (of_nat (k + 1)) found recvd sp)"
proof -
  have o: "(of_nat k + nextrecvoff sp) mod (1024 * 4 div 32) = (of_nat (i0 + k) :: u32) mod 128"
    unfolding assms slot_count by (simp add: add.commute)
  have "4 * unat ((of_nat (i0 + k) :: u32) mod 128 * 4 * 2 + 5) = slot_off (i0 + k) + 20"
    using slot_u32 [of 5 "i0 + k"] by simp
  then show ?thesis
    unfolding scan_slots.simps Let_def o slot_word_eq by (simp add: add.commute)
qed

lemma scan_misses:
  assumes "nextrecvoff sp = of_nat i0"
    and "\<And>j. k \<le> j \<Longrightarrow> j < k + n \<Longrightarrow> load32 m (slot_off (i0 + j) + 20) \<noteq> nextrecvidx sp"
  shows "scan_slots m n (of_nat k) found recvd sp = (recvd, sp)"
  using assms(2)
proof (induction n arbitrary: k)
  case 0
  then show ?case by simp
next
  case (Suc n)
  have "load32 m (slot_off (i0 + k) + 20) \<noteq> nextrecvidx sp" using Suc.prems [of k] by simp
  moreover have "scan_slots m n (of_nat (k + 1)) found recvd sp = (recvd, sp)"
    by (rule Suc.IH, rule Suc.prems) simp_all
  ultimately show ?case unfolding scan_step [OF assms(1)] by (cases found) simp_all
qed

lemma scan_hits:
  assumes h: "slots_hold m i0 ws"
  shows "k \<le> length ws \<Longrightarrow> n + k = 128 \<Longrightarrow> nextrecvoff sp = of_nat i0 \<Longrightarrow>
    nextrecvidx sp = of_nat (i0 + k) \<Longrightarrow> scan_slots m n (of_nat k) (0 < k) k sp =
      (length ws, sp\<lparr>recvList := rev (drop k ws) @ recvList sp, nextrecvidx := of_nat (i0 + length ws)\<rparr>)"
proof (induction n arbitrary: k sp)
  case 0
  then have "k = length ws" using h by (simp add: slots_hold_def)
  then show ?case using 0 by (cases sp) simp
next
  case (Suc n)
  show ?case
  proof (cases "k < length ws")
    case True
    let ?w = "\<lparr>wdata = map (\<lambda>j. load32 m (slot_off (i0 + k) + 4 * j)) [0 ..< 4],
      wheader = load32 m (slot_off (i0 + k) + 16)\<rparr>"
    have hit: "slot_holds m (i0 + k) (ws ! k)" using h True by (simp add: slots_hold_def)
    then have w: "?w = ws ! k" by (simp add: slot_holds_def)
    have num: "load32 m (slot_off (i0 + k) + 20) = nextrecvidx sp"
      using hit Suc.prems(4) by (simp add: slot_holds_def)
    let ?sp = "sp\<lparr>recvList := ws ! k # recvList sp, nextrecvidx := nextrecvidx sp + 1\<rparr>"
    have "scan_slots m (Suc n) (of_nat k) (0 < k) k sp = scan_slots m n (of_nat (k + 1)) True (k + 1) ?sp"
      unfolding scan_step [OF Suc.prems(3)] w by (simp only: num if_True refl)
    also have "\<dots> = scan_slots m n (of_nat (k + 1)) (0 < k + 1) (k + 1) ?sp" by simp
    also have "\<dots> = (length ws, ?sp\<lparr>recvList := rev (drop (k + 1) ws) @ recvList ?sp,
        nextrecvidx := of_nat (i0 + length ws)\<rparr>)"
      using True Suc.prems by (intro Suc.IH) (simp_all add: add_ac)
    also have "rev (drop (k + 1) ws) @ recvList ?sp = rev (drop k ws) @ recvList sp"
      using True by (simp add: Cons_nth_drop_Suc [symmetric])
    finally show ?thesis by simp
  next
    case False
    then have k: "k = length ws" using Suc.prems(1) by simp
    have miss: "load32 m (slot_off (i0 + j) + 20) \<noteq> nextrecvidx sp" if "k \<le> j" "j < 128" for j
      using h that k Suc.prems(4) by (simp add: slots_hold_def)
    have "scan_slots m (Suc n) (of_nat k) (0 < k) k sp = (k, sp)"
      using miss Suc.prems(2) by (intro scan_misses [OF Suc.prems(3)]) simp
    moreover have "sp\<lparr>recvList := rev (drop k ws) @ recvList sp, nextrecvidx := of_nat (i0 + length ws)\<rparr> = sp"
      using k Suc.prems(4) by (cases sp) simp
    ultimately show ?thesis by (simp only: k)
  qed
qed

lemma scan_slots_batch:
  assumes "slots_hold m i ws" "recv_at i sp"
  shows "scan_slots m 128 0 False 0 sp =
    (length ws, sp\<lparr>recvList := rev ws @ recvList sp, nextrecvidx := of_nat (i + length ws)\<rparr>)"
  using scan_hits [OF assms(1), of 0 128 sp] assms(2) by (simp add: recv_at_def)

subsection \<open>Over a port\<close>

text \<open>The receive queue, oldest word first: \<open>scanReceive\<close> adds at one end, \<open>recvWord\<close> takes at the other.\<close>

definition recv_queue :: "splitter \<Rightarrow> pcieword list" where
  "recv_queue sp = rev (recvList sp)"

text \<open>The registers one word goes through, in the order of the writes.\<close>

definition word_regs :: "pcieword \<Rightarrow> (u32 \<times> u32) list" where
  "word_regs w = [(16, wheader w), (12, wdata w ! 3), (8, wdata w ! 2), (4, wdata w ! 1), (0, wdata w ! 0)]"

lemma splitter_addrs:
  "(IO_USER_OFFSET + 4) * 4 = 16 + CONFIG_BUFFER_SIZE" "(IO_USER_OFFSET + 3) * 4 = 12 + CONFIG_BUFFER_SIZE"
  "(IO_USER_OFFSET + 2) * 4 = 8 + CONFIG_BUFFER_SIZE" "(IO_USER_OFFSET + 1) * 4 = 4 + CONFIG_BUFFER_SIZE"
  "(IO_USER_OFFSET + 0) * 4 = 0 + CONFIG_BUFFER_SIZE" "(IO_USER_OFFSET + 16) * 4 = 64 + CONFIG_BUFFER_SIZE"
  "(IO_USER_OFFSET + 17) * 4 = 68 + CONFIG_BUFFER_SIZE"
  by (simp_all add: IO_USER_OFFSET_def CONFIG_BUFFER_SIZE_def)

lemma sendWord_regs: "sendWord ww w s = write_all ww (map (\<lambda>(a, d). (a + CONFIG_BUFFER_SIZE, d)) (word_regs w)) s"
  by (simp add: sendWord_def word_regs_def upt_rec numeral_2_eq_2 numeral_3_eq_3
      IO_USER_OFFSET_def CONFIG_BUFFER_SIZE_def)

lemma sendWord4_struct: "sendWord4 ww h d1 d2 d3 d4 s = sendWord ww \<lparr>wdata = [d1, d2, d3, d4], wheader = h\<rparr> s"
  by (simp add: sendWord_regs word_regs_def sendWord4_def IO_USER_OFFSET_def CONFIG_BUFFER_SIZE_def)

text \<open>Calls of \<open>sendWord\<close> in its three forms, one after the other, and the registers each writes.\<close>

datatype send =
  Send pcieword
| Send4 u32 u32 u32 u32 u32
| Send2 u32 u32 u32

fun send_call :: "(u32 \<Rightarrow> u32 \<Rightarrow> 's \<Rightarrow> 's option) \<Rightarrow> send \<Rightarrow> 's \<Rightarrow> 's option" where
  "send_call ww (Send w) = sendWord ww w"
| "send_call ww (Send4 header d1 d2 d3 d4) = sendWord4 ww header d1 d2 d3 d4"
| "send_call ww (Send2 header d1 d2) = sendWord2 ww header d1 d2"

fun send_calls :: "(u32 \<Rightarrow> u32 \<Rightarrow> 's \<Rightarrow> 's option) \<Rightarrow> send list \<Rightarrow> 's \<Rightarrow> 's option" where
  "send_calls ww [] s = Some s"
| "send_calls ww (c # cs) s = (case send_call ww c s of None \<Rightarrow> None | Some s1 \<Rightarrow> send_calls ww cs s1)"

fun send_regs :: "send \<Rightarrow> (u32 \<times> u32) list" where
  "send_regs (Send w) =
     [(16, wheader w), (12, wdata w ! 3), (8, wdata w ! 2), (4, wdata w ! 1), (0, wdata w ! 0)]"
| "send_regs (Send4 header d1 d2 d3 d4) = [(16, header), (12, d4), (8, d3), (4, d2), (0, d1)]"
| "send_regs (Send2 header d1 d2) = [(16, header), (4, d2), (0, d1)]"

lemma send_call_regs: "send_call ww c s = write_all ww (map (\<lambda>(a, d). (a + CONFIG_BUFFER_SIZE, d)) (send_regs c)) s"
  by (cases c) (simp_all add: sendWord_regs word_regs_def sendWord4_def sendWord2_def IO_USER_OFFSET_def CONFIG_BUFFER_SIZE_def)

lemma send_regs_user: "list_all (user_word \<circ> fst) (send_regs c)"
  by (cases c) (simp_all add: user_word_def)

lemma word_regs_user: "list_all (user_word \<circ> fst) (word_regs w)"
  by (simp add: word_regs_def user_word_def)

lemma recvWord_ready:
  assumes "recv_queue sp \<noteq> []"
  shows "recvWord ww dma wait (sp, s) = Some (hd (recv_queue sp),
    sp\<lparr>recvList := rev (tl (recv_queue sp))\<rparr>, s)"
proof -
  have ne: "recvList sp \<noteq> []" using assms by (simp add: recv_queue_def)
  have "rev (tl (rev (recvList sp))) = butlast (recvList sp)" by (metis butlast_rev rev_rev_ident)
  then show ?thesis using ne by (simp add: recvWord_def poll_at_once recv_queue_def hd_rev)
qed

context word_port
begin

lemma write_all_returns:
  assumes "good s" "list_all (user_word \<circ> fst) ws"
  shows "\<exists>s'. write_all ww (map (\<lambda>(a, d). (a + CONFIG_BUFFER_SIZE, d)) ws) s = Some s' \<and> good s'
    \<and> view s' = fold put (map (\<lambda>(a, d). (ucast a, d)) ws) (view s)"
  using assms
proof (induction ws arbitrary: s)
  case Nil
  then show ?case by simp
next
  case (Cons w ws)
  obtain a d where w: "w = (a, d)" by (cases w)
  obtain s1 where s1: "ww (a + CONFIG_BUFFER_SIZE) d s = Some s1" "good s1" "view s1 = put (ucast a, d) (view s)"
    using write_law [OF Cons.prems(1), of a d] Cons.prems(2) w by (auto simp: ww_user)
  show ?case using Cons.IH [OF s1(2)] Cons.prems(2) s1 w by auto
qed

lemma sendWord_returns:
  assumes "good s"
  shows "\<exists>s'. sendWord ww w s = Some s' \<and> good s'
    \<and> view s' = fold put (map (\<lambda>(a, d). (ucast a, d)) (word_regs w)) (view s)"
  unfolding sendWord_regs by (rule write_all_returns [OF assms word_regs_user])

lemma send_calls_return:
  assumes "good s"
  shows "\<exists>s'. send_calls ww cs s = Some s' \<and> good s'
    \<and> view s' = fold put (map (\<lambda>(a, d). (ucast a, d)) (concat (map send_regs cs))) (view s)"
  using assms
proof (induction cs arbitrary: s)
  case (Cons c cs)
  obtain s1 where "send_call ww c s = Some s1" "good s1"
    "view s1 = fold put (map (\<lambda>(a, d). (ucast a, d)) (send_regs c)) (view s)"
    using write_all_returns [OF Cons.prems send_regs_user] unfolding send_call_regs by blast
  then show ?case using Cons.IH [of s1] by simp
qed simp

text \<open>Sending several words: their registers are written one word after the other.\<close>

lemma sendWords_return:
  assumes "good s"
  shows "\<exists>s'. write_all ww (map (\<lambda>(a, d). (a + CONFIG_BUFFER_SIZE, d)) (concat (map word_regs wl))) s = Some s'
    \<and> good s' \<and> view s' = fold put (map (\<lambda>(a, d). (ucast a, d)) (concat (map word_regs wl))) (view s)"
proof (rule write_all_returns [OF assms])
  show "list_all (user_word \<circ> fst) (concat (map word_regs wl))"
    using word_regs_user by (induction wl) simp_all
qed

lemma scanReceive_batch:
  assumes "good s" "slots_hold (dma s) i ws" "recv_at i sp"
  shows "\<exists>sp' s'. scanReceive ww dma (sp, s) = Some (length ws, sp', s') \<and> good s'
    \<and> recv_at (i + length ws) sp' \<and> recv_queue sp' = recv_queue sp @ ws
    \<and> (ws = [] \<longrightarrow> s' = s) \<and> view s' = (if ws = [] then view s else put (64, of_nat (i + length ws)) (view s))"
proof -
  note scan = scan_slots_batch [OF assms(2,3)]
  obtain s1 where s1: "ww (64 + CONFIG_BUFFER_SIZE) (of_nat (i + length ws)) s = Some s1" "good s1"
    "view s1 = put (64, of_nat (i + length ws)) (view s)"
    using write_law [OF assms(1), of 64 "of_nat (i + length ws)"] by (auto simp: ww_user user_word_def)
  then show ?thesis
    using scan assms(1,3) unfolding scanReceive_def splitter_addrs
    by (auto simp: recv_at_def recv_queue_def)
qed

text \<open>
  Nothing arrives during the first \<open>n\<close> waits, then a batch does: the call returns its first
  word and keeps the rest.
\<close>

lemma recvWord_waits:
  assumes "recvList sp = []" "recv_at i sp" "\<forall>k\<le>Suc n. good ((wait ^^ k) s)"
    and "\<forall>k<n. slots_hold (dma ((wait ^^ Suc k) s)) i []"
    and "slots_hold (dma ((wait ^^ Suc n) s)) i (w # ws)"
  shows "\<exists>sp' s'. recvWord ww dma wait (sp, s) = Some (w, sp', s') \<and> good s'
    \<and> recv_queue sp' = ws \<and> recv_at (i + Suc (length ws)) sp'
    \<and> view s' = put (64, of_nat (i + Suc (length ws))) (view ((wait ^^ Suc n) s))"
  using assms
proof (induction n arbitrary: s sp)
  case 0
  let ?b = "\<lambda>r. case r of None \<Rightarrow> False | Some (sp, s) \<Rightarrow> recvList sp = []"
  let ?c = "\<lambda>r. case r of None \<Rightarrow> None
    | Some (sp, s) \<Rightarrow> map_option snd (scanReceive ww dma (sp, wait s))"
  have g: "good (wait s)" using "0.prems"(3) [rule_format, of 1] by simp
  have h: "slots_hold (dma (wait s)) i (w # ws)" using "0.prems"(5) by simp
  obtain sp' s' where r: "scanReceive ww dma (sp, wait s) = Some (length (w # ws), sp', s')" "good s'"
    "recv_at (i + length (w # ws)) sp'" "recv_queue sp' = recv_queue sp @ w # ws"
    "view s' = put (64, of_nat (i + length (w # ws))) (view (wait s))"
    using scanReceive_batch [of _ dma, OF g h "0.prems"(2)] by auto
  have q: "recv_queue sp' = w # ws" using r(4) "0.prems"(1) by (simp add: recv_queue_def)
  then have ne: "recvList sp' \<noteq> []" by (auto simp: recv_queue_def)
  have "while_option ?b ?c (Some (sp, s)) = Some (Some (sp', s'))"
    by (subst while_option_unfold) (simp add: "0.prems"(1) r(1) poll_at_once ne)
  moreover have "last (recvList sp') = w" "rev (butlast (recvList sp')) = ws"
    using q by (simp_all add: recv_queue_def hd_rev [symmetric] butlast_rev [symmetric])
  ultimately show ?case using r by (simp add: recvWord_def recv_queue_def recv_at_def)
next
  case (Suc n)
  have g: "good (wait s)" using Suc.prems(3) [rule_format, of 1] by simp
  have h: "slots_hold (dma (wait s)) i []" using Suc.prems(4) [rule_format, of 0] by simp
  obtain sp' where r: "scanReceive ww dma (sp, wait s) = Some (0, sp', wait s)"
    "recv_at i sp'" "recv_queue sp' = recv_queue sp"
    using scanReceive_batch [of _ dma, OF g h Suc.prems(2)] by auto
  have e: "recvList sp' = []" using r(3) Suc.prems(1) by (simp add: recv_queue_def)
  have pow: "(wait ^^ k) (wait s) = (wait ^^ Suc k) s" for k by (simp add: funpow_swap1)
  have "recvWord ww dma wait (sp, s) = recvWord ww dma wait (sp', wait s)"
    unfolding recvWord_def by (subst while_option_unfold) (simp add: Suc.prems(1) r(1))
  moreover have "\<exists>sp'' s'. recvWord ww dma wait (sp', wait s) = Some (w, sp'', s') \<and> good s'
      \<and> recv_queue sp'' = ws \<and> recv_at (i + Suc (length ws)) sp''
      \<and> view s' = put (64, of_nat (i + Suc (length ws))) (view ((wait ^^ Suc n) (wait s)))"
    using Suc.prems(3-5) by (intro Suc.IH [OF e r(2)]) (simp_all only: pow, auto)
  ultimately show ?case by (simp only: pow)
qed

end

end
