(* ===== verification/DmaCircularQueue.thy ===== *)
theory DmaCircularQueue
  imports SimLink PcieDev
begin

text \<open>
  \<open>DMACircularQueue\<close> of \<^verbatim>\<open>cpp/dmacircularqueue.cpp\<close>: the software's end of a byte ring in the
  DMA buffer, which tells the hardware how many bytes it has read in all, modulo \<open>2 ^ 32\<close>; and
  the counters of \<^verbatim>\<open>src/DMACircularQueue.bsv\<close> (rules \<open>procUserW\<close> and \<open>serializeEnq\<close>), which let
  the hardware go on only while the ring has room.
\<close>

record circq =
  readBytes :: u32

definition DMACircularQueue_init :: "(u32 \<Rightarrow> u32 \<Rightarrow> 's \<Rightarrow> 's option) \<Rightarrow> 's \<Rightarrow> (circq \<times> 's) option" where
  "DMACircularQueue_init uw s =
     (case uw (16 * 4) 0 s of None \<Rightarrow> None | Some s1 \<Rightarrow> Some (\<lparr>readBytes = 0\<rparr>, s1))"

definition circq_deq :: "(u32 \<Rightarrow> u32 \<Rightarrow> 's \<Rightarrow> 's option) \<Rightarrow> u32 \<Rightarrow> circq \<times> 's \<Rightarrow> (circq \<times> 's) option" where
  "circq_deq uw bytes st = (case st of (q, s) \<Rightarrow>
     (let q1 = q\<lparr>readBytes := readBytes q + bytes\<rparr> in
      case uw (17 * 4) (readBytes q1) s of None \<Rightarrow> None | Some s1 \<Rightarrow> Some (q1, s1)))"

fun circq_deqs :: "(u32 \<Rightarrow> u32 \<Rightarrow> 's \<Rightarrow> 's option) \<Rightarrow> u32 list \<Rightarrow> circq \<times> 's \<Rightarrow> (circq \<times> 's) option" where
  "circq_deqs uw [] st = Some st"
| "circq_deqs uw (b # bs) st =
     (case circq_deq uw b st of None \<Rightarrow> None | Some st1 \<Rightarrow> circq_deqs uw bs st1)"

text \<open>The register writes of a sequence of \<open>deq\<close> calls: the running sums.\<close>

fun deq_log :: "u32 \<Rightarrow> u32 list \<Rightarrow> (ioaddr \<times> u32) list" where
  "deq_log r [] = []"
| "deq_log r (b # bs) = (68, r + b) # deq_log (r + b) bs"

context pio_port
begin

lemma circq_init_returns:
  assumes "good s"
  shows "\<exists>s'. DMACircularQueue_init uw s = Some (\<lparr>readBytes = 0\<rparr>, s') \<and> good s'
    \<and> view s' = put (64, 0) (view s)"
  using write_law [OF assms, of 64 0] by (auto simp: DMACircularQueue_init_def user_word_def)

lemma circq_deq_returns:
  assumes "good s"
  shows "\<exists>s'. circq_deq uw b (q, s) = Some (q\<lparr>readBytes := readBytes q + b\<rparr>, s') \<and> good s'
    \<and> view s' = put (68, readBytes q + b) (view s)"
  using write_law [OF assms, of 68 "readBytes q + b"] by (auto simp: circq_deq_def user_word_def)

lemma circq_deqs_return:
  assumes "good s"
  shows "\<exists>s'. circq_deqs uw bs (q, s) = Some (q\<lparr>readBytes := readBytes q + sum_list bs\<rparr>, s') \<and> good s'
    \<and> view s' = fold put (deq_log (readBytes q) bs) (view s)"
  using assms
proof (induction bs arbitrary: q s)
  case Nil
  then show ?case by simp
next
  case (Cons b bs)
  obtain s1 where s1: "circq_deq uw b (q, s) = Some (q\<lparr>readBytes := readBytes q + b\<rparr>, s1)" "good s1"
    "view s1 = put (68, readBytes q + b) (view s)"
    using circq_deq_returns [OF Cons.prems] by blast
  then show ?case
    using Cons.IH [OF s1(2), of "q\<lparr>readBytes := readBytes q + b\<rparr>"] by (auto simp: add.assoc)
qed

end

subsection \<open>The hardware's counters\<close>

record cqdev =
  started :: bool
  writeByteCount :: u32
  readByteCount :: u32

definition cqdev_reset :: cqdev where
  "cqdev_reset = \<lparr>started = False, writeByteCount = 0, readByteCount = 0\<rparr>"

definition cq_procUserW :: "ioaddr \<times> u32 \<Rightarrow> cqdev \<Rightarrow> cqdev" where
  "cq_procUserW w d = (case w of (addr, data) \<Rightarrow>
     (let toffset = (ucast (drop_bit 2 addr) :: u8);
          d1 = (if toffset = 16 then d\<lparr>started := True\<rparr> else d) in
      if toffset = 17 then d1\<lparr>readByteCount := data\<rparr> else d1))"

definition cq_can_enq :: "nat \<Rightarrow> cqdev \<Rightarrow> bool" where
  "cq_can_enq bufferSz d \<longleftrightarrow> started d \<and> writeByteCount d - readByteCount d < 2 ^ bufferSz"

definition cq_serializeEnq :: "cqdev \<Rightarrow> cqdev" where
  "cq_serializeEnq d = d\<lparr>writeByteCount := writeByteCount d + 16\<rparr>"

text \<open>
  Software and hardware together. The register writes on their way are \<open>cqmsgs\<close>, \<open>cqwritten\<close> is
  the true count of the bytes written, \<open>cqdeqs\<close> has the arguments of the calls of \<open>deq\<close> so far.
  The software may give any count, but reads only what was written.
\<close>

record cqsys =
  cqsw :: circq
  cqmsgs :: "(ioaddr \<times> u32) list"
  cqhw :: cqdev
  cqwritten :: nat
  cqdeqs :: "u32 list"

definition cqread :: "cqsys \<Rightarrow> nat" where
  "cqread s = sum_list (map unat (cqdeqs s))"

inductive cq_step :: "nat \<Rightarrow> cqsys \<Rightarrow> cqsys \<Rightarrow> bool" for bufferSz where
  sw_deq: "circq_deq (\<lambda>a d l. Some (l @ [(ucast a, d)])) b (cqsw s, cqmsgs s) = Some (q', l') \<Longrightarrow>
    cqread s + unat b \<le> cqwritten s \<Longrightarrow>
    cq_step bufferSz s (s\<lparr>cqsw := q', cqmsgs := l', cqdeqs := cqdeqs s @ [b]\<rparr>)"
| deliver: "cqmsgs s = w # ws \<Longrightarrow>
    cq_step bufferSz s (s\<lparr>cqmsgs := ws, cqhw := cq_procUserW w (cqhw s)\<rparr>)"
| hw_enq: "cq_can_enq bufferSz (cqhw s) \<Longrightarrow>
    cq_step bufferSz s (s\<lparr>cqhw := cq_serializeEnq (cqhw s), cqwritten := cqwritten s + 16\<rparr>)"

inductive_cases cq_stepE: "cq_step bufferSz s s'"

definition cq_start :: "cqsys \<Rightarrow> bool" where
  "cq_start s \<longleftrightarrow> DMACircularQueue_init (\<lambda>a d l. Some (l @ [(ucast a, d)])) [] = Some (cqsw s, cqmsgs s)
     \<and> cqhw s = cqdev_reset \<and> cqwritten s = 0 \<and> cqdeqs s = []"

text \<open>The software has read whole words of 16 bytes only.\<close>

definition whole_words :: "cqsys \<Rightarrow> bool" where
  "whole_words s \<longleftrightarrow> (\<forall>b \<in> set (cqdeqs s). unat b mod 16 = 0)"

lemma cqread_simps [simp]:
  "cqread (s\<lparr>cqsw := q, cqmsgs := l, cqdeqs := cqdeqs s @ [b]\<rparr>) = cqread s + unat b"
  "cqread (s\<lparr>cqmsgs := l, cqhw := h\<rparr>) = cqread s" "cqread (s\<lparr>cqhw := h, cqwritten := n\<rparr>) = cqread s"
  "whole_words (s\<lparr>cqsw := q, cqmsgs := l, cqdeqs := cqdeqs s @ [b]\<rparr>) \<longleftrightarrow> whole_words s \<and> unat b mod 16 = 0"
  "whole_words (s\<lparr>cqmsgs := l, cqhw := h\<rparr>) = whole_words s" "whole_words (s\<lparr>cqhw := h, cqwritten := n\<rparr>) = whole_words s"
  by (auto simp: cqread_def whole_words_def)

lemma whole_read: "whole_words s \<Longrightarrow> cqread s mod 16 = 0"
proof -
  have "\<forall>b \<in> set bs. unat b mod 16 = 0 \<Longrightarrow> sum_list (map unat bs) mod 16 = 0" for bs :: "u32 list"
    by (induction bs) (auto simp: mod_add_eq [symmetric])
  then show "whole_words s \<Longrightarrow> cqread s mod 16 = 0" by (simp add: whole_words_def cqread_def)
qed

text \<open>
  The counts on their way rise from what the hardware knows to what the software has read.
  The hardware is at most one ring ahead of what it knows if that is a number of whole
  words, and at most 15 bytes more if not.
\<close>

fun counts_rise :: "nat \<Rightarrow> nat list \<Rightarrow> nat \<Rightarrow> bool" where
  "counts_rise r [] hi \<longleftrightarrow> r = hi"
| "counts_rise r (x # xs) hi \<longleftrightarrow> r \<le> x \<and> counts_rise x xs hi"

definition cq_ahead :: "nat \<Rightarrow> cqsys \<Rightarrow> nat \<Rightarrow> nat list \<Rightarrow> bool" where
  "cq_ahead bufferSz s known counts \<longleftrightarrow> cqwritten s \<le> known + 2 ^ bufferSz + 15
     \<and> (whole_words s \<longrightarrow> known mod 16 = 0 \<and> (\<forall>x \<in> set counts. x mod 16 = 0) \<and> cqwritten s \<le> known + 2 ^ bufferSz)"

definition cq_inv :: "nat \<Rightarrow> cqsys \<Rightarrow> bool" where
  "cq_inv bufferSz s \<longleftrightarrow>
     (\<exists>known start counts. cqmsgs s = start @ map (\<lambda>x. (68, of_nat x)) counts \<and> set start \<subseteq> {(64, 0)}
        \<and> readByteCount (cqhw s) = of_nat known \<and> counts_rise known counts (cqread s)
        \<and> cq_ahead bufferSz s known counts)
     \<and> readBytes (cqsw s) = of_nat (cqread s) \<and> writeByteCount (cqhw s) = of_nat (cqwritten s)
     \<and> cqwritten s mod 16 = 0 \<and> cqread s \<le> cqwritten s"

lemma counts_rise_le: "counts_rise r xs hi \<Longrightarrow> r \<le> hi"
  by (induction xs arbitrary: r) (auto intro: le_trans)

lemma counts_rise_snoc: "counts_rise r xs hi \<Longrightarrow> hi \<le> y \<Longrightarrow> counts_rise r (xs @ [y]) y"
  by (induction xs arbitrary: r) auto

lemma cq_start_inv:
  assumes "cq_start s"
  shows "cq_inv bufferSz s"
proof -
  have "cqsw s = \<lparr>readBytes = 0\<rparr>" "cqmsgs s = [(64, 0)]" "cqhw s = cqdev_reset"
    "cqwritten s = 0" "cqread s = 0"
    using assms unfolding cq_start_def DMACircularQueue_init_def cqread_def by auto
  then show ?thesis
    unfolding cq_inv_def cq_ahead_def
    by (intro conjI exI [of _ 0] exI [of _ "[(64, 0)]"] exI [of _ "[]"]) (simp_all add: cqdev_reset_def)
qed

lemma cq_room:
  assumes "cq_can_enq bufferSz d" "bufferSz < 32" "known \<le> written" "written \<le> known + 2 ^ bufferSz + 15"
    and "writeByteCount d = of_nat written" "readByteCount d = of_nat known"
  shows "written < known + 2 ^ bufferSz"
proof -
  have p: "(2 :: nat) ^ bufferSz \<le> 2 ^ 31" using assms(2) by (intro power_increasing) simp_all
  have "writeByteCount d - readByteCount d = of_nat (written - known)"
    using assms(3,5,6) by (simp add: of_nat_diff)
  moreover have "unat (of_nat (written - known) :: u32) = written - known"
    using assms(4) p by (intro unat_of_nat_small) simp
  moreover have "unat (2 ^ bufferSz :: u32) = 2 ^ bufferSz"
    using unat_of_nat_small [of "2 ^ bufferSz", where 'a = 32] p by simp
  ultimately have "written - known < 2 ^ bufferSz"
    using assms(1) by (simp only: cq_can_enq_def word_less_nat_alt)
  then show ?thesis using assms(3) by linarith
qed

lemma cq_step_inv:
  assumes "cq_step bufferSz s s'" "cq_inv bufferSz s" "4 \<le> bufferSz" "bufferSz < 32"
  shows "cq_inv bufferSz s'"
proof -
  obtain known start counts where m: "cqmsgs s = start @ map (\<lambda>x. (68, of_nat x)) counts"
    "set start \<subseteq> {(64, 0)}" and k: "readByteCount (cqhw s) = of_nat known"
    and r: "counts_rise known counts (cqread s)" and w: "cq_ahead bufferSz s known counts"
    using assms(2) by (auto simp: cq_inv_def)
  have c: "readBytes (cqsw s) = of_nat (cqread s)" "writeByteCount (cqhw s) = of_nat (cqwritten s)"
    "cqwritten s mod 16 = 0" "cqread s \<le> cqwritten s"
    using assms(2) by (simp_all add: cq_inv_def)
  show ?thesis using assms(1)
  proof (rule cq_stepE)
    fix b q' l'
    assume s': "s' = s\<lparr>cqsw := q', cqmsgs := l', cqdeqs := cqdeqs s @ [b]\<rparr>"
      and d: "circq_deq (\<lambda>a d l. Some (l @ [(ucast a, d)])) b (cqsw s, cqmsgs s) = Some (q', l')"
      and b: "cqread s + unat b \<le> cqwritten s"
    have q: "readBytes q' = of_nat (cqread s + unat b)"
      "l' = cqmsgs s @ [(68, of_nat (cqread s + unat b))]"
      using d c(1) by (auto simp: circq_deq_def)
    have e: "(cqread s + unat b) mod 16 = 0" if "whole_words s" "unat b mod 16 = 0"
      using whole_read [OF that(1)] that(2) by presburger
    have "l' = start @ map (\<lambda>x. (68, of_nat x)) (counts @ [cqread s + unat b])" using q(2) m(1) by simp
    moreover have "counts_rise known (counts @ [cqread s + unat b]) (cqread s + unat b)"
      by (rule counts_rise_snoc [OF r]) simp
    moreover have "cq_ahead bufferSz s' known (counts @ [cqread s + unat b])"
      using w e by (auto simp: cq_ahead_def s')
    ultimately show ?thesis
      using b c(2,3) q(1) m(2) k unfolding cq_inv_def s'
      by (intro conjI exI [of _ known] exI [of _ start] exI [of _ "counts @ [cqread s + unat b]"]) simp_all
  next
    fix x ws
    assume s': "s' = s\<lparr>cqmsgs := ws, cqhw := cq_procUserW x (cqhw s)\<rparr>" and x: "cqmsgs s = x # ws"
    show ?thesis
    proof (cases start)
      case Nil
      then obtain y ys where y: "counts = y # ys" "x = (68, of_nat y)" "ws = map (\<lambda>x. (68, of_nat x)) ys"
        using m x by auto
      have hw: "readByteCount (cq_procUserW x (cqhw s)) = of_nat y"
        "writeByteCount (cq_procUserW x (cqhw s)) = writeByteCount (cqhw s)"
        using y(2) by (simp_all add: cq_procUserW_def Let_def)
      have "cq_ahead bufferSz s' y ys" "counts_rise y ys (cqread s)"
        using w r y(1) by (auto simp: cq_ahead_def s')
      then show ?thesis
        using c hw y unfolding cq_inv_def s'
        by (intro conjI exI [of _ y] exI [of _ "[]"] exI [of _ ys]) auto
    next
      case (Cons z zs)
      then have z: "x = (64, 0)" "ws = zs @ map (\<lambda>x. (68, of_nat x)) counts" "set zs \<subseteq> {(64, 0)}"
        using m x by auto
      have hw: "readByteCount (cq_procUserW x (cqhw s)) = readByteCount (cqhw s)"
        "writeByteCount (cq_procUserW x (cqhw s)) = writeByteCount (cqhw s)"
        using z(1) by (simp_all add: cq_procUserW_def Let_def)
      have "cq_ahead bufferSz s' known counts" using w by (simp add: cq_ahead_def s')
      then show ?thesis
        using c z k r hw unfolding cq_inv_def s'
        by (intro conjI exI [of _ known] exI [of _ zs] exI [of _ counts]) auto
    qed
  next
    assume s': "s' = s\<lparr>cqhw := cq_serializeEnq (cqhw s), cqwritten := cqwritten s + 16\<rparr>"
      and e: "cq_can_enq bufferSz (cqhw s)"
    have le: "known \<le> cqwritten s" using counts_rise_le [OF r] c(4) by simp
    have lt: "cqwritten s < known + 2 ^ bufferSz"
      using w by (intro cq_room [OF e assms(4) le _ c(2) k]) (simp add: cq_ahead_def)
    have "(2 :: nat) ^ bufferSz mod 16 = 0"
      using le_imp_power_dvd [OF assms(3), of "2 :: nat"] by (simp add: dvd_eq_mod_eq_0)
    then have "cqwritten s + 16 \<le> known + 2 ^ bufferSz" if "known mod 16 = 0"
      using le that c(3) lt by presburger
    then have "cq_ahead bufferSz s' known counts" using w lt by (auto simp: cq_ahead_def s')
    moreover have "(cqwritten s + 16) mod 16 = 0" using c(3) by presburger
    ultimately show ?thesis
      using m k r c unfolding cq_inv_def s'
      by (intro conjI exI [of _ known] exI [of _ start] exI [of _ counts]) (auto simp: cq_serializeEnq_def)
  qed
qed

lemma cq_reach_inv:
  assumes "(cq_step bufferSz)\<^sup>*\<^sup>* s s'" "cq_inv bufferSz s" "4 \<le> bufferSz" "bufferSz < 32"
  shows "cq_inv bufferSz s'"
  using assms by (induction rule: rtranclp_induct) (auto intro: cq_step_inv)

lemma cq_inv_bound:
  assumes "cq_inv bufferSz s"
  shows "cqread s \<le> cqwritten s" "cqwritten s \<le> cqread s + 2 ^ bufferSz + 15"
    "whole_words s \<Longrightarrow> cqwritten s \<le> cqread s + 2 ^ bufferSz"
  using assms counts_rise_le by (fastforce simp: cq_inv_def cq_ahead_def)+

subsection \<open>Reading part of a word\<close>

text \<open>
  The ring is filled, the software reads 8 bytes of it, and the hardware takes that for room
  for a word: it overwrites 8 bytes that were not read.
\<close>

definition cq_filled :: "nat \<Rightarrow> cqsys" where
  "cq_filled n = \<lparr>cqsw = \<lparr>readBytes = 0\<rparr>, cqmsgs = [],
     cqhw = \<lparr>started = True, writeByteCount = of_nat (16 * n), readByteCount = 0\<rparr>, cqwritten = 16 * n, cqdeqs = []\<rparr>"

lemma cq_fills:
  assumes "cq_start s" "bufferSz < 32" "16 * n \<le> 2 ^ bufferSz"
  shows "(cq_step bufferSz)\<^sup>*\<^sup>* s (cq_filled n)"
  using assms(3)
proof (induction n)
  case 0
  have s: "s = \<lparr>cqsw = \<lparr>readBytes = 0\<rparr>, cqmsgs = [(64, 0)], cqhw = cqdev_reset, cqwritten = 0, cqdeqs = []\<rparr>"
    using assms(1) unfolding cq_start_def DMACircularQueue_init_def by (intro cqsys.equality) auto
  have "cq_step bufferSz s (cq_filled 0)"
    using deliver [of s "(64, 0)" "[]" bufferSz]
    by (simp add: s cq_filled_def cq_procUserW_def cqdev_reset_def Let_def)
  then show ?case by simp
next
  case (Suc n)
  have p: "(2 :: nat) ^ bufferSz \<le> 2 ^ 31" using assms(2) by (intro power_increasing) simp_all
  have "unat (of_nat (16 * n) :: u32) = 16 * n" using Suc.prems p by (intro unat_of_nat_small) simp
  moreover have "unat (2 ^ bufferSz :: u32) = 2 ^ bufferSz"
    using unat_of_nat_small [of "2 ^ bufferSz", where 'a = 32] p by simp
  ultimately have "cq_can_enq bufferSz (cqhw (cq_filled n))"
    using Suc.prems by (simp add: cq_can_enq_def cq_filled_def word_less_nat_alt)
  from hw_enq [OF this] have "cq_step bufferSz (cq_filled n) (cq_filled (Suc n))"
    by (simp add: cq_filled_def cq_serializeEnq_def add.commute)
  then show ?case using Suc by (simp add: rtranclp.rtrancl_into_rtrancl)
qed

lemma cq_overrun:
  assumes "cq_start s" "4 \<le> bufferSz" "bufferSz < 32"
  shows "\<exists>s'. (cq_step bufferSz)\<^sup>*\<^sup>* s s' \<and> cqdeqs s' = [8] \<and> cqwritten s' = cqread s' + 2 ^ bufferSz + 8"
proof -
  have p: "(2 :: nat) ^ bufferSz \<le> 2 ^ 31" "(2 :: nat) ^ 4 \<le> 2 ^ bufferSz"
    using assms(2,3) by (intro power_increasing; simp)+
  obtain n :: nat where n: "2 ^ bufferSz = 16 * n" using le_imp_power_dvd [OF assms(2), of "2 :: nat"] by (auto elim: dvdE)
  let ?s1 = "(cq_filled n)\<lparr>cqsw := \<lparr>readBytes = 8\<rparr>, cqmsgs := [(68, 8)], cqdeqs := [8]\<rparr>"
  let ?s2 = "?s1\<lparr>cqmsgs := [], cqhw := \<lparr>started = True, writeByteCount = of_nat (16 * n), readByteCount = 8\<rparr>\<rparr>"
  let ?s3 = "?s2\<lparr>cqhw := cq_serializeEnq (cqhw ?s2), cqwritten := 16 * n + 16\<rparr>"
  have "(cq_step bufferSz)\<^sup>*\<^sup>* s (cq_filled n)" using n by (intro cq_fills [OF assms(1,3)]) simp
  moreover have "cq_step bufferSz (cq_filled n) ?s1"
    using sw_deq [of 8 "cq_filled n" "\<lparr>readBytes = 8\<rparr>" "[(68, 8)]" bufferSz] n p(2)
    by (simp add: cq_filled_def circq_deq_def cqread_def)
  moreover have "cq_step bufferSz ?s1 ?s2"
    using deliver [of ?s1 "(68, 8)" "[]" bufferSz] by (simp add: cq_filled_def cq_procUserW_def Let_def)
  moreover have "cq_can_enq bufferSz (cqhw ?s2)"
  proof -
    have "(of_nat (16 * n) :: u32) - 8 = of_nat (16 * n - 8)" using n p(2) by (simp add: of_nat_diff)
    moreover have "unat (of_nat (16 * n - 8) :: u32) = 16 * n - 8" using n p by (intro unat_of_nat_small) simp
    moreover have "unat (2 ^ bufferSz :: u32) = 2 ^ bufferSz"
      using unat_of_nat_small [of "2 ^ bufferSz", where 'a = 32] p by simp
    ultimately show ?thesis using n p(2) by (simp add: cq_can_enq_def word_less_nat_alt)
  qed
  then have "cq_step bufferSz ?s2 ?s3" using hw_enq [of bufferSz ?s2] by (simp add: cq_filled_def)
  ultimately have "(cq_step bufferSz)\<^sup>*\<^sup>* s ?s3" by (meson rtranclp.rtrancl_into_rtrancl)
  moreover have "cqdeqs ?s3 = [8]" "cqwritten ?s3 = cqread ?s3 + 2 ^ bufferSz + 8"
    using n by (simp_all add: cqread_def)
  ultimately show ?thesis by blast
qed

end
