(* ===== verification/DramView.thy ===== *)
theory DramView
  imports BdbmConfig
begin

text \<open>
  The hardware that \<open>DRAMHostDMA\<close> drives (\<^verbatim>\<open>dram/src/DRAMHostDMA.bsv\<close>): commands that copy
  between the DMA buffer of the host and the memory of the board, carried out one after
  the other in bursts of 128 bytes, with a counter of those done in each direction. What
  the rest of the hardware makes of other registers is not modelled.
\<close>

text \<open>\<open>copy_bytes src s dst d n\<close> is \<open>dst\<close> after \<open>n\<close> bytes were copied from \<open>src\<close> at \<open>s\<close> to \<open>d\<close>.\<close>

definition copy_bytes :: "mem \<Rightarrow> nat \<Rightarrow> mem \<Rightarrow> nat \<Rightarrow> nat \<Rightarrow> mem" where
  "copy_bytes src s dst d n = (\<lambda>a. if d \<le> a \<and> a < d + n then src (s + (a - d)) else dst a)"

record dmacmd =
  to_host :: bool
  hoff :: nat
  foff :: nat
  left :: nat

record dramview =
  hostmem :: mem
  dram :: mem
  cmds :: "dmacmd list"
  hostMemTemp :: u32
  fpgaMemTemp :: u32
  dramWriteBurstDoneCount :: u32
  dramReadBurstDoneCount :: u32

definition exec :: "dmacmd \<Rightarrow> mem \<times> mem \<Rightarrow> mem \<times> mem" where
  "exec c w = (case w of (h, f) \<Rightarrow>
     if to_host c then (copy_bytes f (foff c) h (hoff c) (left c), f)
     else (h, copy_bytes h (hoff c) f (foff c) (left c)))"

text \<open>One burst of the command at the head; the last one counts it as done.\<close>

definition burst :: "dramview \<Rightarrow> dramview" where
  "burst v =
     (case cmds v of
        [] \<Rightarrow> v
      | c # cs \<Rightarrow>
          if left c = 0 then v\<lparr>cmds := cs\<rparr>
          else (let n = min 128 (left c);
                    (h, f) = exec (c\<lparr>left := n\<rparr>) (hostmem v, dram v);
                    v1 = v\<lparr>hostmem := h, dram := f\<rparr> in
                if left c \<le> 128
                then (if to_host c
                      then v1\<lparr>cmds := cs, dramReadBurstDoneCount := dramReadBurstDoneCount v + 1\<rparr>
                      else v1\<lparr>cmds := cs, dramWriteBurstDoneCount := dramWriteBurstDoneCount v + 1\<rparr>)
                else v1\<lparr>cmds := c\<lparr>hoff := hoff c + n, foff := foff c + n, left := left c - n\<rparr> # cs\<rparr>))"

text \<open>The rules \<open>getCmd\<close>, \<open>procCmd\<close> and \<open>readStat\<close>: commands count pages of 4 KB.\<close>

definition dram_put :: "ioaddr \<times> u32 \<Rightarrow> dramview \<Rightarrow> dramview" where
  "dram_put w v = (case w of (a, d) \<Rightarrow>
     (let off = drop_bit 2 a in
      if off = 256 then v\<lparr>hostMemTemp := d\<rparr>
      else if off = 257 then v\<lparr>fpgaMemTemp := d\<rparr>
      else if off = 258 \<or> off = 259
      then v\<lparr>cmds := cmds v @ [\<lparr>to_host = (off = 259), hoff = unat (push_bit 12 (hostMemTemp v)),
             foff = unat (push_bit 12 (ucast (fpgaMemTemp v) :: u64)), left = unat (push_bit 12 d)\<rparr>]\<rparr>
      else v))"

definition dram_get :: "dramview \<Rightarrow> ioaddr \<Rightarrow> u32" where
  "dram_get v a =
     (if drop_bit 2 a = 256 then dramWriteBurstDoneCount v
      else if drop_bit 2 a = 257 then dramReadBurstDoneCount v else 0)"

text \<open>The two memories once every command has been carried out.\<close>

definition drain :: "dramview \<Rightarrow> mem \<times> mem" where
  "drain v = fold exec (cmds v) (hostmem v, dram v)"

definition done_count :: "bool \<Rightarrow> dramview \<Rightarrow> u32" where
  "done_count k v = (if k then dramReadBurstDoneCount v else dramWriteBurstDoneCount v)"

text \<open>All commands go one way and have something left to copy.\<close>

definition one_way :: "bool \<Rightarrow> dramview \<Rightarrow> bool" where
  "one_way k v \<longleftrightarrow> (\<forall>c\<in>set (cmds v). to_host c = k \<and> 0 < left c)"

definition work :: "dramview \<Rightarrow> nat" where
  "work v = (\<Sum>c\<leftarrow>cmds v. left c div 128 + 1)"

lemma copy_bytes_zero [simp]: "copy_bytes src s dst d 0 = dst"
  by (auto simp: copy_bytes_def fun_eq_iff)

lemma copy_bytes_split:
  "copy_bytes src (s + n) (copy_bytes src s dst d n) (d + n) m = copy_bytes src s dst d (n + m)"
  by (auto simp: copy_bytes_def fun_eq_iff)

lemma copy_bytes_apply:
  "copy_bytes src s dst d n a = (if d \<le> a \<and> a < d + n then src (s + (a - d)) else dst a)"
  by (simp add: copy_bytes_def)

lemma exec_split:
  assumes "n \<le> left c"
  shows "exec (c\<lparr>hoff := hoff c + n, foff := foff c + n, left := left c - n\<rparr>) (exec (c\<lparr>left := n\<rparr>) w) = exec c w"
  using assms copy_bytes_split [where n = n and m = "left c - n"]
  by (cases w) (simp add: exec_def)

lemma exec_none: "left c = 0 \<Longrightarrow> exec c w = w"
  by (cases w) (simp add: exec_def)

lemma burst_nil: "cmds v = [] \<Longrightarrow> burst v = v"
  by (simp add: burst_def)

lemma burst_cases:
  assumes "cmds v = c # cs"
  obtains (none) "left c = 0" "burst v = v\<lparr>cmds := cs\<rparr>"
  | (last) h f where "0 < left c" "left c \<le> 128" "exec c (hostmem v, dram v) = (h, f)"
    "hostmem (burst v) = h" "dram (burst v) = f" "cmds (burst v) = cs"
    "done_count (to_host c) (burst v) = done_count (to_host c) v + 1"
    "done_count (\<not> to_host c) (burst v) = done_count (\<not> to_host c) v"
  | (more) h f where "128 < left c" "exec (c\<lparr>left := 128\<rparr>) (hostmem v, dram v) = (h, f)"
    "burst v = v\<lparr>hostmem := h, dram := f,
       cmds := c\<lparr>hoff := hoff c + 128, foff := foff c + 128, left := left c - 128\<rparr> # cs\<rparr>"
proof -
  consider "left c = 0" | "0 < left c" "left c \<le> 128" | "128 < left c" by linarith
  then show thesis
  proof cases
    case 1
    then show ?thesis using assms by (intro none) (simp_all add: burst_def)
  next
    case 2
    obtain h f where e: "exec c (hostmem v, dram v) = (h, f)" by (cases "exec c (hostmem v, dram v)")
    have [simp]: "min 128 (left c) = left c" "c\<lparr>left := left c\<rparr> = c" using 2 by (cases c, simp)+
    show ?thesis using 2 assms e by (intro last) (simp_all add: burst_def done_count_def Let_def)
  next
    case 3
    obtain h f where e: "exec (c\<lparr>left := 128\<rparr>) (hostmem v, dram v) = (h, f)"
      by (cases "exec (c\<lparr>left := 128\<rparr>) (hostmem v, dram v)")
    have [simp]: "min 128 (left c) = 128" using 3 by simp
    show ?thesis using 3 assms e by (intro more) (simp_all add: burst_def)
  qed
qed

lemma burst_drain [simp]: "drain (burst v) = drain v"
proof (cases "cmds v")
  case Nil
  then show ?thesis by (simp add: burst_nil)
next
  case (Cons c cs)
  then show ?thesis
  proof (cases rule: burst_cases)
    case none
    then show ?thesis using Cons by (simp add: drain_def exec_none)
  next
    case (last h f)
    then show ?thesis using Cons by (simp add: drain_def)
  next
    case (more h f)
    then show ?thesis
      using Cons exec_split [of 128 c "(hostmem v, dram v)"] by (simp add: drain_def)
  qed
qed

lemma burst_args [simp]: "hostMemTemp (burst v) = hostMemTemp v" "fpgaMemTemp (burst v) = fpgaMemTemp v"
  by (auto simp: burst_def Let_def split: list.splits prod.splits)

lemma burst_one_way: "one_way k v \<Longrightarrow> one_way k (burst v)"
proof (cases "cmds v")
  case Nil
  then show "one_way k v \<Longrightarrow> ?thesis" by (simp add: burst_nil)
next
  case (Cons c cs)
  then show "one_way k v \<Longrightarrow> ?thesis"
    by (cases rule: burst_cases) (auto simp: one_way_def Cons)
qed

lemma burst_work: "cmds v \<noteq> [] \<Longrightarrow> work (burst v) < work v"
proof (cases "cmds v")
  case (Cons c cs)
  then show ?thesis
  proof (cases rule: burst_cases)
    case (more h f)
    then have "left c div 128 = Suc ((left c - 128) div 128)" by simp
    then show ?thesis using Cons more by (simp add: work_def)
  qed (simp_all add: work_def Cons)
qed simp

text \<open>Counting: a command is pending or done.\<close>

lemma burst_count:
  assumes "one_way k v" "unat (done_count k v) + length (cmds v) < 2 ^ 32"
  shows "unat (done_count k (burst v)) + length (cmds (burst v)) = unat (done_count k v) + length (cmds v)"
proof (cases "cmds v")
  case Nil
  then show ?thesis by (simp add: burst_nil)
next
  case (Cons c cs)
  then have k: "to_host c = k" "0 < left c" using assms(1) by (simp_all add: one_way_def)
  from Cons show ?thesis
  proof (cases rule: burst_cases)
    case none
    then show ?thesis using k by simp
  next
    case (last h f)
    have "unat (done_count k v + 1) = unat (done_count k v) + 1"
      using assms(2) Cons by (intro unat_add_one_small) simp
    then show ?thesis using last k Cons by simp
  next
    case (more h f)
    then show ?thesis using Cons by (simp add: done_count_def)
  qed
qed

text \<open>The memory a command only reads stays, and it writes only where it should.\<close>

lemma burst_hostmem_stays: "one_way False v \<Longrightarrow> hostmem (burst v) = hostmem v"
proof (cases "cmds v")
  case (Cons c cs)
  then show "one_way False v \<Longrightarrow> ?thesis"
    by (cases rule: burst_cases) (auto simp: one_way_def exec_def Cons split: if_splits)
qed (simp add: burst_nil)

lemma burst_dram_stays: "one_way True v \<Longrightarrow> dram (burst v) = dram v"
proof (cases "cmds v")
  case (Cons c cs)
  then show "one_way True v \<Longrightarrow> ?thesis"
    by (cases rule: burst_cases) (auto simp: one_way_def exec_def Cons split: if_splits)
qed (simp add: burst_nil)

subsection \<open>Any number of bursts\<close>

abbreviation bursts :: "nat \<Rightarrow> dramview \<Rightarrow> dramview" where
  "bursts n \<equiv> burst ^^ n"

lemma bursts_drain [simp]: "drain (bursts n v) = drain v"
  by (induction n) simp_all

lemma bursts_args [simp]: "hostMemTemp (bursts n v) = hostMemTemp v" "fpgaMemTemp (bursts n v) = fpgaMemTemp v"
  by (induction n) simp_all

lemma bursts_one_way: "one_way k v \<Longrightarrow> one_way k (bursts n v)"
  by (induction n) (simp_all add: burst_one_way)

lemma bursts_count:
  assumes "one_way k v" "unat (done_count k v) + length (cmds v) < 2 ^ 32"
  shows "unat (done_count k (bursts n v)) + length (cmds (bursts n v)) = unat (done_count k v) + length (cmds v)"
proof (induction n)
  case (Suc n)
  have "unat (done_count k (bursts n v)) + length (cmds (bursts n v)) < 2 ^ 32" using Suc assms(2) by simp
  from burst_count [OF bursts_one_way [OF assms(1)] this] Suc show ?case by simp
qed simp

lemma bursts_hostmem_stays: "one_way False v \<Longrightarrow> hostmem (bursts n v) = hostmem v"
  by (induction n) (simp_all add: burst_hostmem_stays bursts_one_way)

lemma bursts_dram_stays: "one_way True v \<Longrightarrow> dram (bursts n v) = dram v"
  by (induction n) (simp_all add: burst_dram_stays bursts_one_way)

lemma burst_other_count: "one_way k v \<Longrightarrow> done_count (\<not> k) (burst v) = done_count (\<not> k) v"
proof (cases "cmds v")
  case (Cons c cs)
  then show "one_way k v \<Longrightarrow> ?thesis"
    by (cases rule: burst_cases) (auto simp: one_way_def Cons done_count_def)
qed (simp add: burst_nil)

lemma bursts_other_count: "one_way k v \<Longrightarrow> done_count (\<not> k) (bursts n v) = done_count (\<not> k) v"
  by (induction n) (simp_all add: burst_other_count bursts_one_way)

text \<open>What every pending command stays within: a part \<open>[lo, hi)\<close> of the DMA buffer.\<close>

definition cmd_in :: "nat \<Rightarrow> nat \<Rightarrow> dmacmd \<Rightarrow> bool" where
  "cmd_in lo hi c \<longleftrightarrow> lo \<le> hoff c \<and> hoff c + left c \<le> hi"

text \<open>The list after some bursts: a suffix of the old one, its head perhaps advanced.\<close>

lemma bursts_last:
  assumes "cmds v = cs @ [c]" "cmd_in lo hi c"
  shows "cmds (bursts n v) = [] \<or> (\<exists>cs' c'. cmds (bursts n v) = cs' @ [c'] \<and> cmd_in lo hi c')"
proof (induction n)
  case 0
  then show ?case using assms by simp
next
  case (Suc n)
  let ?v = "bursts n v"
  consider "cmds ?v = []" | cs' c' where "cmds ?v = cs' @ [c']" "cmd_in lo hi c'" using Suc by auto
  then show ?case
  proof cases
    case 1
    then show ?thesis by (simp add: burst_nil)
  next
    case 2
    show ?thesis
    proof (cases cs')
      case Nil
      then have "cmds ?v = c' # []" using 2 by simp
      then show ?thesis
        using 2(2) by (cases rule: burst_cases) (auto simp: cmd_in_def)
    next
      case (Cons x xs)
      then have "cmds ?v = x # xs @ [c']" using 2 by simp
      then show ?thesis
        using 2(2) by (cases rule: burst_cases) (auto simp: Cons)
    qed
  qed
qed

text \<open>Commands that go to the board leave the DMA buffer alone, and depend on it only where they read.\<close>

lemma fold_exec_to_board:
  assumes "\<forall>c\<in>set cs. \<not> to_host c"
  shows "fst (fold exec cs (h, f)) = h"
  using assms by (induction cs arbitrary: f) (auto simp: exec_def)

lemma fold_exec_to_board_cong:
  assumes "\<forall>c\<in>set cs. \<not> to_host c \<and> cmd_in lo hi c" "\<And>a. lo \<le> a \<Longrightarrow> a < hi \<Longrightarrow> h' a = h a"
  shows "snd (fold exec cs (h', f)) = snd (fold exec cs (h, f))"
  using assms(1)
proof (induction cs arbitrary: f)
  case (Cons c cs)
  have "copy_bytes h' (hoff c) f (foff c) (left c) = copy_bytes h (hoff c) f (foff c) (left c)"
    using Cons.prems assms(2) by (auto simp: copy_bytes_def fun_eq_iff cmd_in_def)
  then show ?case using Cons by (simp add: exec_def)
qed simp

text \<open>Commands that go to the host leave the board alone, and the DMA buffer outside their parts.\<close>

lemma fold_exec_to_host:
  assumes "\<forall>c\<in>set cs. to_host c"
  shows "snd (fold exec cs (h, f)) = f"
  using assms by (induction cs arbitrary: h) (auto simp: exec_def)

lemma fold_exec_outside:
  assumes "\<forall>c\<in>set cs. to_host c \<and> cmd_in lo hi c" "a < lo \<or> hi \<le> a"
  shows "fst (fold exec cs (h, f)) a = h a"
  using assms(1)
proof (induction cs arbitrary: h)
  case (Cons c cs)
  have "copy_bytes f (foff c) h (hoff c) (left c) a = h a"
    using Cons.prems assms(2) by (auto simp: copy_bytes_def cmd_in_def)
  then show ?case using Cons by (simp add: exec_def)
qed simp

text \<open>Bursts and register writes: a write adds at the far end of the list.\<close>

lemma dram_put_cmds: "\<exists>cs. cmds (dram_put w v) = cmds v @ cs"
  by (cases w) (simp add: dram_put_def Let_def)

lemma burst_dram_put:
  assumes "cmds v \<noteq> []"
  shows "burst (dram_put w v) = dram_put w (burst v)"
proof -
  obtain c cs where c: "cmds v = c # cs" using assms by (cases "cmds v") auto
  then show ?thesis
    by (cases w) (auto simp: dram_put_def burst_def Let_def exec_def split: prod.splits)
qed

lemma burst_dram_puts:
  "\<exists>n'. fold dram_put ws (burst v) = bursts n' (fold dram_put ws v)"
proof (cases "cmds v = []")
  case True
  then show ?thesis by (intro exI [of _ 0]) (simp add: burst_nil)
next
  case False
  have "fold dram_put ws (burst v) = burst (fold dram_put ws v)" using False
  proof (induction ws arbitrary: v)
    case (Cons w ws)
    then have "cmds (dram_put w v) \<noteq> []" using dram_put_cmds [of w v] by auto
    then show ?case using Cons by (simp add: burst_dram_put [symmetric])
  qed simp
  then show ?thesis by (intro exI [of _ 1]) simp
qed

lemma bursts_dram_puts:
  "\<exists>n'. fold dram_put ws (bursts n v) = bursts n' (fold dram_put ws v)"
proof (induction n)
  case 0
  then show ?case by (intro exI [of _ 0]) simp
next
  case (Suc n)
  then obtain n1 where n1: "fold dram_put ws (bursts n v) = bursts n1 (fold dram_put ws v)" by blast
  obtain n2 where "fold dram_put ws (burst (bursts n v)) = bursts n2 (fold dram_put ws (bursts n v))"
    using burst_dram_puts by blast
  then have "fold dram_put ws (bursts (Suc n) v) = bursts (n2 + n1) (fold dram_put ws v)"
    by (simp add: n1 funpow_add)
  then show ?case by blast
qed

lemma bursts_work: "work (bursts n v) \<le> work v"
proof (induction n)
  case (Suc n)
  have "work (burst x) \<le> work x" for x using burst_work [of x] burst_nil [of x] by (cases "cmds x = []") auto
  from le_trans [OF this [of "bursts n v"] Suc] show ?case by simp
qed simp

subsection \<open>Register writes and what they leave alone\<close>

lemma dram_put_arg:
  assumes "drop_bit 2 a = 256 \<or> drop_bit 2 a = 257"
  shows "drain (dram_put (a, d) v) = drain v" "cmds (dram_put (a, d) v) = cmds v"
    "hostmem (dram_put (a, d) v) = hostmem v" "dram (dram_put (a, d) v) = dram v"
    "done_count k (dram_put (a, d) v) = done_count k v" "one_way k (dram_put (a, d) v) = one_way k v"
    "drop_bit 2 a = 256 \<Longrightarrow> hostMemTemp (dram_put (a, d) v) = d \<and> fpgaMemTemp (dram_put (a, d) v) = fpgaMemTemp v"
    "drop_bit 2 a = 257 \<Longrightarrow> fpgaMemTemp (dram_put (a, d) v) = d \<and> hostMemTemp (dram_put (a, d) v) = hostMemTemp v"
  using assms by (auto simp: dram_put_def drain_def done_count_def one_way_def)

lemma dram_put_cmd:
  assumes "drop_bit 2 a = (if k then 259 else 258)"
    and "c = \<lparr>to_host = k, hoff = unat (push_bit 12 (hostMemTemp v)),
      foff = unat (push_bit 12 (ucast (fpgaMemTemp v) :: u64)), left = unat (push_bit 12 d)\<rparr>"
  shows "dram_put (a, d) v = v\<lparr>cmds := cmds v @ [c]\<rparr>"
  using assms by (auto simp: dram_put_def Let_def split: if_splits)

lemma drain_append: "drain (v\<lparr>cmds := cmds v @ [c]\<rparr>) = exec c (drain v)"
  by (simp add: drain_def)

lemma drain_done: "cmds v = [] \<Longrightarrow> drain v = (hostmem v, dram v)"
  by (simp add: drain_def)

end
