(* ===== verification/DRAMHostDMA.thy ===== *)
theory DRAMHostDMA
  imports DramView PioPort "HOL-Library.Monad_Syntax"
begin

text \<open>
  The library \<open>DRAMHostDMA\<close> (\<^verbatim>\<open>cpp/DRAMHostDMA.h\<close>, \<^verbatim>\<open>cpp/DRAMHostDMA.cpp\<close>): copies between a buffer
  of the caller and the memory of the board, through the two halves of a 1 MB window of
  the DMA buffer. \<open>uw\<close> and \<open>ur\<close> are \<open>userWriteWord\<close> and \<open>userReadWord\<close> of \<open>BdbmPcie\<close>,
  \<open>dma\<close> the DMA buffer and \<open>dma_upd\<close> a change of it. The caller's buffer is a function from
  offsets to bytes. \<open>None\<close> is a call that does not return.
\<close>

record hostdma =
  m_write_done_total :: u32
  m_read_done_total :: u32

definition m_host_mem_arg :: u32 where "m_host_mem_arg = 256 * 4"
definition m_fpga_mem_arg :: u32 where "m_fpga_mem_arg = 257 * 4"
definition m_fpga_write_stat_off :: u32 where "m_fpga_write_stat_off = 256 * 4"
definition m_fpga_read_stat_off :: u32 where "m_fpga_read_stat_off = 257 * 4"
definition m_to_fpga_cmd :: u32 where "m_to_fpga_cmd = 258 * 4"
definition m_to_host_cmd :: u32 where "m_to_host_cmd = 259 * 4"
definition m_fpga_alignment :: u64 where "m_fpga_alignment = 4 * 1024"
definition m_max_dma_bytes :: u64 where "m_max_dma_bytes = 1024 * 1024"

definition fill_bytes :: "u8 \<Rightarrow> mem \<Rightarrow> nat \<Rightarrow> nat \<Rightarrow> mem" where
  "fill_bytes b dst d n = (\<lambda>a. if d \<le> a \<and> a < d + n then b else dst a)"

definition DRAMHostDMA_init :: "(u32 \<Rightarrow> 's \<Rightarrow> (u32 \<times> 's) option) \<Rightarrow> 's \<Rightarrow> (hostdma \<times> 's) option" where
  "DRAMHostDMA_init ur s = do {
     (w, s1) \<leftarrow> ur m_fpga_write_stat_off s;
     (r, s2) \<leftarrow> ur m_fpga_read_stat_off s1;
     Some (\<lparr>m_write_done_total = w, m_read_done_total = r\<rparr>, s2)
   }"

text \<open>The waiting loops: read the counter until it is at least \<open>target\<close>, compared at 64 bits.\<close>

definition poll_count :: "(u32 \<Rightarrow> 's \<Rightarrow> (u32 \<times> 's) option) \<Rightarrow> u32 \<Rightarrow> u64 \<Rightarrow> 's \<Rightarrow> (u32 \<times> 's) option" where
  "poll_count ur off target s =
     (case while_option (\<lambda>r. case r of None \<Rightarrow> False | Some (cnt, s) \<Rightarrow> (ucast cnt :: u64) < target)
             (\<lambda>r. case r of None \<Rightarrow> None | Some (cnt, s) \<Rightarrow> ur off s) (ur off s) of
        None \<Rightarrow> None | Some r \<Rightarrow> r)"

text \<open>The start of both copies: the aligned offset, the rounded length, the number of chunks.\<close>

definition align_offset :: "u64 \<Rightarrow> u64" where
  "align_offset offset =
     (let offset_frag = offset mod m_fpga_alignment in
      if offset_frag \<noteq> 0 then (offset div m_fpga_alignment) * m_fpga_alignment else offset)"

definition round_bytes :: "u64 \<Rightarrow> u64" where
  "round_bytes bytes =
     (let bytes_frag = bytes mod m_fpga_alignment in
      if bytes_frag \<noteq> 0 then (bytes div m_fpga_alignment + 1) * m_fpga_alignment else bytes)"

definition chunk_count :: "u64 \<Rightarrow> u64" where
  "chunk_count bytes =
     (if bytes mod (m_max_dma_bytes div 2) \<noteq> 0 then bytes div (m_max_dma_bytes div 2) + 1
      else bytes div (m_max_dma_bytes div 2))"

text \<open>The loop of \<open>CopyToFPGA\<close>, \<open>n\<close> iterations left from \<open>i\<close> on.\<close>

fun to_fpga_loop ::
  "(u32 \<Rightarrow> u32 \<Rightarrow> 's \<Rightarrow> 's option) \<Rightarrow> (u32 \<Rightarrow> 's \<Rightarrow> (u32 \<times> 's) option) \<Rightarrow> ((mem \<Rightarrow> mem) \<Rightarrow> 's \<Rightarrow> 's)
    \<Rightarrow> u32 \<Rightarrow> mem \<Rightarrow> nat \<Rightarrow> u64 \<Rightarrow> u64 \<Rightarrow> u64 \<Rightarrow> u64 \<Rightarrow> u64 \<Rightarrow> 's \<Rightarrow> 's option" where
  "to_fpga_loop uw ur dma_upd tot buffer 0 i host_offset offset bytes src_bytes s = Some s"
| "to_fpga_loop uw ur dma_upd tot buffer (Suc n) i host_offset offset bytes src_bytes s =
     (let curbyte = (if m_max_dma_bytes div 2 > bytes then bytes else m_max_dma_bytes div 2);
          bufoff = (if i mod 2 \<noteq> 0 then m_max_dma_bytes div 2 else 0);
          s1 = (if src_bytes < curbyte
                then dma_upd (\<lambda>m. fill_bytes 0xFF
                       (copy_bytes buffer (unat host_offset) m (unat bufoff) (unat src_bytes))
                       (unat (bufoff + src_bytes)) (unat (curbyte - src_bytes))) s
                else dma_upd (\<lambda>m. copy_bytes buffer (unat host_offset) m (unat bufoff) (unat curbyte)) s);
          hostpageoff = bufoff div m_fpga_alignment;
          pages = curbyte div m_fpga_alignment;
          pageoff = offset div m_fpga_alignment
      in do {
        s2 \<leftarrow> uw m_host_mem_arg (ucast hostpageoff) s1;
        s3 \<leftarrow> uw m_fpga_mem_arg (ucast pageoff) s2;
        s4 \<leftarrow> uw m_to_fpga_cmd (ucast pages) s3;
        (writecnt, s5) \<leftarrow> poll_count ur m_fpga_write_stat_off (ucast tot + i) s4;
        to_fpga_loop uw ur dma_upd tot buffer n (i + 1) (host_offset + curbyte) (offset + curbyte)
          (bytes - curbyte) (src_bytes - curbyte) s5
      })"

definition CopyToFPGA ::
  "(u32 \<Rightarrow> u32 \<Rightarrow> 's \<Rightarrow> 's option) \<Rightarrow> (u32 \<Rightarrow> 's \<Rightarrow> (u32 \<times> 's) option) \<Rightarrow> ((mem \<Rightarrow> mem) \<Rightarrow> 's \<Rightarrow> 's)
    \<Rightarrow> u64 \<Rightarrow> mem \<Rightarrow> u64 \<Rightarrow> hostdma \<times> 's \<Rightarrow> (hostdma \<times> 's) option" where
  "CopyToFPGA uw ur dma_upd offset buffer bytes qs = (case qs of (q, s) \<Rightarrow>
     (let bytes1 = round_bytes bytes; writes_cnt = chunk_count bytes1 in do {
        s1 \<leftarrow> to_fpga_loop uw ur dma_upd (m_write_done_total q) buffer (unat writes_cnt) 0 0
                (align_offset offset) bytes1 bytes s;
        (writecnt, s2) \<leftarrow> poll_count ur m_fpga_write_stat_off (ucast (m_write_done_total q) + writes_cnt) s1;
        Some (q\<lparr>m_write_done_total := writecnt\<rparr>, s2)
      }))"

text \<open>The loop of \<open>CopyFromFPGA\<close>; it returns the caller's buffer, \<open>host_offset\<close> and \<open>dst_bytes\<close> too.\<close>

fun from_fpga_loop ::
  "(u32 \<Rightarrow> u32 \<Rightarrow> 's \<Rightarrow> 's option) \<Rightarrow> (u32 \<Rightarrow> 's \<Rightarrow> (u32 \<times> 's) option) \<Rightarrow> ('s \<Rightarrow> mem)
    \<Rightarrow> u32 \<Rightarrow> nat \<Rightarrow> u64 \<Rightarrow> u64 \<Rightarrow> u64 \<Rightarrow> u64 \<Rightarrow> u64 \<Rightarrow> u64 \<Rightarrow> mem \<Rightarrow> 's \<Rightarrow> (u64 \<times> u64 \<times> mem \<times> 's) option" where
  "from_fpga_loop uw ur dma tot 0 i host_offset offset bytes dst_bytes lastbyte buffer s =
     Some (host_offset, dst_bytes, buffer, s)"
| "from_fpga_loop uw ur dma tot (Suc n) i host_offset offset bytes dst_bytes lastbyte buffer s =
     (let curbyte = (if m_max_dma_bytes div 2 > bytes then bytes else m_max_dma_bytes div 2);
          hostbufoff = (if i mod 2 \<noteq> 0 then m_max_dma_bytes div 2 else 0);
          hostpageoff = hostbufoff div m_fpga_alignment;
          pages = curbyte div m_fpga_alignment;
          pageoff = offset div m_fpga_alignment
      in do {
        s2 \<leftarrow> uw m_host_mem_arg (ucast hostpageoff) s;
        s3 \<leftarrow> uw m_fpga_mem_arg (ucast pageoff) s2;
        s4 \<leftarrow> uw m_to_host_cmd (ucast pages) s3;
        (readcnt, s5) \<leftarrow> poll_count ur m_fpga_read_stat_off (ucast tot + i) s4;
        (let bufoff = (if i mod 2 = 0 then m_max_dma_bytes div 2 else 0);
             (host_offset1, dst_bytes1, buffer1) =
               (if i > 0
                then (host_offset + lastbyte, dst_bytes - lastbyte,
                      copy_bytes (dma s5) (unat bufoff) buffer (unat host_offset) (unat lastbyte))
                else (host_offset, dst_bytes, buffer))
         in from_fpga_loop uw ur dma tot n (i + 1) host_offset1 (offset + curbyte) (bytes - curbyte)
              dst_bytes1 curbyte buffer1 s5)
      })"

definition CopyFromFPGA ::
  "(u32 \<Rightarrow> u32 \<Rightarrow> 's \<Rightarrow> 's option) \<Rightarrow> (u32 \<Rightarrow> 's \<Rightarrow> (u32 \<times> 's) option) \<Rightarrow> ('s \<Rightarrow> mem)
    \<Rightarrow> u64 \<Rightarrow> mem \<Rightarrow> u64 \<Rightarrow> hostdma \<times> 's \<Rightarrow> (mem \<times> hostdma \<times> 's) option" where
  "CopyFromFPGA uw ur dma offset buffer bytes qs = (case qs of (q, s) \<Rightarrow>
     (let bytes1 = round_bytes bytes; reads_cnt = chunk_count bytes1 in do {
        (host_offset, dst_bytes, buffer1, s1) \<leftarrow>
          from_fpga_loop uw ur dma (m_read_done_total q) (unat reads_cnt) 0 0 (align_offset offset) bytes1
            bytes 0 buffer s;
        (readcnt, s2) \<leftarrow> poll_count ur m_fpga_read_stat_off (ucast (m_read_done_total q) + reads_cnt) s1;
        (let bufoff = (if reads_cnt mod 2 = 0 then m_max_dma_bytes div 2 else 0);
             buffer2 =
               (if dst_bytes \<ge> m_max_dma_bytes div 2
                then copy_bytes (dma s2) (unat bufoff) buffer1 (unat host_offset) (unat (m_max_dma_bytes div 2))
                else fill_bytes 0xff
                       (copy_bytes (dma s2) (unat bufoff) buffer1 (unat host_offset) (unat dst_bytes))
                       (unat (host_offset + dst_bytes)) (unat (m_max_dma_bytes div 2 - dst_bytes)))
         in Some (buffer2, q\<lparr>m_read_done_total := readcnt\<rparr>, s2))
      }))"

lemmas dram_regs = m_host_mem_arg_def m_fpga_mem_arg_def m_fpga_write_stat_off_def
  m_fpga_read_stat_off_def m_to_fpga_cmd_def m_to_host_cmd_def

end
