(* ===== verification/DramPort.thy ===== *)
theory DramPort
  imports DRAMHostDMA
begin

text \<open>
  What \<open>DRAMHostDMA\<close> needs of the port below it, and what its copies then do. \<open>vw\<close> is the
  hardware as the software has commanded it; it may run any number of bursts before and
  after each access. \<open>todo\<close> bounds what is still to be done: while a command is pending,
  looking at a counter brings the hardware nearer to its end.
\<close>

abbreviation HB :: nat where "HB \<equiv> 524288"

abbreviation PG :: nat where "PG \<equiv> 4096"

definition hb :: "nat \<Rightarrow> nat" where
  "hb i = (if i mod 2 = 0 then 0 else HB)"

locale dram_port =
  fixes uw :: "u32 \<Rightarrow> u32 \<Rightarrow> 's \<Rightarrow> 's option"
    and ur :: "u32 \<Rightarrow> 's \<Rightarrow> (u32 \<times> 's) option"
    and dma :: "'s \<Rightarrow> mem"
    and dma_upd :: "(mem \<Rightarrow> mem) \<Rightarrow> 's \<Rightarrow> 's"
    and good :: "'s \<Rightarrow> bool"
    and vw :: "'s \<Rightarrow> dramview"
    and todo :: "'s \<Rightarrow> nat"
  assumes uw_law: "good s \<Longrightarrow> user_word a \<Longrightarrow>
      \<exists>s' n. uw a d s = Some s' \<and> good s' \<and> vw s' = dram_put (ucast a, d) (bursts n (vw s))"
    and ur_law: "good s \<Longrightarrow> a = 1024 \<or> a = 1028 \<Longrightarrow>
      \<exists>s' n. ur a s = Some (dram_get (vw s') (ucast a), s') \<and> good s' \<and> vw s' = bursts n (vw s)
        \<and> (cmds (vw s) \<noteq> [] \<longrightarrow> todo s' < todo s)"
    and dma_law: "good s \<Longrightarrow> dma s = hostmem (vw s)"
    and upd_law: "good s \<Longrightarrow> good (dma_upd f s) \<and> vw (dma_upd f s) = (vw s)\<lparr>hostmem := f (hostmem (vw s))\<rparr>"
begin

text \<open>Waiting for a counter that the pending commands will bring to its target.\<close>

lemma poll_count_returns:
  assumes g: "good s" and k: "one_way k (vw s)"
    and t: "unat (done_count k (vw s)) + length (cmds (vw s)) < 2 ^ 32"
    and target: "unat target \<le> unat (done_count k (vw s)) + length (cmds (vw s))"
    and off: "off = (if k then 1028 else 1024)"
  shows "\<exists>c s' n. poll_count ur off target s = Some (c, s') \<and> good s' \<and> vw s' = bursts n (vw s)
    \<and> c = done_count k (vw s') \<and> unat target \<le> unat c"
proof -
  let ?P = "\<lambda>r. \<exists>c s' n. r = Some (c, s') \<and> good s' \<and> vw s' = bursts n (vw s) \<and> c = done_count k (vw s')"
  let ?b = "\<lambda>r. case r of None \<Rightarrow> False | Some (cnt, s) \<Rightarrow> (ucast cnt :: u64) < target"
  let ?c = "\<lambda>r. case r of None \<Rightarrow> None | Some (cnt, s) \<Rightarrow> ur off s"
  have val: "dram_get v (ucast off) = done_count k v" for v
    using off by (simp add: dram_get_def done_count_def)
  have step: "\<exists>c s2 n. ur off s1 = Some (c, s2) \<and> good s2 \<and> vw s2 = bursts n (vw s1) \<and> c = done_count k (vw s2)
      \<and> (cmds (vw s1) \<noteq> [] \<longrightarrow> todo s2 < todo s1)" if "good s1" for s1
    using ur_law [OF that, of off] off val by fastforce
  have "\<exists>r. while_option ?b ?c (ur off s) = Some r \<and> ?P r \<and> \<not> ?b r"
  proof (rule poll_returns [where f = "\<lambda>r. case r of None \<Rightarrow> 0 | Some (c, s) \<Rightarrow> todo s"])
    show "?P (ur off s)" using step [OF g] by blast
  next
    fix r assume "?P r" and b: "?b r"
    then obtain c s1 n where r: "r = Some (c, s1)" "good s1" "vw s1 = bursts n (vw s)" "c = done_count k (vw s1)"
      by blast
    have "unat c < unat target" using b r(1) by (simp add: word_less_nat_alt)
    then have "cmds (vw s1) \<noteq> []" using bursts_count [OF k t, of n] target r(3,4) by auto
    then obtain c2 s2 m where s2: "ur off s1 = Some (c2, s2)" "good s2" "vw s2 = bursts m (vw s1)"
      "c2 = done_count k (vw s2)" "todo s2 < todo s1"
      using step [OF r(2)] by blast
    have "vw s2 = bursts (m + n) (vw s)" using s2(3) r(3) by (simp add: funpow_add)
    then show "?P (?c r) \<and> (case ?c r of None \<Rightarrow> 0 | Some (c, s) \<Rightarrow> todo s)
        < (case r of None \<Rightarrow> 0 | Some (c, s) \<Rightarrow> todo s)"
      using r(1) s2 by auto
  qed
  then obtain c s' n where "while_option ?b ?c (ur off s) = Some (Some (c, s'))" "good s'"
    "vw s' = bursts n (vw s)" "c = done_count k (vw s')" "\<not> (ucast c :: u64) < target"
    by auto
  moreover from this(5) have "unat target \<le> unat c"
    by (simp add: not_less word_le_nat_alt)
  ultimately show ?thesis by (auto simp: poll_count_def)
qed

text \<open>The three writes that give a command.\<close>

lemma issue_cmd:
  assumes g: "good s" and k: "one_way k (vw s)" and pos: "0 < left c"
    and t: "unat (done_count k (vw s)) + length (cmds (vw s)) < 2 ^ 32"
    and c: "c = \<lparr>to_host = k, hoff = unat (push_bit 12 hp), foff = unat (push_bit 12 (ucast fp :: u64)),
      left = unat (push_bit 12 pages)\<rparr>"
    and a: "a = (if k then 1036 else 1032)"
  shows "\<exists>s2 s3 s4. uw 1024 hp s = Some s2 \<and> uw 1028 fp s2 = Some s3 \<and> uw a pages s3 = Some s4 \<and> good s4
    \<and> one_way k (vw s4) \<and> (\<exists>cs. cmds (vw s4) = cs @ [c]) \<and> drain (vw s4) = exec c (drain (vw s))
    \<and> unat (done_count k (vw s4)) + length (cmds (vw s4)) = unat (done_count k (vw s)) + length (cmds (vw s)) + 1
    \<and> (\<not> k \<longrightarrow> hostmem (vw s4) = hostmem (vw s)) \<and> (k \<longrightarrow> dram (vw s4) = dram (vw s))
    \<and> done_count (\<not> k) (vw s4) = done_count (\<not> k) (vw s)"
proof -
  obtain s2 n2 where s2: "uw 1024 hp s = Some s2" "good s2" "vw s2 = dram_put (1024, hp) (bursts n2 (vw s))"
    using uw_law [OF g, of 1024 hp] by (auto simp: user_word_def)
  obtain s3 n3 where s3: "uw 1028 fp s2 = Some s3" "good s3" "vw s3 = dram_put (1028, fp) (bursts n3 (vw s2))"
    using uw_law [OF s2(2), of 1028 fp] by (auto simp: user_word_def)
  have ua: "user_word a" using a by (simp add: user_word_def)
  obtain s4 n4 where s4: "uw a pages s3 = Some s4" "good s4"
    "vw s4 = dram_put (ucast a, pages) (bursts n4 (vw s3))"
    using uw_law [OF s3(2) ua, of pages] by auto
  note p2 = dram_put_arg [where a = 1024 and d = hp and v = "bursts n2 (vw s)", simplified]
  note p3 = dram_put_arg [where a = 1028 and d = fp and v = "bursts n3 (vw s2)", simplified]
  have k2: "one_way k (vw s2)" using s2(3) p2 bursts_one_way [OF k] by simp
  have k3: "one_way k (vw s3)" using s3(3) p3 bursts_one_way [OF k2] by simp
  have t2: "unat (done_count k (vw s2)) + length (cmds (vw s2)) = unat (done_count k (vw s)) + length (cmds (vw s))"
    using bursts_count [OF k t, of n2] p2 s2(3) by simp
  have t3: "unat (done_count k (vw s3)) + length (cmds (vw s3)) = unat (done_count k (vw s)) + length (cmds (vw s))"
    using bursts_count [OF k2, of n3] p3 s3(3) t2 t by simp
  let ?v = "bursts n4 (vw s3)"
  have kv: "one_way k ?v" by (rule bursts_one_way [OF k3])
  have tv: "unat (done_count k ?v) + length (cmds ?v) = unat (done_count k (vw s)) + length (cmds (vw s))"
    using bursts_count [OF k3, of n4] t3 t by simp
  have args: "hostMemTemp ?v = hp" "fpgaMemTemp ?v = fp" using s2(3) s3(3) p2 p3 by simp_all
  have v4: "vw s4 = ?v\<lparr>cmds := cmds ?v @ [c]\<rparr>"
    unfolding s4(3) by (rule dram_put_cmd [of _ k]) (use a args c in simp_all)
  have dr: "drain ?v = drain (vw s)" using s2(3) s3(3) p2 p3 by simp
  have other: "done_count (\<not> k) (vw s4) = done_count (\<not> k) (vw s)"
    using bursts_other_count [OF k, of n2] bursts_other_count [OF k2, of n3]
      bursts_other_count [OF k3, of n4] s2(3) s3(3) p2 p3 v4 by (simp add: done_count_def split: if_splits)
  have "hostmem ?v = hostmem (vw s)" if "\<not> k"
    using that k k2 k3 bursts_hostmem_stays s2(3) s3(3) p2 p3 by simp
  moreover have "dram ?v = dram (vw s)" if k
    using that k k2 k3 bursts_dram_stays s2(3) s3(3) p2 p3 by simp
  moreover have "one_way k (vw s4)" using kv pos c by (auto simp: v4 one_way_def)
  moreover have "\<exists>cs. cmds (vw s4) = cs @ [c]" "drain (vw s4) = exec c (drain (vw s))"
    "unat (done_count k (vw s4)) + length (cmds (vw s4)) = unat (done_count k (vw s)) + length (cmds (vw s)) + 1"
  proof -
    have "done_count k (vw s4) = done_count k ?v" "cmds (vw s4) = cmds ?v @ [c]"
      by (simp_all add: v4 done_count_def)
    then show "\<exists>cs. cmds (vw s4) = cs @ [c]"
      "unat (done_count k (vw s4)) + length (cmds (vw s4)) = unat (done_count k (vw s)) + length (cmds (vw s)) + 1"
      using tv by simp_all
    show "drain (vw s4) = exec c (drain (vw s))" using dr drain_append [of ?v c] by (simp add: v4)
  qed
  moreover have "hostmem (vw s4) = hostmem ?v" "dram (vw s4) = dram ?v" by (simp_all add: v4)
  ultimately show ?thesis using s2(1) s3(1) s4(1,2) other by auto
qed

end

subsection \<open>The numbers\<close>

lemma unat_u64 [simp]: "n < 2 ^ 64 \<Longrightarrow> unat (of_nat n :: u64) = n"
  by (rule unat_of_nat_small) simp

lemma HB_u64: "m_max_dma_bytes div 2 = of_nat HB"
  by (simp add: m_max_dma_bytes_def word_unat_eq_iff unat_div_distrib)

lemma PG_u64: "m_fpga_alignment = of_nat PG"
  by (simp add: m_fpga_alignment_def)

lemma u64_div:
  assumes "a < 2 ^ 64" "b < 2 ^ 64"
  shows "(of_nat a :: u64) div of_nat b = of_nat (a div b)"
proof -
  have "a div b < 2 ^ 64" using div_le_dividend assms(1) by (rule le_less_trans)
  then have "unat ((of_nat a :: u64) div of_nat b) = unat (of_nat (a div b) :: u64)"
    using assms by (simp only: unat_div_distrib unat_u64)
  then show ?thesis by (simp only: word_unat_eq_iff)
qed

lemma u64_mod:
  assumes "a < 2 ^ 64" "b < 2 ^ 64"
  shows "(of_nat a :: u64) mod of_nat b = of_nat (a mod b)"
proof -
  have "a mod b < 2 ^ 64" using mod_less_eq_dividend assms(1) by (rule le_less_trans)
  then have "unat ((of_nat a :: u64) mod of_nat b) = unat (of_nat (a mod b) :: u64)"
    using assms by (simp only: unat_mod_distrib unat_u64)
  then show ?thesis by (simp only: word_unat_eq_iff)
qed

lemma u64_less: "a < 2 ^ 64 \<Longrightarrow> b < 2 ^ 64 \<Longrightarrow> (of_nat a :: u64) < of_nat b \<longleftrightarrow> a < b"
  by (simp add: word_less_nat_alt)

lemma u64_eq0: "a < 2 ^ 64 \<Longrightarrow> (of_nat a :: u64) = 0 \<longleftrightarrow> a = 0"
  using unat_eq_0 [of "of_nat a :: u64"] by simp

lemma u64_diff: "b \<le> a \<Longrightarrow> (of_nat a :: u64) - of_nat b = of_nat (a - b)"
  by (simp add: of_nat_diff)

lemma page_value:
  assumes "x mod PG = 0" "x div PG < 2 ^ 32"
  shows "unat (push_bit 12 (ucast (ucast (of_nat x div m_fpga_alignment :: u64) :: u32) :: u64)) = x"
    and "x < 2 ^ 32 \<Longrightarrow> unat (push_bit 12 (ucast (of_nat x div m_fpga_alignment :: u64) :: u32)) = x"
proof -
  have x: "x < 2 ^ 44" using assms(2) by simp
  have d: "(of_nat x div m_fpga_alignment :: u64) = of_nat (x div PG)"
    using x unfolding PG_u64 by (intro u64_div) simp_all
  have u: "unat (ucast (of_nat (x div PG) :: u64) :: u32) = x div PG"
    using assms(2) x by (subst unat_ucast_small) simp_all
  have m: "x div PG * PG = x" using assms(1) by (simp add: mod_0_imp_dvd)
  have "unat (ucast (ucast (of_nat (x div PG) :: u64) :: u32) :: u64) = x div PG"
    using u assms(2) by (subst unat_ucast_small) simp_all
  then show "unat (push_bit 12 (ucast (ucast (of_nat x div m_fpga_alignment :: u64) :: u32) :: u64)) = x"
    using m x unfolding d by (simp add: push_bit_eq_mult unat_mult_lem [THEN iffD1])
  show "unat (push_bit 12 (ucast (of_nat x div m_fpga_alignment :: u64) :: u32)) = x" if "x < 2 ^ 32"
    using m that u unfolding d by (simp add: push_bit_eq_mult unat_mult_lem [THEN iffD1])
qed

end
