(* ===== verification/DramCopy.thy ===== *)
theory DramCopy
  imports DramPort
begin

text \<open>
  What the two copies do: the chunks alternate between the halves of the window, a half is
  used again only after the counter showed that its last transfer is over, and at the end
  the memory of the board, or the caller's buffer, holds the bytes it should.
\<close>

definition to_spec :: "nat \<Rightarrow> nat \<Rightarrow> mem \<Rightarrow> mem \<Rightarrow> mem" where
  "to_spec off n src f0 = (\<lambda>a. if off \<le> a \<and> a < off + n then src (a - off) else f0 a)"

text \<open>The sizes of a copy: the caller's \<open>S\<close> bytes, rounded up to \<open>B\<close>, in \<open>N\<close> chunks.\<close>

definition copy_sizes :: "nat \<Rightarrow> nat \<Rightarrow> nat \<Rightarrow> nat \<Rightarrow> bool" where
  "copy_sizes off S B N \<longleftrightarrow> off mod PG = 0 \<and> B mod PG = 0 \<and> S \<le> B \<and> B < S + PG
     \<and> B \<le> N * HB \<and> N * HB < B + HB \<and> off + B \<le> 2 ^ 43"

definition cur_chunk :: "nat \<Rightarrow> nat \<Rightarrow> nat" where
  "cur_chunk B i = min HB (B - i * HB)"

lemma page_chunks: "PG dvd i * HB"
  by (rule dvd_mult) simp

lemma copy_sizesD:
  assumes "copy_sizes off S B N"
  shows "off mod PG = 0" "B mod PG = 0" "S \<le> B" "B \<le> N * HB" "off + B \<le> 2 ^ 43" "N \<le> 2 ^ 25"
    "i < N \<Longrightarrow> i * HB < B" "i < N \<Longrightarrow> i * HB < S" "i + 1 < N \<Longrightarrow> cur_chunk B i = HB"
    "i < N \<Longrightarrow> 0 < cur_chunk B i" "cur_chunk B i \<le> HB" "cur_chunk B i mod PG = 0"
proof -
  show a: "off mod PG = 0" "B mod PG = 0" "S \<le> B" "B \<le> N * HB" "off + B \<le> 2 ^ 43"
    using assms by (simp_all add: copy_sizes_def)
  have b: "B < S + PG" "N * HB < B + HB" using assms by (simp_all add: copy_sizes_def)
  show "N \<le> 2 ^ 25" using b(2) a(5) by simp
  show lt: "i * HB < B" if "i < N" for i
  proof -
    have "(i + 1) * HB \<le> N * HB" using that by (intro mult_le_mono1) simp
    then show ?thesis using b(2) by simp
  qed
  show "i * HB < S" if "i < N"
  proof -
    have "PG dvd B - i * HB" using a(2) page_chunks by (intro dvd_diff_nat) (simp_all add: mod_eq_0_iff_dvd)
    moreover have "0 < B - i * HB" using lt [OF that] by simp
    ultimately have "PG \<le> B - i * HB" by (rule dvd_imp_le)
    then show ?thesis using b(1) by simp
  qed
  show "cur_chunk B i = HB" if "i + 1 < N" using lt [OF that] by (simp add: cur_chunk_def)
  show "0 < cur_chunk B i" if "i < N" using lt [OF that] by (simp add: cur_chunk_def)
  show "cur_chunk B i \<le> HB" by (simp add: cur_chunk_def)
  have "PG dvd B - i * HB" using a(2) page_chunks by (intro dvd_diff_nat) (simp_all add: mod_eq_0_iff_dvd)
  then show "cur_chunk B i mod PG = 0" by (auto simp: cur_chunk_def min_def mod_eq_0_iff_dvd)
qed

lemma hb_values: "hb i \<le> HB" "hb i mod PG = 0" "hb (i + 2) = hb i"
  "hb (i + 1) + HB \<le> hb i \<or> hb i + HB \<le> hb (i + 1)"
  by (auto simp: hb_def) presburger+

lemma chunk_words:
  assumes "i < 2 ^ 64" "B < 2 ^ 64"
  shows "(if m_max_dma_bytes div 2 > of_nat (B - i * HB) then of_nat (B - i * HB) else m_max_dma_bytes div 2)
      = (of_nat (cur_chunk B i) :: u64)"
    and "(if (of_nat i :: u64) mod 2 \<noteq> 0 then m_max_dma_bytes div 2 else 0) = of_nat (hb i)"
    and "(if (of_nat i :: u64) mod 2 = 0 then m_max_dma_bytes div 2 else 0) = of_nat (hb (i + 1))"
proof -
  show "(if m_max_dma_bytes div 2 > of_nat (B - i * HB) then of_nat (B - i * HB) else m_max_dma_bytes div 2)
      = (of_nat (cur_chunk B i) :: u64)"
    using assms u64_less [of "B - i * HB" HB] unfolding HB_u64 by (auto simp: cur_chunk_def min_def)
  have "(of_nat i :: u64) mod 2 = of_nat (i mod 2)" using u64_mod [OF assms(1), of 2] by simp
  moreover have "(of_nat (i mod 2) :: u64) = 0 \<longleftrightarrow> i mod 2 = 0" by (rule u64_eq0) simp
  ultimately have "(of_nat i :: u64) mod 2 = 0 \<longleftrightarrow> i mod 2 = 0" by simp
  then show "(if (of_nat i :: u64) mod 2 \<noteq> 0 then m_max_dma_bytes div 2 else 0) = of_nat (hb i)"
    "(if (of_nat i :: u64) mod 2 = 0 then m_max_dma_bytes div 2 else 0) = of_nat (hb (i + 1))"
    unfolding HB_u64 hb_def by (simp_all add: mod_Suc)
qed

lemma cmd_words:
  assumes "copy_sizes off S B N" "i < N"
  shows "unat (push_bit 12 (ucast (of_nat (hb i) div m_fpga_alignment :: u64) :: u32)) = hb i"
    "unat (push_bit 12 (ucast (ucast (of_nat (off + i * HB) div m_fpga_alignment :: u64) :: u32) :: u64)) = off + i * HB"
    "unat (push_bit 12 (ucast (of_nat (cur_chunk B i) div m_fpga_alignment :: u64) :: u32)) = cur_chunk B i"
proof -
  note d = copy_sizesD [OF assms(1)]
  show "unat (push_bit 12 (ucast (of_nat (hb i) div m_fpga_alignment :: u64) :: u32)) = hb i"
    using hb_values(1) [of i] by (intro page_value(2) hb_values(2)) simp_all
  show "unat (push_bit 12 (ucast (of_nat (cur_chunk B i) div m_fpga_alignment :: u64) :: u32)) = cur_chunk B i"
    using d(11) [of i] by (intro page_value(2) d(12)) simp_all
  have "PG dvd off + i * HB" using d(1) page_chunks by (intro dvd_add) (simp_all add: mod_eq_0_iff_dvd)
  then have "(off + i * HB) mod PG = 0" by (simp only: mod_eq_0_iff_dvd)
  moreover have "off + i * HB < 2 ^ 44" using d(5) d(7) [OF assms(2)] by simp
  ultimately show "unat (push_bit 12 (ucast (ucast (of_nat (off + i * HB) div m_fpga_alignment :: u64) :: u32) :: u64))
      = off + i * HB"
    by (intro page_value(1)) simp_all
qed

lemma poll_target: "unat W + i < 2 ^ 64 \<Longrightarrow> unat (ucast (W :: u32) + of_nat i :: u64) = unat W + i"
  by (simp add: unat_add_lem [THEN iffD1])

subsection \<open>To the board\<close>

text \<open>What the \<open>memcpy\<close> and \<open>memset\<close> of one chunk put into its half.\<close>

definition padded :: "nat \<Rightarrow> mem \<Rightarrow> mem" where
  "padded S buffer = (\<lambda>k. if k < S then buffer k else 0xFF)"

definition chunk_fill :: "mem \<Rightarrow> nat \<Rightarrow> nat \<Rightarrow> nat \<Rightarrow> nat \<Rightarrow> mem \<Rightarrow> mem" where
  "chunk_fill buffer ho bo sb cur m =
     (if sb < cur then fill_bytes 0xFF (copy_bytes buffer ho m bo sb) (bo + sb) (cur - sb)
      else copy_bytes buffer ho m bo cur)"

lemma chunk_fill_inside:
  "bo \<le> a \<Longrightarrow> a < bo + cur \<Longrightarrow> i * HB < S \<Longrightarrow>
    chunk_fill buffer (i * HB) bo (S - i * HB) cur m a = padded S buffer (i * HB + (a - bo))"
  by (auto simp: chunk_fill_def fill_bytes_def copy_bytes_def padded_def)

lemma chunk_fill_outside:
  "a < bo \<or> bo + HB \<le> a \<Longrightarrow> cur \<le> HB \<Longrightarrow> chunk_fill buffer ho bo sb cur m a = m a"
  by (auto simp: chunk_fill_def fill_bytes_def copy_bytes_def)

context dram_port
begin

definition to_inv :: "nat \<Rightarrow> nat \<Rightarrow> mem \<Rightarrow> mem \<Rightarrow> u32 \<Rightarrow> u32 \<Rightarrow> nat \<Rightarrow> 's \<Rightarrow> bool" where
  "to_inv off B src f0 W R i s \<longleftrightarrow> good s \<and> done_count True (vw s) = R \<and> one_way False (vw s)
     \<and> unat (done_count False (vw s)) + length (cmds (vw s)) = unat W + i \<and> length (cmds (vw s)) \<le> 1
     \<and> (\<forall>c\<in>set (cmds (vw s)). cmd_in (hb (i + 1)) (hb (i + 1) + HB) c)
     \<and> snd (drain (vw s)) = to_spec off (min (i * HB) B) src f0"

lemma to_spec_step:
  assumes "copy_sizes off S B N" "i < N"
    and "\<And>a. hb i \<le> a \<Longrightarrow> a < hb i + cur_chunk B i \<Longrightarrow> m a = src (i * HB + (a - hb i))"
  shows "copy_bytes m (hb i) (to_spec off (min (i * HB) B) src f0) (off + i * HB) (cur_chunk B i)
    = to_spec off (min ((i + 1) * HB) B) src f0"
proof
  fix a
  have lt: "i * HB < B" by (rule copy_sizesD(7) [OF assms(1,2)])
  have n: "min (i * HB) B = i * HB" "min ((i + 1) * HB) B = i * HB + cur_chunk B i"
    using lt by (auto simp: cur_chunk_def)
  show "copy_bytes m (hb i) (to_spec off (min (i * HB) B) src f0) (off + i * HB) (cur_chunk B i) a
    = to_spec off (min ((i + 1) * HB) B) src f0 a"
    unfolding n copy_bytes_apply to_spec_def
    using assms(3) [of "hb i + (a - (off + i * HB))"] by auto
qed

lemma to_step:
  assumes z: "copy_sizes off S B N" "i < N" and inv: "to_inv off B src f0 W R i s"
    and W: "unat W + N < 2 ^ 32"
    and inside: "\<And>m a. hb i \<le> a \<Longrightarrow> a < hb i + cur_chunk B i \<Longrightarrow> f m a = src (i * HB + (a - hb i))"
    and outside: "\<And>m a. a < hb i \<or> hb i + HB \<le> a \<Longrightarrow> f m a = m a"
  shows "\<exists>s2 s3 s4 cnt s5.
    uw m_host_mem_arg (ucast (of_nat (hb i) div m_fpga_alignment :: u64)) (dma_upd f s) = Some s2
    \<and> uw m_fpga_mem_arg (ucast (of_nat (off + i * HB) div m_fpga_alignment :: u64)) s2 = Some s3
    \<and> uw m_to_fpga_cmd (ucast (of_nat (cur_chunk B i) div m_fpga_alignment :: u64)) s3 = Some s4
    \<and> poll_count ur m_fpga_write_stat_off (ucast W + of_nat i) s4 = Some (cnt, s5)
    \<and> to_inv off B src f0 W R (i + 1) s5"
proof -
  let ?s1 = "dma_upd f s" and ?c = "\<lparr>to_host = False, hoff = hb i, foff = off + i * HB, left = cur_chunk B i\<rparr>"
  have g: "good s" and k: "one_way False (vw s)"
    and cnt: "unat (done_count False (vw s)) + length (cmds (vw s)) = unat W + i"
    and reg: "\<forall>c\<in>set (cmds (vw s)). cmd_in (hb (i + 1)) (hb (i + 1) + HB) c"
    and other: "done_count True (vw s) = R"
    and dr: "snd (drain (vw s)) = to_spec off (min (i * HB) B) src f0"
    using inv by (simp_all add: to_inv_def)
  have g1: "good ?s1" and v1: "vw ?s1 = (vw s)\<lparr>hostmem := f (hostmem (vw s))\<rparr>"
    using upd_law [OF g] by auto
  have k1: "one_way False (vw ?s1)" using k by (simp add: v1 one_way_def)
  have cnt1: "unat (done_count False (vw ?s1)) + length (cmds (vw ?s1)) = unat W + i"
    using cnt by (simp add: v1 done_count_def)
  have f_eq: "f (hostmem (vw s)) a = hostmem (vw s) a" if "hb (i + 1) \<le> a" "a < hb (i + 1) + HB" for a
    using that hb_values(4) [of i] by (intro outside) auto
  have "\<forall>c\<in>set (cmds (vw s)). \<not> to_host c \<and> cmd_in (hb (i + 1)) (hb (i + 1) + HB) c"
    using k reg by (auto simp: one_way_def)
  note cong = fold_exec_to_board_cong [OF this f_eq]
  have dr1: "snd (drain (vw ?s1)) = to_spec off (min (i * HB) B) src f0"
    using cong dr by (simp add: drain_def v1)
  have fst1: "fst (drain (vw ?s1)) = f (hostmem (vw s))"
    using fold_exec_to_board k by (simp add: drain_def v1 one_way_def)
  have t1: "unat (done_count False (vw ?s1)) + length (cmds (vw ?s1)) < 2 ^ 32"
    using cnt1 W z(2) by simp
  define hp where "hp = (ucast (of_nat (hb i) div m_fpga_alignment :: u64) :: u32)"
  define fp where "fp = (ucast (of_nat (off + i * HB) div m_fpga_alignment :: u64) :: u32)"
  define pg where "pg = (ucast (of_nat (cur_chunk B i) div m_fpga_alignment :: u64) :: u32)"
  have words: "?c = \<lparr>to_host = False, hoff = unat (push_bit 12 hp), foff = unat (push_bit 12 (ucast fp :: u64)),
      left = unat (push_bit 12 pg)\<rparr>"
    unfolding hp_def fp_def pg_def cmd_words [OF z] by (rule refl)
  obtain s2 s3 s4 where
    w: "uw m_host_mem_arg hp ?s1 = Some s2" "uw m_fpga_mem_arg fp s2 = Some s3"
      "uw m_to_fpga_cmd pg s3 = Some s4"
    and g4: "good s4" and k4: "one_way False (vw s4)" and l4: "\<exists>cs. cmds (vw s4) = cs @ [?c]"
    and d4: "drain (vw s4) = exec ?c (drain (vw ?s1))"
    and cnt4: "unat (done_count False (vw s4)) + length (cmds (vw s4)) = unat W + i + 1"
    and oth4: "done_count True (vw s4) = done_count True (vw ?s1)"
    using issue_cmd [OF g1 k1 _ t1 words, of 1032] copy_sizesD(10) [OF z] cnt1 by (auto simp: dram_regs)
  have "snd (drain (vw s4)) = copy_bytes (f (hostmem (vw s))) (hb i) (to_spec off (min (i * HB) B) src f0)
      (off + i * HB) (cur_chunk B i)"
    using dr1 fst1 by (cases "drain (vw ?s1)") (simp add: d4 exec_def)
  also have "\<dots> = to_spec off (min ((i + 1) * HB) B) src f0"
    by (rule to_spec_step [OF z]) (rule inside)
  finally have d4': "snd (drain (vw s4)) = to_spec off (min ((i + 1) * HB) B) src f0" .
  have t4: "unat (done_count False (vw s4)) + length (cmds (vw s4)) < 2 ^ 32" using cnt4 W z(2) by simp
  have tgt: "unat (ucast W + of_nat i :: u64) = unat W + i" using W z(2) by (intro poll_target) simp
  obtain c5 s5 n where p: "poll_count ur m_fpga_write_stat_off (ucast W + of_nat i) s4 = Some (c5, s5)"
    "good s5" "vw s5 = bursts n (vw s4)" "c5 = done_count False (vw s5)" "unat W + i \<le> unat c5"
    using poll_count_returns [OF g4 k4 t4, of "ucast W + of_nat i" 1024] tgt cnt4
    by (auto simp: dram_regs)
  have cnt5: "unat (done_count False (vw s5)) + length (cmds (vw s5)) = unat W + i + 1"
    using bursts_count [OF k4 t4, of n] cnt4 p(3) by simp
  then have len5: "length (cmds (vw s5)) \<le> 1" using p(4,5) by simp
  have "cmd_in (hb i) (hb i + HB) ?c" using copy_sizesD(11) [OF z(1)] by (simp add: cmd_in_def)
  then have "\<forall>c\<in>set (cmds (vw s5)). cmd_in (hb i) (hb i + HB) c"
    using l4 bursts_last [of "vw s4" _ ?c "hb i" "hb i + HB" n] len5 p(3) by auto
  moreover have "done_count True (vw s5) = R"
    using bursts_other_count [OF k4, of n] p(3) oth4 v1 other by (simp add: done_count_def)
  ultimately have "to_inv off B src f0 W R (i + 1) s5"
    unfolding to_inv_def using p(2,3) bursts_one_way [OF k4] cnt5 len5 d4' hb_values(3) [of i] by simp
  with w p(1) show ?thesis unfolding hp_def fp_def pg_def by blast
qed

end

text \<open>The loop variables in iteration \<open>i\<close>.\<close>

definition loop_vars :: "nat \<Rightarrow> nat \<Rightarrow> nat \<Rightarrow> nat \<Rightarrow> nat \<Rightarrow> u64 \<Rightarrow> u64 \<Rightarrow> u64 \<Rightarrow> u64 \<Rightarrow> bool" where
  "loop_vars off S B N i ho ofs bts sb \<longleftrightarrow> (i < N \<longrightarrow> ho = of_nat (i * HB) \<and> ofs = of_nat (off + i * HB)
     \<and> bts = of_nat (B - i * HB) \<and> sb = of_nat (S - i * HB))"

lemma loop_vars_next:
  assumes z: "copy_sizes off S B N" and v: "loop_vars off S B N i ho ofs bts sb" and cur: "cur = of_nat (cur_chunk B i)"
  shows "loop_vars off S B N (i + 1) (ho + cur) (ofs + cur) (bts - cur) (sb - cur)"
proof -
  have "ho + cur = of_nat ((i + 1) * HB) \<and> ofs + cur = of_nat (off + (i + 1) * HB)
      \<and> bts - cur = of_nat (B - (i + 1) * HB) \<and> sb - cur = of_nat (S - (i + 1) * HB)" if n: "i + 1 < N"
  proof -
    have c: "cur = of_nat HB" using cur copy_sizesD(9) [OF z n] by simp
    have e: "ho = of_nat (i * HB)" "ofs = of_nat (off + i * HB)" "bts = of_nat (B - i * HB)" "sb = of_nat (S - i * HB)"
      using v n by (simp_all add: loop_vars_def)
    have lt: "(i + 1) * HB < B" "(i + 1) * HB < S" using copy_sizesD(7,8) [OF z n] by auto
    have "bts - cur = of_nat (B - i * HB - HB)" unfolding e c using lt by (intro u64_diff) simp
    moreover have "sb - cur = of_nat (S - i * HB - HB)" unfolding e c using lt by (intro u64_diff) simp
    moreover have "B - i * HB - HB = B - (i + 1) * HB" "S - i * HB - HB = S - (i + 1) * HB" by simp_all
    moreover have "ho + cur = of_nat ((i + 1) * HB)" "ofs + cur = of_nat (off + (i + 1) * HB)"
      unfolding e c by simp_all
    ultimately show ?thesis by simp
  qed
  then show ?thesis by (simp add: loop_vars_def)
qed

text \<open>The two branches of the \<open>memcpy\<close> on words are \<open>chunk_fill\<close> on numbers.\<close>

lemma fill_words:
  assumes z: "copy_sizes off S B N" and i: "i < N"
  shows "(if (of_nat (S - i * HB) :: u64) < of_nat (cur_chunk B i)
      then upd (\<lambda>m. fill_bytes 0xFF (copy_bytes buffer (unat (of_nat (i * HB) :: u64)) m (unat (of_nat (hb i) :: u64))
               (unat (of_nat (S - i * HB) :: u64)))
             (unat (of_nat (hb i) + of_nat (S - i * HB) :: u64))
             (unat (of_nat (cur_chunk B i) - of_nat (S - i * HB) :: u64))) s
      else upd (\<lambda>m. copy_bytes buffer (unat (of_nat (i * HB) :: u64)) m (unat (of_nat (hb i) :: u64))
             (unat (of_nat (cur_chunk B i) :: u64))) s)
    = upd (chunk_fill buffer (i * HB) (hb i) (S - i * HB) (cur_chunk B i)) s"
proof -
  note d = copy_sizesD [OF z]
  have b: "S - i * HB < 2 ^ 64" "cur_chunk B i < 2 ^ 64" "i * HB < 2 ^ 64" "hb i < 2 ^ 64"
    using d(3,5) d(11) [of i] d(7) [OF i] hb_values(1) [of i] by auto
  have "(of_nat (hb i) + of_nat (S - i * HB) :: u64) = of_nat (hb i + (S - i * HB))" by simp
  moreover have "hb i + (S - i * HB) < 2 ^ 64" using d(3,5) hb_values(1) [of i] by simp
  ultimately have sum: "unat (of_nat (hb i) + of_nat (S - i * HB) :: u64) = hb i + (S - i * HB)"
    by (simp only: unat_u64)
  show ?thesis
  proof (cases "S - i * HB < cur_chunk B i")
    case True
    then have "(of_nat (cur_chunk B i) - of_nat (S - i * HB) :: u64) = of_nat (cur_chunk B i - (S - i * HB))"
      by (intro u64_diff) simp
    moreover have "cur_chunk B i - (S - i * HB) < 2 ^ 64" using b(2) by simp
    ultimately have diff: "unat (of_nat (cur_chunk B i) - of_nat (S - i * HB) :: u64) = cur_chunk B i - (S - i * HB)"
      by (simp only: unat_u64)
    show ?thesis
      unfolding u64_less [OF b(1,2)] sum diff unat_u64 [OF b(1)] unat_u64 [OF b(3)] unat_u64 [OF b(4)]
      using True by (simp add: chunk_fill_def [abs_def])
  next
    case False
    then show ?thesis
      unfolding u64_less [OF b(1,2)] unat_u64 [OF b(2)] unat_u64 [OF b(3)] unat_u64 [OF b(4)]
      by (simp add: chunk_fill_def [abs_def])
  qed
qed

context dram_port
begin

lemma to_loop:
  assumes z: "copy_sizes off S B N" and W: "unat W + N < 2 ^ 32"
  shows "n + i = N \<Longrightarrow> to_inv off B (padded S buffer) f0 W R i s \<Longrightarrow> loop_vars off S B N i ho ofs bts sb \<Longrightarrow>
    \<exists>s'. to_fpga_loop uw ur dma_upd W buffer n (of_nat i) ho ofs bts sb s = Some s'
      \<and> to_inv off B (padded S buffer) f0 W R N s'"
proof (induction n arbitrary: i s ho ofs bts sb)
  case 0
  then show ?case by simp
next
  case (Suc n)
  have i: "i < N" using Suc.prems(1) by simp
  have e: "ho = of_nat (i * HB)" "ofs = of_nat (off + i * HB)" "bts = of_nat (B - i * HB)" "sb = of_nat (S - i * HB)"
    using Suc.prems(3) i by (simp_all add: loop_vars_def)
  have big: "i < 2 ^ 64" "B < 2 ^ 64" using i copy_sizesD(5,6) [OF z] by simp_all
  let ?f = "chunk_fill buffer (i * HB) (hb i) (S - i * HB) (cur_chunk B i)"
  obtain s2 s3 s4 cnt s5 where
    w: "uw m_host_mem_arg (ucast (of_nat (hb i) div m_fpga_alignment :: u64)) (dma_upd ?f s) = Some s2"
      "uw m_fpga_mem_arg (ucast (of_nat (off + i * HB) div m_fpga_alignment :: u64)) s2 = Some s3"
      "uw m_to_fpga_cmd (ucast (of_nat (cur_chunk B i) div m_fpga_alignment :: u64)) s3 = Some s4"
      "poll_count ur m_fpga_write_stat_off (ucast W + of_nat i) s4 = Some (cnt, s5)"
    and inv: "to_inv off B (padded S buffer) f0 W R (i + 1) s5"
    using to_step [OF z i Suc.prems(2) W, of ?f] chunk_fill_inside [OF _ _ copy_sizesD(8) [OF z i]]
      chunk_fill_outside [OF _ copy_sizesD(11) [OF z]] by blast
  let ?cur = "of_nat (cur_chunk B i) :: u64"
  have "\<exists>s'. to_fpga_loop uw ur dma_upd W buffer n (of_nat (i + 1)) (ho + ?cur) (ofs + ?cur) (bts - ?cur) (sb - ?cur) s5
      = Some s' \<and> to_inv off B (padded S buffer) f0 W R N s'"
    using Suc.prems(1) by (intro Suc.IH inv loop_vars_next [OF z Suc.prems(3)]) simp_all
  moreover have "(of_nat (i + 1) :: u64) = of_nat i + 1" by simp
  ultimately show ?case
    unfolding to_fpga_loop.simps Let_def e chunk_words(1,2) [OF big] fill_words [OF z i] w bind.bind_lunit
    by (simp add: add.commute)
qed

end

subsection \<open>The whole copy to the board\<close>

definition dram_off :: "u64 \<Rightarrow> nat" where
  "dram_off offset = unat offset div PG * PG"

definition dram_len :: "u64 \<Rightarrow> nat" where
  "dram_len bytes = (unat bytes + (PG - 1)) div PG * PG"

definition dram_chunks :: "u64 \<Rightarrow> nat" where
  "dram_chunks bytes = (dram_len bytes + (HB - 1)) div HB"

lemma round_up:
  assumes "0 < (k :: nat)"
  shows "n \<le> (n + (k - 1)) div k * k" "(n + (k - 1)) div k * k < n + k"
    "(n + (k - 1)) div k = (if n mod k \<noteq> 0 then n div k + 1 else n div k)"
proof -
  have n: "n = n div k * k + n mod k" by simp
  have m: "n mod k < k" using assms by simp
  have e: "(n + (k - 1)) div k = n div k + (n mod k + (k - 1)) div k"
    by (subst n) (metis add.assoc add.commute assms div_mult_self1 less_not_refl)
  show c: "(n + (k - 1)) div k = (if n mod k \<noteq> 0 then n div k + 1 else n div k)"
  proof (cases "n mod k = 0")
    case False
    then have "n mod k + (k - 1) = k + (n mod k - 1)" using assms by simp
    moreover have "(k + (n mod k - 1)) div k = 1"
      using m less_imp_diff_less [OF m, of 1] by (intro div_nat_eqI) simp_all
    ultimately show ?thesis using e False by simp
  qed (use e assms in simp)
  have v: "(n + (k - 1)) div k * k = (if n mod k \<noteq> 0 then n div k * k + k else n div k * k)"
    unfolding c by simp
  show "n \<le> (n + (k - 1)) div k * k" "(n + (k - 1)) div k * k < n + k"
    unfolding v using n m by (cases "n mod k = 0"; simp only: if_True if_False not_False_eq_True simp_thms; linarith)+
qed

lemma dram_sizes:
  assumes "dram_off offset + dram_len bytes \<le> 2 ^ 43"
  shows "copy_sizes (dram_off offset) (unat bytes) (dram_len bytes) (dram_chunks bytes)"
    "align_offset offset = of_nat (dram_off offset)" "round_bytes bytes = of_nat (dram_len bytes)"
    "chunk_count (round_bytes bytes) = of_nat (dram_chunks bytes)"
proof -
  have b: "unat offset < 2 ^ 64" "unat bytes < 2 ^ 64"
    using unsigned_less [of offset] unsigned_less [of bytes] by simp_all
  have r: "unat bytes \<le> dram_len bytes" "dram_len bytes < unat bytes + PG"
    using round_up(1,2) [of PG "unat bytes"] by (simp_all add: dram_len_def)
  have c: "dram_len bytes \<le> dram_chunks bytes * HB" "dram_chunks bytes * HB < dram_len bytes + HB"
    using round_up(1,2) [of HB "dram_len bytes"] by (simp_all add: dram_chunks_def)
  show "copy_sizes (dram_off offset) (unat bytes) (dram_len bytes) (dram_chunks bytes)"
    using assms r c by (simp add: copy_sizes_def dram_off_def dram_len_def)
  have o: "offset = of_nat (unat offset)" and y: "bytes = of_nat (unat bytes)" by simp_all
  have "offset mod m_fpga_alignment = of_nat (unat offset mod PG)"
    "offset div m_fpga_alignment = of_nat (unat offset div PG)"
    unfolding PG_u64 using u64_mod [OF b(1), of PG] u64_div [OF b(1), of PG] by simp_all
  moreover have "unat offset mod PG = 0 \<Longrightarrow> offset = of_nat (dram_off offset)"
    by (subst o) (simp add: dram_off_def mod_0_imp_dvd)
  ultimately show "align_offset offset = of_nat (dram_off offset)"
    using u64_eq0 [of "unat offset mod PG"] by (auto simp: align_offset_def PG_u64 dram_off_def)
  have "bytes mod m_fpga_alignment = of_nat (unat bytes mod PG)"
    "bytes div m_fpga_alignment = of_nat (unat bytes div PG)"
    unfolding PG_u64 using u64_mod [OF b(2), of PG] u64_div [OF b(2), of PG] by simp_all
  moreover have "unat bytes mod PG = 0 \<Longrightarrow> bytes = of_nat (dram_len bytes)"
    using round_up(3) [of PG "unat bytes"] by (subst y) (simp add: dram_len_def mod_0_imp_dvd)
  ultimately show rb: "round_bytes bytes = of_nat (dram_len bytes)"
    using u64_eq0 [of "unat bytes mod PG"] round_up(3) [of PG "unat bytes"]
    by (auto simp: round_bytes_def PG_u64 dram_len_def)
  have l: "dram_len bytes < 2 ^ 64" using assms by simp
  show "chunk_count (round_bytes bytes) = of_nat (dram_chunks bytes)"
    using u64_mod [OF l, of HB] u64_div [OF l, of HB] u64_eq0 [of "dram_len bytes mod HB"]
      round_up(3) [of HB "dram_len bytes"]
    unfolding rb chunk_count_def HB_u64 by (simp add: dram_chunks_def)
qed

context dram_port
begin

lemma CopyToFPGA_copies:
  assumes g: "good s" and idle: "cmds (vw s) = []"
    and q: "m_write_done_total q = dramWriteBurstDoneCount (vw s)"
    and W: "unat (m_write_done_total q) + dram_chunks bytes < 2 ^ 32"
    and B: "dram_off offset + dram_len bytes \<le> 2 ^ 43"
  shows "\<exists>s'. CopyToFPGA uw ur dma_upd offset buffer bytes (q, s) =
      Some (q\<lparr>m_write_done_total := m_write_done_total q + of_nat (dram_chunks bytes)\<rparr>, s')
    \<and> good s' \<and> cmds (vw s') = []
    \<and> dramWriteBurstDoneCount (vw s') = m_write_done_total q + of_nat (dram_chunks bytes)
    \<and> dramReadBurstDoneCount (vw s') = dramReadBurstDoneCount (vw s)
    \<and> dram (vw s') = to_spec (dram_off offset) (dram_len bytes) (padded (unat bytes) buffer) (dram (vw s))"
proof -
  let ?W = "m_write_done_total q" and ?N = "dram_chunks bytes" and ?O = "dram_off offset" and ?B = "dram_len bytes"
  let ?R = "dramReadBurstDoneCount (vw s)" and ?src = "padded (unat bytes) buffer"
  note z = dram_sizes [OF B]
  have N: "unat (of_nat ?N :: u64) = ?N" using copy_sizesD(6) [OF z(1)] by simp
  have "to_spec ?O 0 ?src (dram (vw s)) = dram (vw s)"
    by (simp add: to_spec_def fun_eq_iff) auto
  then have "to_inv ?O ?B ?src (dram (vw s)) ?W ?R 0 s"
    using g idle q by (simp add: to_inv_def one_way_def done_count_def drain_done)
  moreover have "loop_vars ?O (unat bytes) ?B ?N 0 0 (align_offset offset) (round_bytes bytes) bytes"
    using z(2,3) by (simp add: loop_vars_def)
  ultimately obtain s1 where s1: "to_fpga_loop uw ur dma_upd ?W buffer ?N 0 0 (align_offset offset)
      (round_bytes bytes) bytes s = Some s1" "to_inv ?O ?B ?src (dram (vw s)) ?W ?R ?N s1"
    using to_loop [OF z(1) W, of ?N 0 buffer "dram (vw s)" ?R s 0 "align_offset offset"
        "round_bytes bytes" bytes] by auto
  have i1: "good s1" "one_way False (vw s1)" "done_count True (vw s1) = ?R"
    "unat (done_count False (vw s1)) + length (cmds (vw s1)) = unat ?W + ?N"
    "snd (drain (vw s1)) = to_spec ?O (min (?N * HB) ?B) ?src (dram (vw s))"
    using s1(2) by (simp_all add: to_inv_def)
  have t: "unat (ucast ?W + of_nat ?N :: u64) = unat ?W + ?N" using W by (intro poll_target) simp
  obtain c s2 n where s2: "poll_count ur m_fpga_write_stat_off (ucast ?W + of_nat ?N) s1 = Some (c, s2)"
    "good s2" "vw s2 = bursts n (vw s1)" "c = done_count False (vw s2)" "unat ?W + ?N \<le> unat c"
    using poll_count_returns [OF i1(1,2), of "ucast ?W + of_nat ?N" 1024] i1(4) W t
    by (auto simp: dram_regs)
  have "unat (done_count False (vw s2)) + length (cmds (vw s2)) = unat ?W + ?N"
    using bursts_count [OF i1(2), of n] i1(4) W s2(3) by simp
  then have "length (cmds (vw s2)) = 0 \<and> unat (done_count False (vw s2)) = unat ?W + ?N"
    using s2(5) [unfolded s2(4)] by linarith
  then have "length (cmds (vw s2)) = 0" and uc: "unat c = unat ?W + ?N" using s2(4) by simp_all
  then have e: "cmds (vw s2) = []" by simp
  have c: "c = ?W + of_nat ?N"
    using uc W by (simp add: word_unat_eq_iff unat_add_lem [THEN iffD1] unat_of_nat_small)
  have "dram (vw s2) = to_spec ?O ?B ?src (dram (vw s))"
    using i1(5) copy_sizesD(4) [OF z(1)] drain_done [OF e] s2(3) by (simp add: min_absorb2)
  moreover have "done_count True (vw s2) = ?R"
    using bursts_other_count [OF i1(2), of n] i1(3) s2(3) by simp
  ultimately show ?thesis
    using s1(1) s2(1,2,4) e c unfolding CopyToFPGA_def Let_def z(4)
    by (simp add: N done_count_def)
qed

end

end
