(* ===== verification/DramCopyBack.thy ===== *)
theory DramCopyBack
  imports DramCopy
begin

text \<open>
  \<open>CopyFromFPGA\<close>: while the hardware fills one half of the window, the software copies the
  other half, which the counter showed to be complete, into the caller's buffer.
\<close>

text \<open>What the caller's buffer holds at the end. The filler \<open>0xff\<close> runs to the end of the last
  chunk, past the caller's bytes.\<close>

definition from_spec :: "nat \<Rightarrow> nat \<Rightarrow> nat \<Rightarrow> mem \<Rightarrow> mem \<Rightarrow> mem" where
  "from_spec off S N f0 buffer =
     (\<lambda>k. if k < S then f0 (off + k) else if k < max 1 N * HB then 0xff else buffer k)"

definition from_part :: "nat \<Rightarrow> nat \<Rightarrow> mem \<Rightarrow> mem \<Rightarrow> mem" where
  "from_part off i f0 buffer = (\<lambda>k. if k < (i - 1) * HB then f0 (off + k) else buffer k)"

definition from_vars :: "nat \<Rightarrow> nat \<Rightarrow> nat \<Rightarrow> nat \<Rightarrow> nat \<Rightarrow> u64 \<Rightarrow> u64 \<Rightarrow> u64 \<Rightarrow> u64 \<Rightarrow> u64 \<Rightarrow> bool" where
  "from_vars off S B N i ho ofs bts db lst \<longleftrightarrow>
     (i < N \<longrightarrow> ofs = of_nat (off + i * HB) \<and> bts = of_nat (B - i * HB))
     \<and> ho = of_nat ((i - 1) * HB) \<and> db = of_nat (S - (i - 1) * HB)
     \<and> lst = (if i = 0 then 0 else of_nat (cur_chunk B (i - 1)))"

lemma hb_next: "0 < i \<Longrightarrow> hb (i - 1) = hb (i + 1)"
  using hb_values(3) [of "i - 1"] by simp

context dram_port
begin

definition from_inv :: "nat \<Rightarrow> nat \<Rightarrow> mem \<Rightarrow> u32 \<Rightarrow> u32 \<Rightarrow> nat \<Rightarrow> 's \<Rightarrow> bool" where
  "from_inv off B f0 R W i s \<longleftrightarrow> good s \<and> done_count False (vw s) = W \<and> one_way True (vw s)
     \<and> unat (done_count True (vw s)) + length (cmds (vw s)) = unat R + i \<and> length (cmds (vw s)) \<le> 1
     \<and> (\<forall>c\<in>set (cmds (vw s)). cmd_in (hb (i + 1)) (hb (i + 1) + HB) c) \<and> dram (vw s) = f0
     \<and> (0 < i \<longrightarrow> (\<forall>k<cur_chunk B (i - 1). fst (drain (vw s)) (hb (i + 1) + k) = f0 (off + (i - 1) * HB + k)))"

lemma to_host_drain:
  assumes "one_way True v"
  shows "snd (drain v) = dram v"
    "\<forall>c\<in>set (cmds v). cmd_in lo hi c \<Longrightarrow> a < lo \<or> hi \<le> a \<Longrightarrow> fst (drain v) a = hostmem v a"
  using assms fold_exec_to_host [of "cmds v"] fold_exec_outside [of "cmds v" lo hi a]
  by (simp_all add: drain_def one_way_def)

lemma from_step:
  assumes z: "copy_sizes off S B N" "i < N" and inv: "from_inv off B f0 R W i s"
    and R: "unat R + N < 2 ^ 32"
  shows "\<exists>s2 s3 s4 cnt s5.
    uw m_host_mem_arg (ucast (of_nat (hb i) div m_fpga_alignment :: u64)) s = Some s2
    \<and> uw m_fpga_mem_arg (ucast (of_nat (off + i * HB) div m_fpga_alignment :: u64)) s2 = Some s3
    \<and> uw m_to_host_cmd (ucast (of_nat (cur_chunk B i) div m_fpga_alignment :: u64)) s3 = Some s4
    \<and> poll_count ur m_fpga_read_stat_off (ucast R + of_nat i) s4 = Some (cnt, s5)
    \<and> from_inv off B f0 R W (i + 1) s5
    \<and> (0 < i \<longrightarrow> (\<forall>k<cur_chunk B (i - 1). dma s5 (hb (i + 1) + k) = f0 (off + (i - 1) * HB + k)))"
proof -
  let ?c = "\<lparr>to_host = True, hoff = hb i, foff = off + i * HB, left = cur_chunk B i\<rparr>"
  have g: "good s" and k: "one_way True (vw s)"
    and cnt: "unat (done_count True (vw s)) + length (cmds (vw s)) = unat R + i"
    and f0: "dram (vw s) = f0" and other: "done_count False (vw s) = W"
    and old: "0 < i \<Longrightarrow> k < cur_chunk B (i - 1) \<Longrightarrow>
      fst (drain (vw s)) (hb (i + 1) + k) = f0 (off + (i - 1) * HB + k)" for k
    using inv by (simp_all add: from_inv_def)
  have t: "unat (done_count True (vw s)) + length (cmds (vw s)) < 2 ^ 32" using cnt R z(2) by simp
  define hp where "hp = (ucast (of_nat (hb i) div m_fpga_alignment :: u64) :: u32)"
  define fp where "fp = (ucast (of_nat (off + i * HB) div m_fpga_alignment :: u64) :: u32)"
  define pg where "pg = (ucast (of_nat (cur_chunk B i) div m_fpga_alignment :: u64) :: u32)"
  have words: "?c = \<lparr>to_host = True, hoff = unat (push_bit 12 hp), foff = unat (push_bit 12 (ucast fp :: u64)),
      left = unat (push_bit 12 pg)\<rparr>"
    unfolding hp_def fp_def pg_def cmd_words [OF z] by (rule refl)
  obtain s2 s3 s4 where
    w: "uw m_host_mem_arg hp s = Some s2" "uw m_fpga_mem_arg fp s2 = Some s3"
      "uw m_to_host_cmd pg s3 = Some s4"
    and g4: "good s4" and k4: "one_way True (vw s4)" and l4: "\<exists>cs. cmds (vw s4) = cs @ [?c]"
    and d4: "drain (vw s4) = exec ?c (drain (vw s))"
    and cnt4: "unat (done_count True (vw s4)) + length (cmds (vw s4)) = unat R + i + 1"
    and oth4: "done_count False (vw s4) = done_count False (vw s)" "dram (vw s4) = dram (vw s)"
    using issue_cmd [OF g k _ t words, of 1036] copy_sizesD(10) [OF z] cnt by (auto simp: dram_regs)
  have t4: "unat (done_count True (vw s4)) + length (cmds (vw s4)) < 2 ^ 32" using cnt4 R z(2) by simp
  have tgt: "unat (ucast R + of_nat i :: u64) = unat R + i" using R z(2) by (intro poll_target) simp
  obtain c5 s5 n where p: "poll_count ur m_fpga_read_stat_off (ucast R + of_nat i) s4 = Some (c5, s5)"
    "good s5" "vw s5 = bursts n (vw s4)" "c5 = done_count True (vw s5)" "unat R + i \<le> unat c5"
    using poll_count_returns [OF g4 k4 t4, of "ucast R + of_nat i" 1028] tgt cnt4
    by (auto simp: dram_regs)
  have k5: "one_way True (vw s5)" using bursts_one_way [OF k4] p(3) by simp
  have cnt5: "unat (done_count True (vw s5)) + length (cmds (vw s5)) = unat R + i + 1"
    using bursts_count [OF k4 t4, of n] cnt4 p(3) by simp
  then have len5: "length (cmds (vw s5)) \<le> 1" using p(4,5) by simp
  have "cmd_in (hb i) (hb i + HB) ?c" using copy_sizesD(11) [OF z(1)] by (simp add: cmd_in_def)
  then have reg5: "\<forall>c\<in>set (cmds (vw s5)). cmd_in (hb i) (hb i + HB) c"
    using l4 bursts_last [of "vw s4" _ ?c "hb i" "hb i + HB" n] len5 p(3) by auto
  have "snd (drain (vw s)) = f0" using to_host_drain(1) [OF k] f0 by simp
  then have dr5: "fst (drain (vw s5)) = copy_bytes f0 (off + i * HB) (fst (drain (vw s))) (hb i) (cur_chunk B i)"
    using p(3) by (cases "drain (vw s)") (simp add: d4 exec_def)
  have apart: "hb (i + 1) + HB \<le> hb i \<or> hb i + HB \<le> hb (i + 1)" by (rule hb_values(4))
  have seen: "dma s5 (hb (i + 1) + k) = f0 (off + (i - 1) * HB + k)" if "0 < i" "k < cur_chunk B (i - 1)" for k
  proof -
    have kb: "k < HB" using that(2) copy_sizesD(11) [OF z(1), of "i - 1"] by simp
    have o: "hb (i + 1) + k < hb i \<or> hb i + HB \<le> hb (i + 1) + k" using apart kb by auto
    have "dma s5 (hb (i + 1) + k) = fst (drain (vw s5)) (hb (i + 1) + k)"
      using to_host_drain(2) [OF k5 reg5 o] dma_law [OF p(2)] by simp
    also have "\<dots> = fst (drain (vw s)) (hb (i + 1) + k)"
      unfolding dr5 copy_bytes_apply using o copy_sizesD(11) [OF z(1), of i] by auto
    finally show ?thesis using old [OF that] by simp
  qed
  have "fst (drain (vw s5)) (hb i + k) = f0 (off + i * HB + k)" if "k < cur_chunk B i" for k
    unfolding dr5 copy_bytes_apply using that by simp
  moreover have "done_count False (vw s5) = W"
    using bursts_other_count [OF k4, of n] p(3) oth4(1) other by simp
  moreover have "dram (vw s5) = f0" using bursts_dram_stays [OF k4] p(3) oth4(2) f0 by simp
  ultimately have "from_inv off B f0 R W (i + 1) s5"
    unfolding from_inv_def using p(2) k5 cnt5 len5 reg5 hb_values(3) [of i] by simp
  with w p(1) seen show ?thesis unfolding hp_def fp_def pg_def by blast
qed

lemma from_loop:
  assumes z: "copy_sizes off S B N" and R: "unat R + N < 2 ^ 32"
  shows "n + i = N \<Longrightarrow> from_inv off B f0 R W i s \<Longrightarrow> from_vars off S B N i ho ofs bts db lst \<Longrightarrow>
    buf = from_part off i f0 buffer \<Longrightarrow>
    \<exists>s'. from_fpga_loop uw ur dma R n (of_nat i) ho ofs bts db lst buf s
        = Some (of_nat ((N - 1) * HB), of_nat (S - (N - 1) * HB), from_part off N f0 buffer, s')
      \<and> from_inv off B f0 R W N s'"
proof (induction n arbitrary: i s ho ofs bts db lst buf)
  case 0
  then show ?case by (simp add: from_vars_def)
next
  case (Suc n)
  have i: "i < N" using Suc.prems(1) by simp
  have e: "ofs = of_nat (off + i * HB)" "bts = of_nat (B - i * HB)" "ho = of_nat ((i - 1) * HB)"
    "db = of_nat (S - (i - 1) * HB)" "lst = (if i = 0 then 0 else of_nat (cur_chunk B (i - 1)))"
    using Suc.prems(3) i by (simp_all add: from_vars_def)
  have big: "i < 2 ^ 64" "B < 2 ^ 64" using i copy_sizesD(5,6) [OF z] by simp_all
  have i0: "(0 < (of_nat i :: u64)) = (0 < i)" using u64_less [of 0 i] big(1) by simp
  obtain s2 s3 s4 cnt s5 where
    w: "uw m_host_mem_arg (ucast (of_nat (hb i) div m_fpga_alignment :: u64)) s = Some s2"
      "uw m_fpga_mem_arg (ucast (of_nat (off + i * HB) div m_fpga_alignment :: u64)) s2 = Some s3"
      "uw m_to_host_cmd (ucast (of_nat (cur_chunk B i) div m_fpga_alignment :: u64)) s3 = Some s4"
      "poll_count ur m_fpga_read_stat_off (ucast R + of_nat i) s4 = Some (cnt, s5)"
    and inv: "from_inv off B f0 R W (i + 1) s5"
    and seen: "0 < i \<Longrightarrow> k < cur_chunk B (i - 1) \<Longrightarrow> dma s5 (hb (i + 1) + k) = f0 (off + (i - 1) * HB + k)" for k
    using from_step [OF z i Suc.prems(2) R] by blast
  let ?cur = "of_nat (cur_chunk B i) :: u64"
  define r where "r = (if 0 < (of_nat i :: u64)
    then (ho + lst, db - lst, copy_bytes (dma s5) (unat (of_nat (hb (i + 1)) :: u64)) buf (unat ho) (unat lst))
    else (ho, db, buf))"
  have r: "r = (of_nat (i * HB), of_nat (S - i * HB), from_part off (i + 1) f0 buffer)"
  proof (cases "i = 0")
    case True
    then show ?thesis using e Suc.prems(4) by (simp add: r_def from_part_def)
  next
    case False
    have c: "cur_chunk B (i - 1) = HB" using False i by (intro copy_sizesD(9) [OF z]) simp
    have im: "(i - 1) * HB + HB = i * HB" using False by (simp add: algebra_simps)
    have lt: "i * HB < S" by (rule copy_sizesD(8) [OF z i])
    have l: "lst = of_nat HB" using e(5) False c by simp
    have h: "ho + lst = of_nat (i * HB)" unfolding e(3) l im [symmetric] by simp
    have "db - lst = of_nat (S - (i - 1) * HB - HB)" unfolding e(4) l using lt im by (intro u64_diff) simp
    also have "S - (i - 1) * HB - HB = S - i * HB" using im by simp
    finally have d: "db - lst = of_nat (S - i * HB)" .
    have "(i - 1) * HB < 2 ^ 64" using big lt copy_sizesD(3) [OF z] im by linarith
    then have us1: "unat ho = (i - 1) * HB" unfolding e(3) by (rule unat_u64)
    have us: "unat lst = HB" "unat (of_nat (hb (i + 1)) :: u64) = hb (i + 1)"
      using l hb_values(1) [of "i + 1"] by simp_all
    have "copy_bytes (dma s5) (hb (i + 1)) buf ((i - 1) * HB) HB = from_part off (i + 1) f0 buffer"
    proof
      fix x
      have "dma s5 (hb (i + 1) + (x - (i - 1) * HB)) = f0 (off + x)" if "(i - 1) * HB \<le> x" "x < i * HB"
        using seen [of "x - (i - 1) * HB"] that False c im by simp
      then show "copy_bytes (dma s5) (hb (i + 1)) buf ((i - 1) * HB) HB x = from_part off (i + 1) f0 buffer x"
        unfolding copy_bytes_apply im from_part_def Suc.prems(4) using im by auto
    qed
    then show ?thesis using False h d us1 us i0 by (simp add: r_def)
  qed
  have "from_vars off S B N (i + 1) (of_nat (i * HB)) (ofs + ?cur) (bts - ?cur) (of_nat (S - i * HB)) ?cur"
  proof -
    have "loop_vars off S B N i (of_nat (i * HB)) ofs bts (of_nat (S - i * HB))"
      unfolding loop_vars_def using e(1,2) by blast
    from loop_vars_next [OF z this refl]
    have "i + 1 < N \<longrightarrow> ofs + ?cur = of_nat (off + (i + 1) * HB) \<and> bts - ?cur = of_nat (B - (i + 1) * HB)"
      unfolding loop_vars_def by blast
    moreover have "i + 1 - 1 = i" "(i + 1 = 0) = False" by simp_all
    ultimately show ?thesis unfolding from_vars_def by (simp only: if_False simp_thms)
  qed
  from Suc.IH [OF _ inv this refl] Suc.prems(1) show ?case
    unfolding from_fpga_loop.simps Let_def e(1,2) chunk_words(1,2,3) [OF big] w bind.bind_lunit prod.case
    unfolding r_def [symmetric] r prod.case by (simp add: add.commute)
qed

end

text \<open>The last chunk, from the half it is in.\<close>

lemma from_tail:
  assumes z: "copy_sizes off S B N"
    and d: "0 < N \<Longrightarrow> \<forall>k<cur_chunk B (N - 1). m (hb (N + 1) + k) = f0 (off + (N - 1) * HB + k)"
  shows "(if S - (N - 1) * HB \<ge> HB then copy_bytes m (hb (N + 1)) (from_part off N f0 buffer) ((N - 1) * HB) HB
      else fill_bytes 0xff (copy_bytes m (hb (N + 1)) (from_part off N f0 buffer) ((N - 1) * HB) (S - (N - 1) * HB))
             ((N - 1) * HB + (S - (N - 1) * HB)) (HB - (S - (N - 1) * HB)))
    = from_spec off S N f0 buffer"
proof (cases "N = 0")
  case True
  then have "S = 0" using copy_sizesD(3,4) [OF z] by simp
  then show ?thesis
    using True by (auto simp: fill_bytes_def copy_bytes_def from_part_def from_spec_def fun_eq_iff)
next
  case False
  let ?b = "(N - 1) * HB"
  have N: "N * HB = ?b + HB" using False by (cases N) simp_all
  have lt: "?b < S" "?b < B" using False by (intro copy_sizesD(7,8) [OF z]; simp)+
  have le: "S \<le> B" "B \<le> N * HB" using copy_sizesD(3,4) [OF z] by simp_all
  have cur: "S - ?b \<le> cur_chunk B (N - 1)" using le lt N by (simp add: cur_chunk_def)
  have m: "m (hb (N + 1) + (x - ?b)) = f0 (off + x)" if "?b \<le> x" "x < S" for x
    using d [rule_format, of "x - ?b"] that False cur by simp
  have mx: "max 1 N * HB = ?b + HB" using False N by (simp add: max_def)
  show ?thesis
  proof
    fix x
    show "(if S - ?b \<ge> HB then copy_bytes m (hb (N + 1)) (from_part off N f0 buffer) ?b HB
      else fill_bytes 0xff (copy_bytes m (hb (N + 1)) (from_part off N f0 buffer) ?b (S - ?b))
             (?b + (S - ?b)) (HB - (S - ?b))) x = from_spec off S N f0 buffer x"
      using m [of x] lt le N
      unfolding from_spec_def mx by (auto simp: fill_bytes_def copy_bytes_apply from_part_def)
  qed
qed

context dram_port
begin

lemma CopyFromFPGA_copies:
  assumes g: "good s" and idle: "cmds (vw s) = []"
    and q: "m_read_done_total q = dramReadBurstDoneCount (vw s)"
    and R: "unat (m_read_done_total q) + dram_chunks bytes < 2 ^ 32"
    and B: "dram_off offset + dram_len bytes \<le> 2 ^ 43"
  shows "\<exists>s'. CopyFromFPGA uw ur dma offset buffer bytes (q, s) =
      Some (from_spec (dram_off offset) (unat bytes) (dram_chunks bytes) (dram (vw s)) buffer,
        q\<lparr>m_read_done_total := m_read_done_total q + of_nat (dram_chunks bytes)\<rparr>, s')
    \<and> good s' \<and> cmds (vw s') = []
    \<and> dramReadBurstDoneCount (vw s') = m_read_done_total q + of_nat (dram_chunks bytes)
    \<and> dramWriteBurstDoneCount (vw s') = dramWriteBurstDoneCount (vw s)
    \<and> dram (vw s') = dram (vw s)"
proof -
  let ?R = "m_read_done_total q" and ?N = "dram_chunks bytes" and ?O = "dram_off offset" and ?B = "dram_len bytes"
  let ?W = "dramWriteBurstDoneCount (vw s)" and ?S = "unat bytes" and ?f0 = "dram (vw s)"
  note z = dram_sizes [OF B]
  have N: "unat (of_nat ?N :: u64) = ?N" "?N < 2 ^ 64" using copy_sizesD(6) [OF z(1)] by simp_all
  have b: "(?N - 1) * HB < 2 ^ 64" "?S - (?N - 1) * HB < 2 ^ 64" "hb (?N + 1) < 2 ^ 64" "HB < 2 ^ 64"
    using copy_sizesD(3,5,6) [OF z(1)] hb_values(1) [of "?N + 1"] by simp_all
  have "from_inv ?O ?B ?f0 ?R ?W 0 s"
    using g idle q by (simp add: from_inv_def one_way_def done_count_def)
  moreover have "from_vars ?O ?S ?B ?N 0 0 (align_offset offset) (round_bytes bytes) bytes 0"
    using z(2,3) by (simp add: from_vars_def)
  moreover have "buffer = from_part ?O 0 ?f0 buffer" by (simp add: from_part_def)
  ultimately obtain s1 where s1: "from_fpga_loop uw ur dma ?R ?N 0 0 (align_offset offset) (round_bytes bytes)
      bytes 0 buffer s = Some (of_nat ((?N - 1) * HB), of_nat (?S - (?N - 1) * HB), from_part ?O ?N ?f0 buffer, s1)"
    "from_inv ?O ?B ?f0 ?R ?W ?N s1"
    using from_loop [OF z(1) R, of ?N 0 ?f0 ?W s 0 "align_offset offset" "round_bytes bytes" bytes 0 buffer buffer]
    by auto
  have i1: "good s1" "one_way True (vw s1)" "done_count False (vw s1) = ?W" "dram (vw s1) = ?f0"
    "unat (done_count True (vw s1)) + length (cmds (vw s1)) = unat ?R + ?N"
    "0 < ?N \<Longrightarrow> \<forall>k<cur_chunk ?B (?N - 1). fst (drain (vw s1)) (hb (?N + 1) + k) = ?f0 (?O + (?N - 1) * HB + k)"
    using s1(2) by (simp_all add: from_inv_def)
  have t: "unat (ucast ?R + of_nat ?N :: u64) = unat ?R + ?N" using R by (intro poll_target) simp
  obtain c s2 n where s2: "poll_count ur m_fpga_read_stat_off (ucast ?R + of_nat ?N) s1 = Some (c, s2)"
    "good s2" "vw s2 = bursts n (vw s1)" "c = done_count True (vw s2)" "unat ?R + ?N \<le> unat c"
    using poll_count_returns [OF i1(1,2), of "ucast ?R + of_nat ?N" 1028] i1(5) R t
    by (auto simp: dram_regs)
  have "unat (done_count True (vw s2)) + length (cmds (vw s2)) = unat ?R + ?N"
    using bursts_count [OF i1(2), of n] i1(5) R s2(3) by simp
  then have "length (cmds (vw s2)) = 0 \<and> unat (done_count True (vw s2)) = unat ?R + ?N"
    using s2(5) [unfolded s2(4)] by linarith
  then have e: "cmds (vw s2) = []" and uc: "unat c = unat ?R + ?N" using s2(4) by simp_all
  have c: "c = ?R + of_nat ?N"
    using uc R by (simp add: word_unat_eq_iff unat_add_lem [THEN iffD1] unat_of_nat_small)
  have m: "dma s2 = fst (drain (vw s1))"
    using dma_law [OF s2(2)] drain_done [OF e] s2(3) by (metis bursts_drain fst_conv)
  have sum: "unat (of_nat ((?N - 1) * HB) + of_nat (?S - (?N - 1) * HB) :: u64) = (?N - 1) * HB + (?S - (?N - 1) * HB)"
  proof -
    have "(?N - 1) * HB + (?S - (?N - 1) * HB) < 2 ^ 64" using copy_sizesD(3,5,6) [OF z(1)] by simp
    then have "unat (of_nat ((?N - 1) * HB + (?S - (?N - 1) * HB)) :: u64) = (?N - 1) * HB + (?S - (?N - 1) * HB)"
      by (rule unat_u64)
    then show ?thesis by simp
  qed
  let ?dst = "of_nat (?S - (?N - 1) * HB) :: u64"
  have half: "(?dst \<ge> of_nat HB) = (?S - (?N - 1) * HB \<ge> HB)"
    using u64_less [OF b(2,4)] by (simp only: linorder_not_less [symmetric])
  have diff: "unat (of_nat HB - ?dst) = HB - (?S - (?N - 1) * HB)" if "\<not> ?S - (?N - 1) * HB \<ge> HB"
  proof -
    have eq: "(of_nat HB - ?dst) = of_nat (HB - (?S - (?N - 1) * HB))" using that by (intro u64_diff) simp
    show ?thesis unfolding eq by (rule unat_u64) simp
  qed
  have buf: "(if ?dst \<ge> of_nat HB then copy_bytes (dma s2) (hb (?N + 1)) (from_part ?O ?N ?f0 buffer) ((?N - 1) * HB) HB
      else fill_bytes 0xff (copy_bytes (dma s2) (hb (?N + 1)) (from_part ?O ?N ?f0 buffer) ((?N - 1) * HB)
               (?S - (?N - 1) * HB)) ((?N - 1) * HB + (?S - (?N - 1) * HB)) (unat (of_nat HB - ?dst)))
    = from_spec ?O ?S ?N ?f0 buffer"
    using from_tail [OF z(1), of "dma s2" ?f0 buffer] i1(6) diff unfolding half m by (auto split: if_splits)
  have "dramReadBurstDoneCount (vw s2) = ?R + of_nat ?N" using s2(4) c by (simp add: done_count_def)
  moreover have "dramWriteBurstDoneCount (vw s2) = ?W"
    using bursts_other_count [OF i1(2), of n] i1(3) s2(3) by (simp add: done_count_def)
  moreover have "dram (vw s2) = ?f0" using bursts_dram_stays [OF i1(2)] s2(3) i1(4) by simp
  moreover have "CopyFromFPGA uw ur dma offset buffer bytes (q, s) =
      Some (from_spec ?O ?S ?N ?f0 buffer, q\<lparr>m_read_done_total := ?R + of_nat ?N\<rparr>, s2)"
    unfolding CopyFromFPGA_def prod.case Let_def z(4) N(1) s1(1) bind.bind_lunit s2(1) c [symmetric]
      chunk_words(3) [OF N(2) N(2)]
    unfolding HB_u64 unat_u64 [OF b(1)] unat_u64 [OF b(2)] unat_u64 [OF b(3)]
      unat_u64 [OF b(4)] sum buf
    by (rule refl)
  ultimately show ?thesis using s2(2) e by simp
qed

end

lemma from_spec_overrun:
  assumes "dram_off offset + dram_len bytes \<le> 2 ^ 43" "unat bytes mod HB \<noteq> 0 \<or> bytes = 0"
  shows "from_spec off (unat bytes) (dram_chunks bytes) f0 buffer (unat bytes) = 0xff"
proof -
  have "unat bytes \<le> dram_chunks bytes * HB"
    using copy_sizesD(3,4) [OF dram_sizes(1) [OF assms(1)]] by simp
  moreover have "unat bytes \<noteq> dram_chunks bytes * HB \<or> dram_chunks bytes = 0"
    using assms(2)
  proof
    assume m: "unat bytes mod HB \<noteq> 0"
    have "unat bytes \<noteq> dram_chunks bytes * HB"
    proof
      assume "unat bytes = dram_chunks bytes * HB"
      then have "unat bytes mod HB = 0" by (metis mod_mult_self2_is_0)
      with m show False ..
    qed
    then show ?thesis ..
  qed (simp add: dram_chunks_def dram_len_def)
  ultimately have "unat bytes < max 1 (dram_chunks bytes) * HB" by (auto simp: max_def)
  then show ?thesis by (simp add: from_spec_def)
qed

subsection \<open>The constructor, and a copy there and back\<close>

lemma bursts_idle: "cmds v = [] \<Longrightarrow> bursts n v = v"
  by (induction n) (simp_all add: burst_nil)

definition dma_ready :: "hostdma \<Rightarrow> dramview \<Rightarrow> bool" where
  "dma_ready q v \<longleftrightarrow> cmds v = [] \<and> m_write_done_total q = dramWriteBurstDoneCount v
     \<and> m_read_done_total q = dramReadBurstDoneCount v"

context dram_port
begin

lemma DRAMHostDMA_init_ready:
  assumes "good s" "cmds (vw s) = []"
  shows "\<exists>q s'. DRAMHostDMA_init ur s = Some (q, s') \<and> good s' \<and> vw s' = vw s \<and> dma_ready q (vw s')"
proof -
  obtain s1 where s1: "ur 1024 s = Some (dram_get (vw s1) (ucast (1024 :: u32)), s1)" "good s1" "vw s1 = vw s"
    using ur_law [OF assms(1), of 1024] bursts_idle [OF assms(2)] by auto
  obtain s2 where s2: "ur 1028 s1 = Some (dram_get (vw s2) (ucast (1028 :: u32)), s2)" "good s2" "vw s2 = vw s1"
    using ur_law [OF s1(2), of 1028] bursts_idle [of "vw s1"] assms(2) s1(3) by auto
  show ?thesis
    using s1 s2 assms(2)
    by (auto simp: DRAMHostDMA_init_def dram_regs dma_ready_def dram_get_def)
qed

lemma copy_there_and_back:
  assumes "good s" "dma_ready q (vw s)"
    and W: "unat (m_write_done_total q) + dram_chunks bytes < 2 ^ 32"
    and R: "unat (m_read_done_total q) + dram_chunks bytes < 2 ^ 32"
    and B: "dram_off offset + dram_len bytes \<le> 2 ^ 43"
  shows "\<exists>q1 s1 buf q2 s2. CopyToFPGA uw ur dma_upd offset buffer bytes (q, s) = Some (q1, s1)
    \<and> CopyFromFPGA uw ur dma offset buffer' bytes (q1, s1) = Some (buf, q2, s2)
    \<and> (\<forall>k<unat bytes. buf k = buffer k) \<and> good s2 \<and> dma_ready q2 (vw s2)"
proof -
  have i: "cmds (vw s) = []" "m_write_done_total q = dramWriteBurstDoneCount (vw s)"
    "m_read_done_total q = dramReadBurstDoneCount (vw s)"
    using assms(2) by (simp_all add: dma_ready_def)
  let ?q1 = "q\<lparr>m_write_done_total := m_write_done_total q + of_nat (dram_chunks bytes)\<rparr>"
  obtain s1 where s1: "CopyToFPGA uw ur dma_upd offset buffer bytes (q, s) = Some (?q1, s1)" "good s1"
    "cmds (vw s1) = []" "dramReadBurstDoneCount (vw s1) = dramReadBurstDoneCount (vw s)"
    "dramWriteBurstDoneCount (vw s1) = m_write_done_total q + of_nat (dram_chunks bytes)"
    "dram (vw s1) = to_spec (dram_off offset) (dram_len bytes) (padded (unat bytes) buffer) (dram (vw s))"
    using CopyToFPGA_copies [OF assms(1) i(1,2) W B, of buffer] by blast
  obtain s2 where s2: "CopyFromFPGA uw ur dma offset buffer' bytes (?q1, s1) =
      Some (from_spec (dram_off offset) (unat bytes) (dram_chunks bytes) (dram (vw s1)) buffer',
        ?q1\<lparr>m_read_done_total := m_read_done_total ?q1 + of_nat (dram_chunks bytes)\<rparr>, s2)" "good s2"
    "cmds (vw s2) = []" "dramReadBurstDoneCount (vw s2) = m_read_done_total ?q1 + of_nat (dram_chunks bytes)"
    "dramWriteBurstDoneCount (vw s2) = dramWriteBurstDoneCount (vw s1)"
    using CopyFromFPGA_copies [OF s1(2,3), of ?q1 bytes offset buffer'] i(3) s1(4) R B by auto
  have "unat bytes \<le> dram_len bytes" by (rule copy_sizesD(3) [OF dram_sizes(1) [OF B]])
  then have "\<forall>k<unat bytes. from_spec (dram_off offset) (unat bytes) (dram_chunks bytes) (dram (vw s1)) buffer' k = buffer k"
    by (simp add: from_spec_def s1(6) to_spec_def padded_def)
  then show ?thesis using s1 s2 by (simp add: dma_ready_def)
qed

end

subsection \<open>A counter that wraps\<close>

text \<open>The target is computed at 64 bits, the counter has 32: a target beyond them is never reached.\<close>

lemma poll_count_beyond:
  assumes "2 ^ 32 \<le> unat target"
  shows "poll_count ur off target s = None"
proof -
  have "\<not> (\<not> (case r of None \<Rightarrow> False | Some (cnt, s) \<Rightarrow> (ucast (cnt :: u32) :: u64) < target))" if "r = Some (c, s')" for r c s'
    using that assms unat_u32_less [of c] by (simp add: word_less_nat_alt)
  then show ?thesis
    unfolding poll_count_def by (force split: option.splits dest: while_option_stop)
qed

lemma copies_stuck_at_wrap:
  assumes "dram_off offset + dram_len bytes \<le> 2 ^ 43"
  shows "2 ^ 32 \<le> unat (m_write_done_total q) + dram_chunks bytes \<Longrightarrow>
      CopyToFPGA uw ur upd offset buffer bytes (q, s) = None"
    and "2 ^ 32 \<le> unat (m_read_done_total q) + dram_chunks bytes \<Longrightarrow>
      CopyFromFPGA uw ur dma offset buffer bytes (q, s) = None"
proof -
  note z = dram_sizes [OF assms]
  have t: "unat (ucast w + of_nat (dram_chunks bytes) :: u64) = unat w + dram_chunks bytes" for w :: u32
    using unat_u32_less [of w] copy_sizesD(6) [OF z(1)] by (intro poll_target) simp
  show "2 ^ 32 \<le> unat (m_write_done_total q) + dram_chunks bytes \<Longrightarrow>
      CopyToFPGA uw ur upd offset buffer bytes (q, s) = None"
    unfolding CopyToFPGA_def Let_def z(4) using t [of "m_write_done_total q"]
    by (auto simp: poll_count_beyond split: bind_splits)
  show "2 ^ 32 \<le> unat (m_read_done_total q) + dram_chunks bytes \<Longrightarrow>
      CopyFromFPGA uw ur dma offset buffer bytes (q, s) = None"
    unfolding CopyFromFPGA_def Let_def z(4) using t [of "m_read_done_total q"]
    by (auto simp: poll_count_beyond split: bind_splits)
qed

end
