(* ===== verification/DramDev.thy ===== *)
theory DramDev
  imports DramCopyBack PcieDev
begin

text \<open>
  \<open>DRAMHostDMA\<close> on the device: the user logic behind the BAR is the copying hardware, which
  takes the queued register writes and runs its bursts at a pace of its own. The DMA
  buffer of the host is the one the hardware reads and writes.
\<close>

type_synonym dramsys = "bdbm \<times> dramview pcidev"

definition dram_wired :: "dramview pcidev \<Rightarrow> bool" where
  "dram_wired d \<longleftrightarrow> user_put d = dram_put \<and> user_get d = dram_get
     \<and> (\<forall>t. \<exists>n. 0 < n \<and> user_run d t = bursts n) \<and> dev_live d"

text \<open>The hardware as the software has commanded it: after the writes still queued.\<close>

definition dram_vw :: "dramsys \<Rightarrow> dramview" where
  "dram_vw s = fold dram_put (userWriteQ (snd s)) (user (snd s))"

definition dram_good :: "dramsys \<Rightarrow> bool" where
  "dram_good s \<longleftrightarrow> pcie_good s \<and> dram_wired (snd s)"

definition dram_todo :: "dramsys \<Rightarrow> nat" where
  "dram_todo s = length (userWriteQ (snd s)) + work (dram_vw s)"

definition dram_dma :: "dramsys \<Rightarrow> mem" where
  "dram_dma s = hostmem (user (snd s))"

definition dram_dma_upd :: "(mem \<Rightarrow> mem) \<Rightarrow> dramsys \<Rightarrow> dramsys" where
  "dram_dma_upd f s = (case s of (p, d) \<Rightarrow> (p, d\<lparr>user := (user d)\<lparr>hostmem := f (hostmem (user d))\<rparr>\<rparr>))"

lemma dram_put_frame:
  "hostmem (dram_put w v) = hostmem v" "dram (dram_put w v) = dram v"
  "done_count k (dram_put w v) = done_count k v"
  "dram_put w (v\<lparr>hostmem := h\<rparr>) = (dram_put w v)\<lparr>hostmem := h\<rparr>"
  by (cases w, simp add: dram_put_def done_count_def Let_def)+

lemma dram_puts_frame:
  "hostmem (fold dram_put ws v) = hostmem v" "dram (fold dram_put ws v) = dram v"
  "done_count k (fold dram_put ws v) = done_count k v"
  "fold dram_put ws (v\<lparr>hostmem := h\<rparr>) = (fold dram_put ws v)\<lparr>hostmem := h\<rparr>"
  by (induction ws arbitrary: v) (simp_all add: dram_put_frame)

lemma dram_get_counts:
  "a = 1024 \<or> a = 1028 \<Longrightarrow> dram_get v (ucast (a :: u32)) = done_count (a = 1028) v"
  by (auto simp: dram_get_def done_count_def)

lemma wired_steps:
  assumes "dram_wired d"
  shows "dram_wired (dev_advance d)" "dram_wired (snd (dev_read d i))" "dram_wired (dev_write d i v)"
  using assms by (auto simp: dram_wired_def dev_advance_def dev_read_def dev_write_def dev_live_def Let_def)

text \<open>Before an access the hardware may run: bursts of the view, and less left to do.\<close>

lemma advance_vw:
  assumes "dram_wired d"
  shows "\<exists>n. dram_vw (p, dev_advance d) = bursts n (dram_vw (p, d))"
    and "dram_todo (p, dev_advance d) \<le> dram_todo (p, d)"
    and "cmds (dram_vw (p, d)) \<noteq> [] \<Longrightarrow> dram_todo (p, dev_advance d) < dram_todo (p, d)"
proof -
  let ?n = "min (user_takes d (dtick d)) (length (userWriteQ d))"
  let ?Q = "userWriteQ d" and ?u = "user d"
  obtain m where m: "0 < m" "user_run d (dtick d) = bursts m" using assms by (auto simp: dram_wired_def)
  have put: "user_put d = dram_put" using assms by (simp add: dram_wired_def)
  have v: "dram_vw (p, dev_advance d) = fold dram_put (drop ?n ?Q) (bursts m (fold dram_put (take ?n ?Q) ?u))"
    by (simp add: dram_vw_def dev_advance_def Let_def m(2) put)
  obtain m' where m': "fold dram_put (drop ?n ?Q) (bursts m (fold dram_put (take ?n ?Q) ?u)) =
      bursts m' (fold dram_put (drop ?n ?Q) (fold dram_put (take ?n ?Q) ?u))"
    using bursts_dram_puts by blast
  have "fold dram_put (drop ?n ?Q) (fold dram_put (take ?n ?Q) ?u) = fold dram_put ?Q ?u"
    by (metis append_take_drop_id comp_apply fold_append)
  then have eq: "dram_vw (p, dev_advance d) = bursts m' (dram_vw (p, d))"
    using v m' by (simp add: dram_vw_def)
  then show "\<exists>n. dram_vw (p, dev_advance d) = bursts n (dram_vw (p, d))" by blast
  have len: "length (userWriteQ (dev_advance d)) = length ?Q - ?n" by (simp add: dev_advance_def Let_def)
  have work: "work (dram_vw (p, dev_advance d)) \<le> work (dram_vw (p, d))" unfolding eq by (rule bursts_work)
  show "dram_todo (p, dev_advance d) \<le> dram_todo (p, d)" using len work by (simp add: dram_todo_def)
  show "dram_todo (p, dev_advance d) < dram_todo (p, d)" if ne: "cmds (dram_vw (p, d)) \<noteq> []"
  proof (cases ?Q)
    case Nil
    obtain k where k: "m = Suc k" using m(1) by (cases m) auto
    have "dram_vw (p, dev_advance d) = bursts k (burst (dram_vw (p, d)))"
      using v Nil by (simp add: dram_vw_def k funpow_swap1)
    then have "work (dram_vw (p, dev_advance d)) < work (dram_vw (p, d))"
      using bursts_work [of k "burst (dram_vw (p, d))"] burst_work [OF ne] by simp
    then show ?thesis using len by (simp add: dram_todo_def)
  next
    case (Cons w ws)
    have "0 < user_takes d (dtick d)" using assms by (simp add: dram_wired_def dev_live_def)
    then have "length (userWriteQ (dev_advance d)) < length ?Q" unfolding len using Cons by simp
    then show ?thesis using work by (simp add: dram_todo_def)
  qed
qed

text \<open>The devices that reads can lead to.\<close>

definition later :: "dramview pcidev \<Rightarrow> dramview pcidev \<Rightarrow> bool" where
  "later d d1 \<longleftrightarrow> dram_wired d1 \<and> (\<forall>p. \<exists>n. dram_vw (p, d1) = bursts n (dram_vw (p, d)))"

lemma later_advance: "later d d1 \<Longrightarrow> later d (dev_advance d1)"
proof -
  assume l: "later d d1"
  have "\<exists>n. dram_vw (p, dev_advance d1) = bursts n (dram_vw (p, d))" for p
  proof -
    obtain n where "dram_vw (p, d1) = bursts n (dram_vw (p, d))" using l by (auto simp: later_def)
    moreover obtain m where "dram_vw (p, dev_advance d1) = bursts m (dram_vw (p, d1))"
      using l advance_vw(1) [of d1 p] by (auto simp: later_def)
    ultimately have "dram_vw (p, dev_advance d1) = bursts (m + n) (dram_vw (p, d))" by (simp add: funpow_add)
    then show ?thesis by blast
  qed
  then show ?thesis using l wired_steps(1) by (simp add: later_def)
qed

lemma dev_read_device: "\<exists>e. snd (dev_read d i) = (dev_advance d)\<lparr>userReadEmit := e\<rparr>"
proof -
  have self: "\<exists>e. dev_advance d = (dev_advance d)\<lparr>userReadEmit := e\<rparr>"
    by (rule exI [of _ "userReadEmit (dev_advance d)"]) simp
  have "snd (dev_read d i) = dev_advance d
    \<or> snd (dev_read d i) = (dev_advance d)\<lparr>userReadEmit := userReadEmit (dev_advance d) + 1\<rparr>"
    by (simp add: dev_read_def Let_def)
  then show ?thesis using self by auto
qed

lemma later_refl: "dram_wired d \<Longrightarrow> later d d"
  unfolding later_def by (auto intro: exI [of _ 0])

lemma later_read: "later d d1 \<Longrightarrow> later d (snd (dev_read d1 i))"
  using later_advance [of d d1] dev_read_device [of d1 i]
  by (auto simp: later_def dram_wired_def dram_vw_def dev_live_def)

lemma vw_write:
  assumes "user_word a"
  shows "dram_vw (p, dev_write d (drop_bit 2 (a + CONFIG_BUFFER_SIZE)) v) =
    dram_put (ucast a, v) (dram_vw (p, dev_advance d))"
  using user_word_index [OF assms] by (simp add: dev_write_user dram_vw_def)

interpretation dram_dev: dram_port "userWriteWord dev_read dev_write" "userReadWord dev_read"
  dram_dma dram_dma_upd dram_good dram_vw dram_todo
proof unfold_locales
  fix s :: dramsys and a v :: u32
  assume g: "dram_good s" and a: "user_word a"
  obtain p d where s: "s = (p, d)" by (cases s)
  obtain s' where r: "userWriteWord dev_read dev_write a v s = Some s'" "pcie_good s'"
    using pcie_port.write_law [of s a v] g a by (auto simp: dram_good_def)
  obtain p' d' where s': "s' = (p', d')" by (cases s')
  have w: "writeWord dev_read dev_write (a + CONFIG_BUFFER_SIZE) v (p, d) = Some (p', d')"
    using r(1) s s' by (simp add: userWriteWord_def)
  have "later d d" using g s later_refl by (simp add: dram_good_def)
  then obtain d1 where d1: "later d d1" "d' = dev_write d1 (drop_bit 2 (a + CONFIG_BUFFER_SIZE)) v"
    using writeWord_device [OF w, of later] later_read by blast
  obtain n where n: "dram_vw (p', dev_advance d1) = bursts n (dram_vw (p', d))"
    using later_advance [OF d1(1)] by (auto simp: later_def)
  have "dram_vw (p', d) = dram_vw (p, d)" by (simp add: dram_vw_def)
  then have "dram_vw s' = dram_put (ucast a, v) (bursts n (dram_vw s))"
    using vw_write [OF a] n d1(2) s s' by simp
  moreover have "dram_good s'" using r(2) d1 wired_steps(3) s' by (simp add: dram_good_def later_def)
  ultimately show "\<exists>s' n. userWriteWord dev_read dev_write a v s = Some s' \<and> dram_good s' \<and>
      dram_vw s' = dram_put (ucast a, v) (bursts n (dram_vw s))"
    using r(1) by blast
next
  fix s :: dramsys and a :: u32
  assume g: "dram_good s" and a: "a = 1024 \<or> a = 1028"
  then have u: "user_word a" by (auto simp: user_word_def)
  obtain p d where s: "s = (p, d)" by (cases s)
  obtain x s' where r: "userReadWord dev_read a s = Some (x, s')" "pcie_good s'"
    using pcie_port.read_law [of s a] g u by (auto simp: dram_good_def)
  obtain p' d' where s': "s' = (p', d')" by (cases s')
  note ui = user_word_index [OF u]
  obtain k where win: "dev_live.write_window (p, d)" "k < 512" "dev_live.read_lag k (p, d)"
    using g s by (auto simp: dram_good_def pcie_good_def pcie_room_def)
  have bar: "in_bar0 (drop_bit 2 (a + CONFIG_BUFFER_SIZE))" using ui(1) by (simp add: user_index_def)
  have wd: "dram_wired d" using g s by (simp add: dram_good_def)
  obtain d1 where d1: "d1 = d \<or> d1 = snd (dev_read d remit_idx)"
    and xd: "(x, d') = dev_read d1 (drop_bit 2 (a + CONFIG_BUFFER_SIZE))"
    using dev_live.readWord_lag [OF win(1,3,2) bar] r(1) s s' by (auto simp: userReadWord_def)
  have d1': "d1 = d \<or> d1 = dev_advance d" using d1 by (simp add: dev_read_status)
  have l1: "later d d1"
    using d1 later_read [of d d remit_idx] later_refl [OF wd] by auto
  let ?d2 = "dev_advance d1"
  have w1: "dram_wired d1" using l1 by (simp add: later_def)
  obtain e where e: "d' = ?d2\<lparr>userReadEmit := e\<rparr>"
    using dev_read_device [of d1 "drop_bit 2 (a + CONFIG_BUFFER_SIZE)"] xd by (metis snd_conv)
  then have vw': "dram_vw s' = dram_vw (p, ?d2)" "dram_todo s' = dram_todo (p, ?d2)"
    using s' by (simp_all add: dram_vw_def dram_todo_def)
  have "x = user_get d1 (user ?d2) (ucast a)"
    using xd dev_read_user(2) [OF ui(1), of d1] ui(2) by (metis fst_conv)
  moreover have "user_get d1 = dram_get" using w1 by (simp add: dram_wired_def)
  ultimately have x: "x = dram_get (dram_vw s') (ucast a)"
    unfolding vw' dram_get_counts [OF a] by (simp add: dram_get_counts [OF a] dram_vw_def dram_puts_frame)
  obtain n where n: "dram_vw (p, ?d2) = bursts n (dram_vw (p, d))"
    using later_advance [OF l1] by (auto simp: later_def)
  have "dram_todo (p, ?d2) < dram_todo (p, d)" if ne: "cmds (dram_vw (p, d)) \<noteq> []"
  proof (cases "d1 = d")
    case True
    then show ?thesis using advance_vw(3) [OF wd ne] by simp
  next
    case False
    then have "dram_todo (p, d1) < dram_todo (p, d)" using d1' advance_vw(3) [OF wd ne] by simp
    then show ?thesis using advance_vw(2) [OF w1, of p] by simp
  qed
  moreover have "dram_good s'" using r(2) wired_steps(2) [OF w1] xd s' by (metis dram_good_def snd_conv)
  ultimately show "\<exists>s' n. userReadWord dev_read a s = Some (dram_get (dram_vw s') (ucast a), s') \<and> dram_good s' \<and>
      dram_vw s' = bursts n (dram_vw s) \<and> (cmds (dram_vw s) \<noteq> [] \<longrightarrow> dram_todo s' < dram_todo s)"
    using r(1) x vw' n s by (intro exI [of _ s'] exI [of _ n]) simp
next
  fix s :: dramsys
  show "dram_dma s = hostmem (dram_vw s)" by (simp add: dram_dma_def dram_vw_def dram_puts_frame)
next
  fix s :: dramsys and f
  assume g: "dram_good s"
  obtain p d where s: "s = (p, d)" by (cases s)
  show "dram_good (dram_dma_upd f s) \<and> dram_vw (dram_dma_upd f s) = (dram_vw s)\<lparr>hostmem := f (hostmem (dram_vw s))\<rparr>"
    using g
    by (simp add: s dram_dma_upd_def dram_good_def pcie_good_def dram_wired_def dev_live_def dram_vw_def
        dram_puts_frame)
qed

lemma Init_Pcie_dram:
  assumes "userWriteQ d = []" "dram_wired d" "cmds (user d) = []"
  shows "dram_good (Init_Pcie dev_write d)" "dram_vw (Init_Pcie dev_write d) = user d"
proof -
  show "dram_good (Init_Pcie dev_write d)"
    using Init_Pcie_good(1) [OF assms(1)] wired_steps(3) [OF assms(2)] assms(2)
    by (simp add: dram_good_def Init_Pcie_def dram_wired_def)
  obtain n where "user_run d (dtick d) = bursts n" using assms(2) by (auto simp: dram_wired_def)
  then show "dram_vw (Init_Pcie dev_write d) = user d"
    using assms(1) bursts_idle [OF assms(3)]
    by (simp add: Init_Pcie_def dram_vw_def dev_write_def bar_addr_def dev_advance_def Let_def)
qed

end
