(* ===== verification/CStdio.thy ===== *)
theory CStdio
  imports Prelude
begin

text \<open>
  What the command-line tools under \<^verbatim>\<open>distribute/\<close> use of the C library and of Linux: files,
  buffered streams, user ids, a few system calls. A program is a function from the state
  of the system to an outcome; undefined behaviour (a stream used after \<open>fclose\<close>, a buffer
  overrun) is an outcome of its own, and so is a loop that does not end. What the environment decides are fields of the state:
  which \<open>fopen\<close> fails, which address a new stream gets, what uninitialised memory holds.
\<close>

datatype sysev =
  SysWrite string nat string
| DeleteModule string
| Unlink string
| Sleep nat

record cfile =
  fpath :: string
  fwr :: bool
  fpos :: nat
  fpend :: string
  fend :: bool

text \<open>
  \<open>cfiles\<close> holds the open streams by address, \<open>syslog\<close> what reached the kernel, each with
  the effective user id at the time. The \<open>n\<close>-th \<open>fopen\<close> fails if \<open>refuse n\<close> and otherwise
  allocates a stream at \<open>addr_of n\<close>; \<open>bufsz\<close> is the size of a stream's buffer.
\<close>

record os =
  files :: "string \<Rightarrow> string option"
  cfiles :: "(nat \<times> cfile) list"
  syslog :: "(nat \<times> sysev) list"
  nopens :: nat
  refuse :: "nat \<Rightarrow> bool"
  addr_of :: "nat \<Rightarrow> nat"
  bufsz :: nat
  junk :: string
  junk_byte :: char
  heap_slack :: nat
  pci_dir :: "string list option"
  saved_ids :: bool
  uid_r :: nat
  uid_e :: nat
  uid_s :: nat
  g_ruid :: nat
  g_euid :: nat

datatype 'a outcome = Done 'a os | Exit int os | Rebooted os | Undefined | Hang

definition and_then :: "(os \<Rightarrow> 'a outcome) \<Rightarrow> ('a \<Rightarrow> os \<Rightarrow> 'b outcome) \<Rightarrow> os \<Rightarrow> 'b outcome" where
  "and_then p f s = (case p s of Done x s1 \<Rightarrow> f x s1 | Exit c s1 \<Rightarrow> Exit c s1
     | Rebooted s1 \<Rightarrow> Rebooted s1 | Undefined \<Rightarrow> Undefined | Hang \<Rightarrow> Hang)"

lemma and_then_simps [simp]:
  "p s = Done x s1 \<Longrightarrow> and_then p f s = f x s1"
  "p s = Exit c s1 \<Longrightarrow> and_then p f s = Exit c s1"
  "p s = Rebooted s1 \<Longrightarrow> and_then p f s = Rebooted s1"
  "p s = Undefined \<Longrightarrow> and_then p f s = Undefined"
  "p s = Hang \<Longrightarrow> and_then p f s = Hang"
  by (simp_all add: and_then_def)

subsection \<open>Streams\<close>

definition sysfs :: "string \<Rightarrow> bool" where
  "sysfs path \<longleftrightarrow> take 5 path = ''/sys/''"

text \<open>Opening for writing empties a file, but not an attribute of sysfs.\<close>

definition c_fopen :: "string \<Rightarrow> bool \<Rightarrow> os \<Rightarrow> nat option outcome" where
  "c_fopen path wr s =
     (let n = nopens s; s1 = s\<lparr>nopens := n + 1\<rparr> in
      if refuse s n \<or> (\<not> wr \<and> files s path = None) then Done None s1
      else (let f = \<lparr>fpath = path, fwr = wr, fpos = 0, fpend = [], fend = False\<rparr>;
                s2 = (if wr \<and> \<not> sysfs path then s1\<lparr>files := (files s1)(path \<mapsto> [])\<rparr> else s1)
            in Done (Some (addr_of s n)) (s2\<lparr>cfiles := (addr_of s n, f) # cfiles s2\<rparr>)))"

definition overwrite :: "string \<Rightarrow> nat \<Rightarrow> string \<Rightarrow> string" where
  "overwrite old off new = take off old @ new @ drop (off + length new) old"

definition put_bytes :: "string \<Rightarrow> nat \<Rightarrow> string \<Rightarrow> os \<Rightarrow> os" where
  "put_bytes path off bs s =
     s\<lparr>files := (files s)(path \<mapsto> overwrite (case files s path of None \<Rightarrow> [] | Some c \<Rightarrow> c) off bs),
       syslog := syslog s @ [(uid_e s, SysWrite path off bs)]\<rparr>"

definition flush_file :: "cfile \<Rightarrow> os \<Rightarrow> os" where
  "flush_file f s = (if fpend f = [] then s else put_bytes (fpath f) (fpos f) (fpend f) s)"

definition set_file :: "nat \<Rightarrow> cfile \<Rightarrow> os \<Rightarrow> os" where
  "set_file h f s = s\<lparr>cfiles := map (\<lambda>(k, g). (k, if k = h then f else g)) (cfiles s)\<rparr>"

definition c_fclose :: "nat \<Rightarrow> os \<Rightarrow> unit outcome" where
  "c_fclose h s = (case map_of (cfiles s) h of None \<Rightarrow> Undefined
     | Some f \<Rightarrow> Done () ((flush_file f s)\<lparr>cfiles := filter (\<lambda>(k, g). k \<noteq> h) (cfiles s)\<rparr>))"

text \<open>\<open>fprintf\<close> of a string and \<open>fwrite\<close>: a full buffer is written out first.\<close>

definition c_fwrite :: "nat \<Rightarrow> string \<Rightarrow> os \<Rightarrow> unit outcome" where
  "c_fwrite h bs s = (case map_of (cfiles s) h of None \<Rightarrow> Undefined
     | Some f \<Rightarrow>
         if \<not> fwr f then Done () s
         else if length (fpend f) + length bs \<le> bufsz s
         then Done () (set_file h (f\<lparr>fpend := fpend f @ bs\<rparr>) s)
         else Done () (set_file h (f\<lparr>fpos := fpos f + length (fpend f), fpend := bs\<rparr>) (flush_file f s)))"

definition c_fseek :: "nat \<Rightarrow> nat \<Rightarrow> os \<Rightarrow> unit outcome" where
  "c_fseek h off s = (case map_of (cfiles s) h of None \<Rightarrow> Undefined
     | Some f \<Rightarrow> Done () (set_file h (f\<lparr>fpos := off, fpend := [], fend := False\<rparr>) (flush_file f s)))"

definition c_feof :: "nat \<Rightarrow> os \<Rightarrow> bool outcome" where
  "c_feof h s = (case map_of (cfiles s) h of None \<Rightarrow> Undefined | Some f \<Rightarrow> Done (fend f) s)"

definition c_fread :: "nat \<Rightarrow> nat \<Rightarrow> os \<Rightarrow> string outcome" where
  "c_fread h n s = (case map_of (cfiles s) h of None \<Rightarrow> Undefined
     | Some f \<Rightarrow>
         (let rest = (case files s (fpath f) of None \<Rightarrow> [] | Some c \<Rightarrow> drop (fpos f) c);
              got = take n rest
          in Done got (set_file h (f\<lparr>fpos := fpos f + length got, fend := fend f \<or> length got < n\<rparr>) s)))"

text \<open>\<open>fgets\<close> of at most \<open>n - 1\<close> characters; at the end of the file the buffer keeps what it held.\<close>

fun line_of :: "string \<Rightarrow> string" where
  "line_of [] = []"
| "line_of (c # cs) = (if c = CHR 0x0A then [c] else c # line_of cs)"

definition c_fgets :: "nat \<Rightarrow> nat \<Rightarrow> string \<Rightarrow> os \<Rightarrow> string outcome" where
  "c_fgets h n buf s = (case map_of (cfiles s) h of None \<Rightarrow> Undefined
     | Some f \<Rightarrow>
         (let rest = (case files s (fpath f) of None \<Rightarrow> [] | Some c \<Rightarrow> drop (fpos f) c);
              got = take (n - 1) (line_of rest)
          in Done (if got = [] then buf else got) (set_file h (f\<lparr>fpos := fpos f + length got\<rparr>) s)))"

text \<open>The end of the process writes out every open stream, the newest first.\<close>

definition flush_all :: "os \<Rightarrow> os" where
  "flush_all s = (fold (\<lambda>(k, f). flush_file f) (cfiles s) s)\<lparr>cfiles := []\<rparr>"

definition run_tool :: "(os \<Rightarrow> int outcome) \<Rightarrow> os \<Rightarrow> int outcome" where
  "run_tool p s = (case p s of Done c s1 \<Rightarrow> Exit c (flush_all s1)
     | Exit c s1 \<Rightarrow> Exit c (flush_all s1) | r \<Rightarrow> r)"

subsection \<open>Strings\<close>

text \<open>\<open>sprintf\<close> into a buffer of \<open>n\<close> bytes, and the C string at the start of a block of memory.\<close>

definition c_sprintf :: "nat \<Rightarrow> string \<Rightarrow> os \<Rightarrow> string outcome" where
  "c_sprintf n str s = (if length str < n then Done str s else Undefined)"

definition c_string :: "string \<Rightarrow> os \<Rightarrow> string outcome" where
  "c_string block s =
     (if CHR 0x00 \<in> set block then Done (takeWhile (\<lambda>c. c \<noteq> CHR 0x00) block) s else Undefined)"

definition hex_digit :: "char \<Rightarrow> nat option" where
  "hex_digit c =
     (let n = (of_char c :: nat) in
      if 48 \<le> n \<and> n \<le> 57 then Some (n - 48)
      else if 65 \<le> n \<and> n \<le> 70 then Some (n - 55)
      else if 97 \<le> n \<and> n \<le> 102 then Some (n - 87) else None)"

fun hex_value :: "nat \<Rightarrow> string \<Rightarrow> nat" where
  "hex_value acc [] = acc"
| "hex_value acc (c # cs) = (case hex_digit c of None \<Rightarrow> acc | Some d \<Rightarrow> hex_value (16 * acc + d) cs)"

definition c_isspace :: "char \<Rightarrow> bool" where
  "c_isspace c \<longleftrightarrow> (let n = (of_char c :: nat) in n = 32 \<or> (9 \<le> n \<and> n \<le> 13))"

text \<open>\<open>strtol\<close> in base 16 with a 64-bit \<open>long\<close>: spaces, a sign, an optional \<open>0x\<close>, the digits.\<close>

definition strtol16 :: "string \<Rightarrow> int" where
  "strtol16 str =
     (let s1 = dropWhile c_isspace str;
          neg = (s1 \<noteq> [] \<and> hd s1 = CHR ''-'');
          s2 = (if s1 \<noteq> [] \<and> (hd s1 = CHR ''-'' \<or> hd s1 = CHR ''+'') then tl s1 else s1);
          s3 = (if (take 2 s2 = ''0x'' \<or> take 2 s2 = ''0X'') \<and> 2 < length s2 \<and> hex_digit (s2 ! 2) \<noteq> None
                then drop 2 s2 else s2);
          v = int (hex_value 0 s3)
      in if neg then max (- (2 ^ 63)) (- v) else min (2 ^ 63 - 1) v)"

subsection \<open>User ids and other system calls\<close>

definition c_seteuid :: "nat \<Rightarrow> os \<Rightarrow> int outcome" where
  "c_seteuid e s =
     (if uid_e s = 0 \<or> e \<in> {uid_r s, uid_e s, uid_s s} then Done 0 (s\<lparr>uid_e := e\<rparr>) else Done (- 1) s)"

definition c_setreuid :: "nat \<Rightarrow> nat \<Rightarrow> os \<Rightarrow> int outcome" where
  "c_setreuid r e s =
     (if uid_e s = 0 \<or> (r \<in> {uid_r s, uid_e s} \<and> e \<in> {uid_r s, uid_e s, uid_s s})
      then Done 0 (s\<lparr>uid_r := r, uid_e := e, uid_s := e\<rparr>) else Done (- 1) s)"

definition c_log :: "sysev \<Rightarrow> os \<Rightarrow> unit outcome" where
  "c_log e s = Done () (s\<lparr>syslog := syslog s @ [(uid_e s, e)]\<rparr>)"

definition c_access :: "string \<Rightarrow> os \<Rightarrow> bool outcome" where
  "c_access path s = Done (files s path \<noteq> None) s"

definition c_unlink :: "string \<Rightarrow> os \<Rightarrow> unit outcome" where
  "c_unlink path s = Done () (s\<lparr>files := (files s)(path := None), syslog := syslog s @ [(uid_e s, Unlink path)]\<rparr>)"

definition c_reboot :: "os \<Rightarrow> unit outcome" where
  "c_reboot s = (if uid_e s = 0 then Rebooted s else Done () s)"

lemma overwrite_nil [simp]: "overwrite [] 0 new = new"
  by (simp add: overwrite_def)

lemma overwrite_append: "overwrite (overwrite old 0 a) (length a) b = overwrite old 0 (a @ b)"
  by (simp add: overwrite_def add.commute)

lemma overwrite_prefix: "overwrite c 0 (take k c) = c"
  by (cases "k \<le> length c") (simp_all add: overwrite_def min_def)

lemma overwrite_end: "overwrite old (length old) new = old @ new"
  by (simp add: overwrite_def)

abbreviation stream_at :: "string \<Rightarrow> nat \<Rightarrow> string \<Rightarrow> cfile" where
  "stream_at path off bs \<equiv> \<lparr>fpath = path, fwr = True, fpos = off, fpend = bs, fend = False\<rparr>"

lemma map_other_key: "h \<notin> fst ` set fs \<Longrightarrow> map (\<lambda>(k, g). (k, if k = h then f else g)) fs = fs"
  by (induction fs) auto

lemma filter_other_key: "h \<notin> fst ` set fs \<Longrightarrow> filter (\<lambda>(k, g). k \<noteq> h) fs = fs"
  by (induction fs) auto

text \<open>Streams that are open but were only read from do not change what is written.\<close>

definition nothing_pending :: "os \<Rightarrow> bool" where
  "nothing_pending s \<longleftrightarrow> (\<forall>(k, f)\<in>set (cfiles s). fpend f = [])"

lemma flush_all_clean:
  assumes "\<forall>(k, f)\<in>set fs. fpend f = []"
  shows "fold (\<lambda>(k, f). flush_file f) fs s = s"
  using assms by (induction fs arbitrary: s) (auto simp: flush_file_def)

lemma c_string_copy:
  assumes "CHR 0x00 \<notin> set n"
  shows "c_string (n @ [b]) s = (if b = CHR 0x00 then Done n s else Undefined)"
proof -
  have "takeWhile (\<lambda>c. c \<noteq> CHR 0x00) n = n" using assms by (induction n) auto
  then show ?thesis using assms by (auto simp: c_string_def takeWhile_append)
qed

lemma open_sysfs:
  assumes "\<not> refuse s (nopens s)" "sysfs path"
  shows "c_fopen path True s = Done (Some (addr_of s (nopens s)))
    (s\<lparr>nopens := nopens s + 1, cfiles := (addr_of s (nopens s), stream_at path 0 []) # cfiles s\<rparr>)"
  using assms by (simp add: c_fopen_def Let_def)

end
