(* ===== verification/PciTools.thy ===== *)
theory PciTools
  imports CStdio
begin

text \<open>
  What the tools of \<^verbatim>\<open>distribute/bsrescan/main.cpp\<close> and \<^verbatim>\<open>distribute/manager_deprecated/main.cpp\<close>
  share, written out in both: dropping and taking back the privileges of a setuid
  program, and the search for the device in sysfs.
\<close>

abbreviation XILINX_DEVICE :: int where "XILINX_DEVICE \<equiv> 0x7028"
abbreviation XILINX_VENDOR :: int where "XILINX_VENDOR \<equiv> 0x10ee"
abbreviation XILINX_SUBSYSTEM :: int where "XILINX_SUBSYSTEM \<equiv> 0x7"

definition do_setuid :: "os \<Rightarrow> unit outcome" where
  "do_setuid s =
     and_then (\<lambda>s. if saved_ids s then c_seteuid (g_euid s) s else c_setreuid (g_ruid s) (g_euid s) s)
       (\<lambda>status s. if status < 0 then Exit status s else Done () s) s"

definition undo_setuid :: "os \<Rightarrow> unit outcome" where
  "undo_setuid s =
     and_then (\<lambda>s. if saved_ids s then c_seteuid (g_ruid s) s else c_setreuid (g_euid s) (g_ruid s) s)
       (\<lambda>status s. if status < 0 then Exit status s else Done () s) s"

definition pci_path :: "string \<Rightarrow> string \<Rightarrow> string" where
  "pci_path dname fname = ''/sys/bus/pci/devices/'' @ dname @ ''/'' @ fname"

text \<open>The stream it opens is never closed; the buffer of 128 bytes is uninitialised.\<close>

definition read_pci_file_hex :: "string \<Rightarrow> string \<Rightarrow> os \<Rightarrow> int outcome" where
  "read_pci_file_hex dname fname =
     and_then (c_sprintf 128 (pci_path dname fname)) (\<lambda>path.
     and_then (c_fopen path False) (\<lambda>fdev.
       case fdev of
         None \<Rightarrow> Done 0
       | Some h \<Rightarrow>
           and_then (\<lambda>s. c_fgets h 128 (junk s) s) (\<lambda>buf s.
             Done (sint (word_of_int (strtol16 buf) :: u32)) s)))"

definition is_pcie_device :: "string \<Rightarrow> os \<Rightarrow> bool outcome" where
  "is_pcie_device dname =
     and_then (read_pci_file_hex dname ''device'') (\<lambda>device.
     and_then (read_pci_file_hex dname ''vendor'') (\<lambda>vendor.
     and_then (read_pci_file_hex dname ''subsystem_device'') (\<lambda>subsystem_device s.
       Done (device = XILINX_DEVICE \<and> vendor = XILINX_VENDOR
         \<and> subsystem_device = XILINX_SUBSYSTEM) s)))"

text \<open>
  The loop over \<open>readdir\<close>. The name found is copied by \<open>strncpy\<close> without its terminator
  into a block one byte longer than the name.
\<close>

fun find_in_dir :: "string list \<Rightarrow> os \<Rightarrow> string option outcome" where
  "find_in_dir [] s = Done None s"
| "find_in_dir (n # ns) s =
     and_then (is_pcie_device n) (\<lambda>is s.
       if is then Done (Some (n @ [junk_byte s])) s else find_in_dir ns s) s"

definition find_pcie_device :: "os \<Rightarrow> string option outcome" where
  "find_pcie_device s = (case pci_dir s of None \<Rightarrow> Undefined | Some ns \<Rightarrow> find_in_dir ns s)"

subsection \<open>The search\<close>

text \<open>Reading leaves everything as it was but the open streams, which it does not write.\<close>

definition only_read :: "os \<Rightarrow> os \<Rightarrow> bool" where
  "only_read s s' \<longleftrightarrow> s\<lparr>cfiles := [], nopens := 0\<rparr> = s'\<lparr>cfiles := [], nopens := 0\<rparr> \<and> nopens s \<le> nopens s'
     \<and> (\<forall>(k, f)\<in>set (cfiles s').
          (k, f) \<in> set (cfiles s) \<or> fpend f = [] \<and> (\<exists>i<nopens s'. k = addr_of s i))"

lemma only_read_env:
  assumes "only_read s s'"
  shows "refuse s' = refuse s" "addr_of s' = addr_of s" "junk_byte s' = junk_byte s" "files s' = files s"
    "syslog s' = syslog s" "pci_dir s' = pci_dir s" "saved_ids s' = saved_ids s" "uid_r s' = uid_r s"
    "uid_e s' = uid_e s" "uid_s s' = uid_s s" "g_ruid s' = g_ruid s" "g_euid s' = g_euid s"
    "heap_slack s' = heap_slack s" "bufsz s' = bufsz s" "junk s' = junk s" "nopens s \<le> nopens s'"
  using assms by (cases s; cases s'; simp add: only_read_def)+

lemma only_read_refl [simp]: "only_read s s"
  by (auto simp: only_read_def)

lemma only_read_trans: "only_read s s1 \<Longrightarrow> only_read s1 s2 \<Longrightarrow> only_read s s2"
  using only_read_env(2) [of s s1] unfolding only_read_def by (fastforce intro: less_le_trans)


definition attr_line :: "os \<Rightarrow> string \<Rightarrow> string \<Rightarrow> string option" where
  "attr_line s dname fname = map_option (\<lambda>c. take 127 (line_of c)) (files s (pci_path dname fname))"

text \<open>The value of an attribute: 0 when there is no such file.\<close>

definition attr_value :: "os \<Rightarrow> string \<Rightarrow> string \<Rightarrow> int" where
  "attr_value s dname fname = (case attr_line s dname fname of None \<Rightarrow> 0
     | Some l \<Rightarrow> sint (word_of_int (strtol16 (if l = [] then junk s else l)) :: u32))"

definition is_xilinx :: "os \<Rightarrow> string \<Rightarrow> bool" where
  "is_xilinx s dname \<longleftrightarrow> attr_value s dname ''device'' = XILINX_DEVICE
     \<and> attr_value s dname ''vendor'' = XILINX_VENDOR
     \<and> attr_value s dname ''subsystem_device'' = XILINX_SUBSYSTEM"

lemma attr_cong:
  assumes "files s' = files s" "junk s' = junk s"
  shows "attr_value s' d f = attr_value s d f" "is_xilinx s' = is_xilinx s"
proof -
  have v: "attr_value s' d f = attr_value s d f" for d f
    using assms by (auto simp: attr_value_def attr_line_def split: option.split)
  show "attr_value s' d f = attr_value s d f" "is_xilinx s' = is_xilinx s"
    by (simp_all add: v is_xilinx_def fun_eq_iff)
qed

lemma only_read_values:
  assumes "only_read s s'"
  shows "attr_value s' d f = attr_value s d f" "is_xilinx s' d = is_xilinx s d"
  using attr_cong [of s' s] only_read_env [OF assms] by simp_all

lemma read_pci_file_hex_value:
  assumes "\<forall>n. \<not> refuse s n" "length dname \<le> 80" "length fname \<le> 16"
  shows "\<exists>s'. read_pci_file_hex dname fname s = Done (attr_value s dname fname) s' \<and> only_read s s'"
proof (cases "files s (pci_path dname fname)")
  case None
  have len: "length (pci_path dname fname) < 128" using assms(2,3) by (simp add: pci_path_def)
  have "read_pci_file_hex dname fname s = Done 0 (s\<lparr>nopens := nopens s + 1\<rparr>)"
    using len None by (simp add: read_pci_file_hex_def c_sprintf_def c_fopen_def Let_def)
  moreover have "only_read s (s\<lparr>nopens := nopens s + 1\<rparr>)" by (auto simp: only_read_def)
  ultimately show ?thesis using None by (auto simp: attr_value_def attr_line_def)
next
  case (Some c)
  have len: "length (pci_path dname fname) < 128" using assms(2,3) by (simp add: pci_path_def)
  let ?f = "\<lparr>fpath = pci_path dname fname, fwr = False, fpos = 0, fpend = [], fend = False\<rparr>"
  let ?s1 = "s\<lparr>nopens := nopens s + 1, cfiles := (addr_of s (nopens s), ?f) # cfiles s\<rparr>"
  let ?got = "take 127 (line_of c)"
  let ?s2 = "set_file (addr_of s (nopens s)) (?f\<lparr>fpos := length ?got\<rparr>) ?s1"
  have op: "c_fopen (pci_path dname fname) False s = Done (Some (addr_of s (nopens s))) ?s1"
    using assms(1) Some by (simp add: c_fopen_def Let_def)
  have got: "c_fgets (addr_of s (nopens s)) 128 (junk ?s1) ?s1 = Done (if ?got = [] then junk s else ?got) ?s2"
    using Some by (simp add: c_fgets_def Let_def)
  have "read_pci_file_hex dname fname s = Done (attr_value s dname fname) ?s2"
    unfolding read_pci_file_hex_def
    using len op got Some by (simp add: c_sprintf_def attr_value_def attr_line_def)
  moreover have "only_read s ?s2"
    by (auto simp: only_read_def set_file_def split: if_splits)
  ultimately show ?thesis by blast
qed

lemma is_pcie_device_xilinx:
  assumes "\<forall>n. \<not> refuse s n" "length dname \<le> 80"
  shows "\<exists>s'. is_pcie_device dname s = Done (is_xilinx s dname) s' \<and> only_read s s'"
proof -
  obtain s1 where s1: "read_pci_file_hex dname ''device'' s = Done (attr_value s dname ''device'') s1"
    "only_read s s1"
    using read_pci_file_hex_value [OF assms, of "''device''"] by auto
  obtain s2 where s2: "read_pci_file_hex dname ''vendor'' s1 = Done (attr_value s dname ''vendor'') s2"
    "only_read s1 s2"
    using read_pci_file_hex_value [of s1 dname "''vendor''"] assms
    by (auto simp: only_read_env [OF s1(2)] only_read_values [OF s1(2)])
  note r2 = only_read_trans [OF s1(2) s2(2)]
  obtain s3 where s3: "read_pci_file_hex dname ''subsystem_device'' s2 =
      Done (attr_value s dname ''subsystem_device'') s3" "only_read s2 s3"
    using read_pci_file_hex_value [of s2 dname "''subsystem_device''"] assms
    by (auto simp: only_read_env [OF r2] only_read_values [OF r2])
  show ?thesis
    using s1 s2 s3 only_read_trans [OF r2 s3(2)]
    by (auto simp: is_pcie_device_def is_xilinx_def)
qed

lemma find_in_dir_first:
  assumes "\<forall>n. \<not> refuse s n" "\<forall>d\<in>set ns. length d \<le> 80"
  shows "\<exists>s'. find_in_dir ns s = Done (map_option (\<lambda>n. n @ [junk_byte s]) (find (is_xilinx s) ns)) s'
    \<and> only_read s s'"
  using assms
proof (induction ns arbitrary: s)
  case (Cons n ns)
  obtain s1 where s1: "is_pcie_device n s = Done (is_xilinx s n) s1" "only_read s s1"
    using is_pcie_device_xilinx [of s n] Cons.prems by auto
  show ?case
  proof (cases "is_xilinx s n")
    case False
    have "is_xilinx s1 = is_xilinx s" using only_read_values(2) [OF s1(2)] by auto
    then obtain s2 where s2: "find_in_dir ns s1 =
        Done (map_option (\<lambda>n. n @ [junk_byte s]) (find (is_xilinx s) ns)) s2" "only_read s1 s2"
      using Cons.IH [of s1] Cons.prems by (auto simp: only_read_env [OF s1(2)])
    then show ?thesis using s1 False only_read_trans [OF s1(2) s2(2)] by auto
  qed (use s1 in \<open>auto simp: only_read_env\<close>)
qed auto

lemma find_pcie_device_first:
  assumes "\<forall>n. \<not> refuse s n" "pci_dir s = Some ns" "\<forall>d\<in>set ns. length d \<le> 80"
  shows "\<exists>s'. find_pcie_device s = Done (map_option (\<lambda>n. n @ [junk_byte s]) (find (is_xilinx s) ns)) s'
    \<and> only_read s s'"
  using find_in_dir_first [OF assms(1,3)] assms(2) by (simp add: find_pcie_device_def)

subsection \<open>Privileges\<close>

text \<open>
  A setuid program with its privileges, and without: on a system with saved ids only the
  effective id changes, elsewhere the real and the effective id are swapped.
\<close>

definition full_user :: "os \<Rightarrow> bool" where
  "full_user s \<longleftrightarrow> uid_e s = g_euid s \<and> uid_r s = g_ruid s \<and> (saved_ids s \<longrightarrow> uid_s s = g_euid s)"

definition plain_user :: "os \<Rightarrow> bool" where
  "plain_user s \<longleftrightarrow> uid_e s = g_ruid s
     \<and> (if saved_ids s then uid_s s = g_euid s \<and> uid_r s = g_ruid s else uid_r s = g_euid s)"

lemma undo_setuid_plain:
  assumes "full_user s"
  shows "\<exists>r u. undo_setuid s = Done () (s\<lparr>uid_r := r, uid_e := g_ruid s, uid_s := u\<rparr>)
    \<and> plain_user (s\<lparr>uid_r := r, uid_e := g_ruid s, uid_s := u\<rparr>)"
  using assms
  by (auto simp: undo_setuid_def c_seteuid_def c_setreuid_def full_user_def plain_user_def and_then_def
      intro!: exI [of _ "if saved_ids s then g_ruid s else g_euid s"]
        exI [of _ "if saved_ids s then g_euid s else g_ruid s"])

lemma do_setuid_full:
  assumes "plain_user s"
  shows "\<exists>r u. do_setuid s = Done () (s\<lparr>uid_r := r, uid_e := g_euid s, uid_s := u\<rparr>)
    \<and> full_user (s\<lparr>uid_r := r, uid_e := g_euid s, uid_s := u\<rparr>)"
  using assms
  by (auto simp: do_setuid_def c_seteuid_def c_setreuid_def full_user_def plain_user_def and_then_def
      intro!: exI [of _ "g_ruid s"] exI [of _ "g_euid s"])

end
