(* ===== verification/Rescan.thy ===== *)
theory Rescan
  imports PciTools
begin

text \<open>
  The rescan tool, \<^verbatim>\<open>distribute/bsrescan/main.cpp\<close>: unload the driver, remove the device from
  the PCI bus, scan the bus again, and set the command register of the device to 7.
\<close>

definition unload_driver :: "os \<Rightarrow> unit outcome" where
  "unload_driver = c_log (DeleteModule ''bdbmpcie'')"

abbreviation one_line :: string where "one_line \<equiv> [CHR ''1'', CHR 0x0A]"

definition remove_path :: "string \<Rightarrow> string" where
  "remove_path dname = pci_path dname ''remove''"

definition config_path :: "string \<Rightarrow> string" where
  "config_path dname = pci_path dname ''config''"

definition scan_path :: string where
  "scan_path = ''/sys/bus/pci/rescan''"

text \<open>
  The second \<open>fprintf\<close> and \<open>fclose\<close> go to \<open>fdev\<close>, as in the source. The two bytes of
  \<open>cmd\<close> are buffered, so \<open>fwrite\<close> returns 1; \<open>fconf\<close> is never closed.
\<close>

definition rescan_pcie_device :: "string \<Rightarrow> os \<Rightarrow> bool outcome" where
  "rescan_pcie_device loc =
     and_then (c_string loc) (\<lambda>dname.
     and_then (c_sprintf 128 (remove_path dname)) (\<lambda>dpath.
     and_then (c_fopen dpath True) (\<lambda>fdev'.
       case fdev' of None \<Rightarrow> Done False | Some fdev \<Rightarrow>
     and_then (c_fwrite fdev one_line) (\<lambda>_.
     and_then (c_fclose fdev) (\<lambda>_.
     and_then (c_fopen scan_path True) (\<lambda>fscan'.
       case fscan' of None \<Rightarrow> Done False | Some fscan \<Rightarrow>
     and_then (c_fwrite fdev one_line) (\<lambda>_.
     and_then (c_fclose fdev) (\<lambda>_.
     and_then (c_sprintf 128 (config_path dname)) (\<lambda>cpath.
     and_then (c_fopen cpath True) (\<lambda>fconf'.
       case fconf' of None \<Rightarrow> Done False | Some fconf \<Rightarrow>
     and_then (c_fseek fconf 4) (\<lambda>_.
     and_then (c_fwrite fconf [CHR 0x07, CHR 0x00]) (\<lambda>_.
     Done True))))))))))))"

definition rescan_main :: "os \<Rightarrow> int outcome" where
  "rescan_main s =
     and_then undo_setuid (\<lambda>_.
     and_then find_pcie_device (\<lambda>found.
       case found of None \<Rightarrow> Exit 1 | Some loc \<Rightarrow>
     and_then do_setuid (\<lambda>_.
     and_then unload_driver (\<lambda>_.
     and_then (c_log (Sleep 1)) (\<lambda>_.
     and_then (rescan_pcie_device loc) (\<lambda>ret.
     and_then undo_setuid (\<lambda>_.
     Done 0))))))) (s\<lparr>g_ruid := uid_r s, g_euid := uid_e s\<rparr>)"

lemma rescan_paths:
  assumes "length n \<le> 80"
  shows "c_sprintf 128 (remove_path n) s = Done (remove_path n) s"
    "c_sprintf 128 (config_path n) s = Done (config_path n) s"
    "sysfs (remove_path n)" "sysfs (config_path n)" "sysfs scan_path"
  using assms
  by (simp_all add: c_sprintf_def remove_path_def config_path_def scan_path_def pci_path_def sysfs_def)

text \<open>A line written to a stream just opened reaches the kernel when it is closed.\<close>

lemma write_line_close:
  assumes "h \<notin> fst ` set fs" "2 \<le> bufsz s" "cfiles s = (h, stream_at path 0 []) # fs"
  shows "c_fwrite h one_line s = Done () (s\<lparr>cfiles := (h, stream_at path 0 one_line) # fs\<rparr>)"
    "c_fclose h (s\<lparr>cfiles := (h, stream_at path 0 one_line) # fs\<rparr>) =
      Done () ((put_bytes path 0 one_line s)\<lparr>cfiles := fs\<rparr>)"
  using assms map_other_key [OF assms(1)] filter_other_key [OF assms(1)]
  by (simp_all add: c_fwrite_def c_fclose_def set_file_def flush_file_def put_bytes_def)


text \<open>The state when the device has been removed and the stream of that is closed.\<close>

definition removed :: "string \<Rightarrow> os \<Rightarrow> os" where
  "removed n s = (put_bytes (remove_path n) 0 one_line s)\<lparr>nopens := nopens s + 1\<rparr>"

definition rescan_tail :: "string \<Rightarrow> nat \<Rightarrow> nat option \<Rightarrow> os \<Rightarrow> bool outcome" where
  "rescan_tail dname fdev fscan' =
     (case fscan' of None \<Rightarrow> Done False | Some fscan \<Rightarrow>
     and_then (c_fwrite fdev one_line) (\<lambda>_.
     and_then (c_fclose fdev) (\<lambda>_.
     and_then (c_sprintf 128 (config_path dname)) (\<lambda>cpath.
     and_then (c_fopen cpath True) (\<lambda>fconf'.
       case fconf' of None \<Rightarrow> Done False | Some fconf \<Rightarrow>
     and_then (c_fseek fconf 4) (\<lambda>_.
     and_then (c_fwrite fconf [CHR 0x07, CHR 0x00]) (\<lambda>_.
     Done True)))))))"

lemma removed_simps [simp]:
  "nopens (removed n s) = nopens s + 1" "refuse (removed n s) = refuse s" "addr_of (removed n s) = addr_of s"
  "cfiles (removed n s) = cfiles s" "bufsz (removed n s) = bufsz s" "uid_e (removed n s) = uid_e s"
  "syslog (removed n s) = syslog s @ [(uid_e s, SysWrite (remove_path n) 0 one_line)]"
  by (simp_all add: removed_def put_bytes_def)

lemma rescan_removes:
  assumes "CHR 0x00 \<notin> set n" "length n \<le> 80" "2 \<le> bufsz s" "\<not> refuse s (nopens s)"
    and "addr_of s (nopens s) \<notin> fst ` set (cfiles s)"
  shows "rescan_pcie_device (n @ [CHR 0x00]) s =
    and_then (c_fopen scan_path True) (rescan_tail n (addr_of s (nopens s))) (removed n s)"
proof -
  let ?A = "addr_of s (nopens s)"
  let ?s1 = "s\<lparr>nopens := nopens s + 1, cfiles := (?A, stream_at (remove_path n) 0 []) # cfiles s\<rparr>"
  note paths = rescan_paths [OF assms(2)]
  have r: "(put_bytes (remove_path n) 0 one_line ?s1)\<lparr>cfiles := cfiles s\<rparr> = removed n s"
    by (simp add: removed_def put_bytes_def)
  have w: "c_fwrite ?A one_line ?s1 = Done () (?s1\<lparr>cfiles := (?A, stream_at (remove_path n) 0 one_line) # cfiles s\<rparr>)"
    "c_fclose ?A (?s1\<lparr>cfiles := (?A, stream_at (remove_path n) 0 one_line) # cfiles s\<rparr>) = Done () (removed n s)"
    unfolding r [symmetric]
    using write_line_close [of ?A "cfiles s" ?s1 "remove_path n"] assms(3,5) by simp_all
  show ?thesis
    unfolding rescan_pcie_device_def
    using c_string_copy [OF assms(1)] paths open_sysfs [OF assms(4) paths(3)] w
    by (simp add: rescan_tail_def [abs_def])
qed

text \<open>
  If the stream for the scan gets another address than the one closed before, the tool
  uses a closed stream.
\<close>

lemma rescan_closed_stream:
  assumes "CHR 0x00 \<notin> set n" "length n \<le> 80" "2 \<le> bufsz s" "\<not> refuse s (nopens s)" "\<not> refuse s (nopens s + 1)"
    and "addr_of s (nopens s) \<notin> fst ` set (cfiles s)"
    and "addr_of s (nopens s + 1) \<noteq> addr_of s (nopens s)"
  shows "rescan_pcie_device (n @ [CHR 0x00]) s = Undefined"
proof -
  have "map_of (cfiles s) (addr_of s (nopens s)) = None"
    using assms(6) by (simp add: map_of_eq_None_iff)
  then show ?thesis
    using rescan_removes [OF assms(1-4,6)] open_sysfs [of "removed n s" scan_path] assms(5,7)
      rescan_paths(5) [OF assms(2)]
    by (simp add: rescan_tail_def c_fwrite_def)
qed

text \<open>If it gets the same address, all three writes are made, the last one when the process ends.\<close>

lemma rescan_reused_stream:
  assumes "CHR 0x00 \<notin> set n" "length n \<le> 80" "2 \<le> bufsz s" "\<forall>i<3. \<not> refuse s (nopens s + i)"
    and "addr_of s (nopens s) \<notin> fst ` set (cfiles s)" "addr_of s (nopens s + 1) = addr_of s (nopens s)"
    and "addr_of s (nopens s + 2) \<notin> fst ` set (cfiles s)" "nothing_pending s"
  shows "\<exists>s'. rescan_pcie_device (n @ [CHR 0x00]) s = Done True s'
    \<and> syslog (flush_all s') = syslog s @ map (Pair (uid_e s))
        [SysWrite (remove_path n) 0 one_line, SysWrite scan_path 0 one_line,
         SysWrite (config_path n) 4 [CHR 0x07, CHR 0x00]]"
proof -
  let ?A = "addr_of s (nopens s)" and ?C = "addr_of s (nopens s + 2)"
  let ?r = "removed n s"
  let ?s1 = "?r\<lparr>nopens := nopens s + 2, cfiles := (?A, stream_at scan_path 0 []) # cfiles s\<rparr>"
  let ?s2 = "(put_bytes scan_path 0 one_line ?s1)\<lparr>cfiles := cfiles s\<rparr>"
  let ?s3 = "?s2\<lparr>nopens := nopens s + 3, cfiles := (?C, stream_at (config_path n) 0 []) # cfiles s\<rparr>"
  let ?s4 = "?s3\<lparr>cfiles := (?C, stream_at (config_path n) 4 [CHR 0x07, CHR 0x00]) # cfiles s\<rparr>"
  have go: "\<not> refuse s (nopens s)" "\<not> refuse s (nopens s + 1)" "\<not> refuse s (nopens s + 2)"
    using assms(4) [rule_format, of 0] assms(4) [rule_format, of 1] assms(4) [rule_format, of 2] by simp_all
  note paths = rescan_paths [OF assms(2)]
  have o1: "c_fopen scan_path True ?r = Done (Some ?A) ?s1"
    using open_sysfs [of ?r scan_path] go(2) paths(5) assms(6) by simp
  have w: "c_fwrite ?A one_line ?s1 = Done () (?s1\<lparr>cfiles := (?A, stream_at scan_path 0 one_line) # cfiles s\<rparr>)"
    "c_fclose ?A (?s1\<lparr>cfiles := (?A, stream_at scan_path 0 one_line) # cfiles s\<rparr>) = Done () ?s2"
    using write_line_close [of ?A "cfiles s" ?s1 scan_path] assms(3,5) by simp_all
  have s2: "nopens ?s2 = nopens s + 2" "refuse ?s2 = refuse s" "addr_of ?s2 = addr_of s" "cfiles ?s2 = cfiles s"
    by (simp_all add: put_bytes_def)
  have o2: "c_fopen (config_path n) True ?s2 = Done (Some ?C) ?s3"
    using open_sysfs [of ?s2 "config_path n"] go(3) paths(4) s2 by (simp add: numeral_3_eq_3)
  have "set_file ?C f ?s3 = ?s3\<lparr>cfiles := (?C, f) # cfiles s\<rparr>" for f
    using map_other_key [OF assms(7)] by (simp add: set_file_def)
  moreover have "set_file ?C f (?s3\<lparr>cfiles := (?C, g) # cfiles s\<rparr>) = ?s3\<lparr>cfiles := (?C, f) # cfiles s\<rparr>" for f g
    using map_other_key [OF assms(7)] by (simp add: set_file_def)
  ultimately have c: "c_fseek ?C 4 ?s3 = Done () (?s3\<lparr>cfiles := (?C, stream_at (config_path n) 4 []) # cfiles s\<rparr>)"
    "c_fwrite ?C [CHR 0x07, CHR 0x00] (?s3\<lparr>cfiles := (?C, stream_at (config_path n) 4 []) # cfiles s\<rparr>)
      = Done () ?s4"
    using assms(3) by (simp_all add: c_fseek_def c_fwrite_def flush_file_def put_bytes_def)
  have "rescan_pcie_device (n @ [CHR 0x00]) s = Done True ?s4"
    using rescan_removes [OF assms(1-3) go(1) assms(5)] o1 w o2 c paths by (simp add: rescan_tail_def)
  moreover have "syslog (flush_all ?s4) = syslog s @ map (Pair (uid_e s))
        [SysWrite (remove_path n) 0 one_line, SysWrite scan_path 0 one_line,
         SysWrite (config_path n) 4 [CHR 0x07, CHR 0x00]]"
  proof -
    have "fold (\<lambda>(k, f). flush_file f) (cfiles s) x = x" for x
      using assms(8) by (intro flush_all_clean) (simp add: nothing_pending_def)
    then show ?thesis by (simp add: flush_all_def flush_file_def put_bytes_def)
  qed
  ultimately show ?thesis by blast
qed

text \<open>Without a device the tool gives up its privileges and changes nothing.\<close>

lemma rescan_main_without_device:
  assumes "saved_ids s \<longrightarrow> uid_s s = uid_e s" "\<forall>n. \<not> refuse s n" "pci_dir s = Some ns"
    and "\<forall>d\<in>set ns. length d \<le> 80 \<and> \<not> is_xilinx s d"
  shows "\<exists>s'. rescan_main s = Exit 1 s' \<and> syslog s' = syslog s \<and> files s' = files s \<and> uid_e s' = uid_r s"
proof -
  let ?s0 = "s\<lparr>g_ruid := uid_r s, g_euid := uid_e s\<rparr>"
  have "full_user ?s0" using assms(1) by (simp add: full_user_def)
  then obtain r u where u: "undo_setuid ?s0 = Done () (?s0\<lparr>uid_r := r, uid_e := uid_r s, uid_s := u\<rparr>)"
    using undo_setuid_plain [of ?s0] by auto
  let ?s1 = "?s0\<lparr>uid_r := r, uid_e := uid_r s, uid_s := u\<rparr>"
  have x: "is_xilinx ?s1 = is_xilinx s"
    by (rule attr_cong) simp_all
  have "find (is_xilinx ?s1) ns = None" using assms(4) by (auto simp: x find_None_iff)
  then obtain s2 where "find_pcie_device ?s1 = Done None s2" "only_read ?s1 s2"
    using find_pcie_device_first [of ?s1 ns] assms(2-4) by auto
  then show ?thesis
    using u by (auto simp: rescan_main_def only_read_env)
qed

end
