(* ===== verification/Manager.thy ===== *)
theory Manager
  imports PciTools "HOL-Library.While_Combinator"
begin

text \<open>
  The manager, \<^verbatim>\<open>distribute/manager_deprecated/main.cpp\<close>: it keeps a copy of the device's PCI
  configuration, restores it when the device has been programmed anew, and reboots the
  machine when the device is not found. \<open>cmd_exec\<close> is never set in the source, so the
  call of \<open>execvp\<close> is not reached.
\<close>

definition install_path :: "string \<Rightarrow> string" where
  "install_path f = ''/opt/bluespecpcie_manager/'' @ ''/'' @ f"

definition backup_path :: string where "backup_path = install_path ''pcieconfig''"
definition flag_path :: string where "flag_path = install_path ''rebooted''"
definition conf_path :: "string \<Rightarrow> string" where "conf_path dname = pci_path dname ''config''"

text \<open>
  The copying loop of both functions: \<open>while ( !feof(e) )\<close>, 128 bytes at a time from
  \<open>src\<close> to \<open>dst\<close>. The result of a step tells whether the loop goes on.
\<close>

definition copy_step :: "nat \<Rightarrow> nat \<Rightarrow> nat \<Rightarrow> os \<Rightarrow> bool outcome" where
  "copy_step e src dst =
     and_then (c_feof e) (\<lambda>at_end.
       if at_end then Done False
       else and_then (c_fread src 128) (\<lambda>buf.
         if buf = [] then Done False
         else and_then (c_fwrite dst buf) (\<lambda>_. Done True)))"

definition copy_loop :: "nat \<Rightarrow> nat \<Rightarrow> nat \<Rightarrow> os \<Rightarrow> unit outcome" where
  "copy_loop e src dst s =
     (case while_option (\<lambda>r. case r of Done True s \<Rightarrow> True | _ \<Rightarrow> False)
             (\<lambda>r. case r of Done True s \<Rightarrow> copy_step e src dst s | _ \<Rightarrow> r) (Done True s) of
        None \<Rightarrow> Hang
      | Some r \<Rightarrow> and_then (\<lambda>_. r) (\<lambda>_. Done ()) s)"

definition restore_config :: "string \<Rightarrow> os \<Rightarrow> unit outcome" where
  "restore_config loc =
     and_then (c_string loc) (\<lambda>dname.
     and_then (c_sprintf 128 (conf_path dname)) (\<lambda>path.
     and_then (c_fopen path True) (\<lambda>fdev'.
       case fdev' of None \<Rightarrow> Done () | Some fdev \<Rightarrow>
     and_then (c_sprintf 128 backup_path) (\<lambda>backpath.
     and_then (c_fopen backpath False) (\<lambda>fback'.
       case fback' of None \<Rightarrow> Done () | Some fback \<Rightarrow>
     copy_loop fdev fback fdev)))))"

definition backup_config :: "string \<Rightarrow> os \<Rightarrow> unit outcome" where
  "backup_config loc =
     and_then (c_string loc) (\<lambda>dname.
     and_then (c_sprintf 128 (conf_path dname)) (\<lambda>path.
     and_then (c_fopen path False) (\<lambda>fdev'.
       case fdev' of None \<Rightarrow> Done () | Some fdev \<Rightarrow>
     and_then (c_sprintf 128 backup_path) (\<lambda>backpath.
     and_then (c_fopen backpath True) (\<lambda>fback'.
       case fback' of None \<Rightarrow> Done () | Some fback \<Rightarrow>
     copy_loop fdev fdev fback)))))"

definition check_rebooted :: "os \<Rightarrow> bool outcome" where
  "check_rebooted = and_then (c_sprintf 128 flag_path) c_access"

definition clear_rebooted :: "os \<Rightarrow> unit outcome" where
  "clear_rebooted = and_then (c_sprintf 128 flag_path) c_unlink"

definition set_rebooted :: "os \<Rightarrow> unit outcome" where
  "set_rebooted =
     and_then (c_sprintf 128 flag_path) (\<lambda>path.
     and_then (c_fopen path True) (\<lambda>flag'.
       case flag' of None \<Rightarrow> Done () | Some flag \<Rightarrow>
     and_then (c_fwrite flag ''1'') (\<lambda>_.
     c_fclose flag)))"

definition check_config_exist :: "os \<Rightarrow> bool outcome" where
  "check_config_exist = and_then (c_sprintf 128 backup_path) c_access"

text \<open>Both places that reboot do it in these steps.\<close>

definition flag_and_reboot :: "os \<Rightarrow> unit outcome" where
  "flag_and_reboot =
     and_then do_setuid (\<lambda>_.
     and_then set_rebooted (\<lambda>_.
     and_then undo_setuid (\<lambda>_.
     and_then do_setuid (\<lambda>_.
     and_then c_reboot (\<lambda>_.
     undo_setuid)))))"

text \<open>
  The array of arguments: \<open>malloc(sizeof(char*)*n+1)\<close>, of which the entry \<open>n\<close> is written.
  The block may be larger than asked for by \<open>heap_slack\<close>.
\<close>

definition build_args :: "nat \<Rightarrow> os \<Rightarrow> unit outcome" where
  "build_args n s = (if 8 * (n + 1) \<le> (8 * n + 1) + heap_slack s then Done () s else Undefined)"

text \<open>The two branches of \<open>main\<close>: after a reboot the configuration is saved, then it is restored or not.\<close>

definition after_reboot :: "bool \<Rightarrow> string option \<Rightarrow> os \<Rightarrow> unit outcome" where
  "after_reboot rebooted found =
     (if rebooted
      then (case found of
              Some loc \<Rightarrow>
                and_then do_setuid (\<lambda>_.
                and_then (backup_config loc) (\<lambda>_.
                and_then clear_rebooted (\<lambda>_.
                undo_setuid)))
            | None \<Rightarrow> Done ())
      else Done ())"

definition restore_or_reboot :: "bool \<Rightarrow> nat \<Rightarrow> string option \<Rightarrow> bool \<Rightarrow> os \<Rightarrow> int outcome" where
  "restore_or_reboot cmd_reboot cmd_arg_count found config_exist =
     (if found \<noteq> None \<and> config_exist
      then and_then do_setuid (\<lambda>_.
           and_then (restore_config (the found)) (\<lambda>_.
           and_then undo_setuid (\<lambda>_.
           and_then (build_args cmd_arg_count) (\<lambda>_. Done 0))))
      else if cmd_reboot then and_then flag_and_reboot (\<lambda>_. Done 1) else Done 1)"

definition manager_main :: "string list \<Rightarrow> os \<Rightarrow> int outcome" where
  "manager_main argv s =
     (let cmd_reboot = (1 < length argv \<and> argv ! 1 = ''r'');
          cmd_arg_count = (if 1 < length argv \<and> \<not> cmd_reboot then length argv - 1 else 0) in
     and_then undo_setuid (\<lambda>_.
     and_then check_rebooted (\<lambda>rebooted.
     and_then find_pcie_device (\<lambda>found.
     and_then (after_reboot rebooted found) (\<lambda>_.
     and_then check_config_exist (\<lambda>config_exist.
     and_then (restore_or_reboot cmd_reboot cmd_arg_count found config_exist) (\<lambda>retval.
     if cmd_reboot then and_then flag_and_reboot (\<lambda>_. Done 1) else Done retval))))))
     (s\<lparr>g_ruid := uid_r s, g_euid := uid_e s\<rparr>))"

subsection \<open>Paths\<close>

lemma manager_paths:
  "c_sprintf 128 backup_path s = Done backup_path s" "c_sprintf 128 flag_path s = Done flag_path s"
  "\<not> sysfs backup_path" "\<not> sysfs flag_path" "backup_path \<noteq> flag_path"
  by (simp_all add: c_sprintf_def backup_path_def flag_path_def install_path_def sysfs_def)

lemma conf_path_facts:
  "sysfs (conf_path n)" "conf_path n \<noteq> backup_path" "conf_path n \<noteq> flag_path"
  "length n \<le> 80 \<Longrightarrow> c_sprintf 128 (conf_path n) s = Done (conf_path n) s"
  by (simp_all add: c_sprintf_def backup_path_def flag_path_def install_path_def sysfs_def conf_path_def pci_path_def)

lemma checks:
  "check_rebooted s = Done (files s flag_path \<noteq> None) s"
  "check_config_exist s = Done (files s backup_path \<noteq> None) s"
  "clear_rebooted s = Done () (s\<lparr>files := (files s)(flag_path := None),
     syslog := syslog s @ [(uid_e s, Unlink flag_path)]\<rparr>)"
  by (simp_all add: check_rebooted_def check_config_exist_def clear_rebooted_def manager_paths c_access_def c_unlink_def)


subsection \<open>The copying loop\<close>

abbreviation reader_at :: "string \<Rightarrow> nat \<Rightarrow> bool \<Rightarrow> cfile" where
  "reader_at path off e \<equiv> \<lparr>fpath = path, fwr = False, fpos = off, fpend = [], fend = e\<rparr>"

definition pair_of :: "bool \<Rightarrow> nat \<Rightarrow> cfile \<Rightarrow> nat \<Rightarrow> cfile \<Rightarrow> (nat \<times> cfile) list" where
  "pair_of w r rf d df = (if w then [(d, df), (r, rf)] else [(r, rf), (d, df)])"

text \<open>
  \<open>k\<close> bytes of \<open>c\<close> have been read from \<open>p\<close>, of these \<open>j\<close> have reached \<open>q\<close> and the others
  are in the buffer of its stream; \<open>s0\<close> is the state before.
\<close>

definition copying :: "string \<Rightarrow> string \<Rightarrow> string \<Rightarrow> string \<Rightarrow> nat \<Rightarrow> nat \<Rightarrow> bool \<Rightarrow> (nat \<times> cfile) list
    \<Rightarrow> os \<Rightarrow> nat \<Rightarrow> os \<Rightarrow> bool" where
  "copying p q old c r d w fs s0 k s \<longleftrightarrow> k \<le> length c \<and> (\<exists>j e l. j \<le> k \<and> (e \<longrightarrow> k = length c) \<and>
     s = s0\<lparr>files := (files s0)(q \<mapsto> overwrite old 0 (take j c)),
       cfiles := pair_of w r (reader_at p k e) d (stream_at q j (drop j (take k c))) @ fs, syslog := l\<rparr>)"

lemma copyingI:
  assumes "k \<le> length c" "j \<le> k" "e \<longrightarrow> k = length c"
  shows "copying p q old c r d w fs s0 k (s0\<lparr>files := (files s0)(q \<mapsto> overwrite old 0 (take j c)),
    cfiles := pair_of w r (reader_at p k e) d (stream_at q j (drop j (take k c))) @ fs, syslog := l\<rparr>)"
  using assms unfolding copying_def by blast

lemma pair_lookup:
  assumes "r \<noteq> d"
  shows "map_of (pair_of w r rf d df @ fs) r = Some rf" "map_of (pair_of w r rf d df @ fs) d = Some df"
  using assms by (simp_all add: pair_of_def)

lemma pair_update:
  assumes "r \<noteq> d" "r \<notin> fst ` set fs" "d \<notin> fst ` set fs" "cfiles s = pair_of w r rf d df @ fs"
  shows "set_file r f s = s\<lparr>cfiles := pair_of w r f d df @ fs\<rparr>"
    "set_file d f s = s\<lparr>cfiles := pair_of w r rf d f @ fs\<rparr>"
  using assms map_other_key [OF assms(2)] map_other_key [OF assms(3)]
  by (simp_all add: set_file_def pair_of_def)

lemma write_chunk:
  assumes "r \<noteq> d" "r \<notin> fst ` set fs" "d \<notin> fst ` set fs" "j \<le> k" "k \<le> length c"
    and "s = s0\<lparr>files := (files s0)(q \<mapsto> overwrite old 0 (take j c)),
      cfiles := pair_of w r rf d (stream_at q j (drop j (take k c))) @ fs, syslog := l\<rparr>"
  shows "\<exists>j' l'. j' \<le> min (k + 128) (length c) \<and> c_fwrite d (take 128 (drop k c)) s = Done ()
    (s0\<lparr>files := (files s0)(q \<mapsto> overwrite old 0 (take j' c)),
      cfiles := pair_of w r rf d (stream_at q j' (drop j' (take (min (k + 128) (length c)) c))) @ fs,
      syslog := l'\<rparr>)"
proof -
  let ?pend = "drop j (take k c)" and ?buf = "take 128 (drop k c)" and ?k' = "min (k + 128) (length c)"
  have look: "map_of (cfiles s) d = Some (stream_at q j ?pend)" using pair_lookup [OF assms(1)] by (simp add: assms(6))
  have upd: "set_file d f x = x\<lparr>cfiles := pair_of w r rf d f @ fs\<rparr>"
    if "cfiles x = cfiles s" for f x
    using pair_update(2) [OF assms(1-3), of x] that by (simp add: assms(6))
  have take': "take ?k' c = take k c @ ?buf"
    by (simp add: take_add [symmetric] min_def)
  show ?thesis
  proof (cases "length ?pend + length ?buf \<le> bufsz s")
    case True
    have "?pend @ ?buf = drop j (take ?k' c)" using assms(4,5) by (simp add: take')
    then have "c_fwrite d ?buf s = Done () (s\<lparr>cfiles := pair_of w r rf d (stream_at q j (drop j (take ?k' c))) @ fs\<rparr>)"
      using look upd [of s] True by (simp add: c_fwrite_def)
    then show ?thesis using assms(4,5) by (intro exI [of _ j] exI [of _ l]) (auto simp: assms(6))
  next
    case False
    have pos: "j + length ?pend = k" using assms(4,5) by simp
    have "overwrite (overwrite old 0 (take j c)) j ?pend = overwrite old 0 (take j c @ ?pend)"
      using overwrite_append [of old "take j c" ?pend] assms(4,5) by (simp add: min_absorb2)
    moreover have "take j c @ ?pend = take k c"
      using assms(4) by (metis append_take_drop_id min.absorb1 take_take)
    ultimately have sp: "overwrite (overwrite old 0 (take j c)) j ?pend = overwrite old 0 (take k c)" by simp
    have fl: "\<exists>l'. flush_file (stream_at q j ?pend) s =
        s\<lparr>files := (files s0)(q \<mapsto> overwrite old 0 (take k c)), syslog := l'\<rparr>"
    proof (cases "?pend = []")
      case True
      then have "j = k" using assms(4,5) by simp
      then show ?thesis using True by (intro exI [of _ l]) (simp add: flush_file_def assms(6))
    next
      case False
      then show ?thesis
        using sp by (intro exI [of _ "l @ [(uid_e s0, SysWrite q j ?pend)]"])
          (simp add: flush_file_def put_bytes_def assms(6))
    qed
    then obtain l' where l': "flush_file (stream_at q j ?pend) s =
        s\<lparr>files := (files s0)(q \<mapsto> overwrite old 0 (take k c)), syslog := l'\<rparr>" by blast
    have "drop k (take ?k' c) = ?buf" using assms(5) by (simp add: take')
    then have "c_fwrite d ?buf s = Done () (s\<lparr>files := (files s0)(q \<mapsto> overwrite old 0 (take k c)), syslog := l',
        cfiles := pair_of w r rf d (stream_at q k (drop k (take ?k' c))) @ fs\<rparr>)"
      using look False l' upd [of "s\<lparr>files := (files s0)(q \<mapsto> overwrite old 0 (take k c)), syslog := l'\<rparr>"] pos
      by (simp add: c_fwrite_def)
    then show ?thesis using assms(5) by (intro exI [of _ k] exI [of _ l']) (auto simp: assms(6))
  qed
qed


text \<open>One iteration takes the next 128 bytes; without any left the loop ends.\<close>

lemma copy_step_next:
  assumes "copying p q old c r d w fs s0 k s" "r \<noteq> d" "r \<notin> fst ` set fs" "d \<notin> fst ` set fs"
    and "p \<noteq> q" "files s0 p = Some c" "e = r \<or> e = d" "k < length c"
  shows "\<exists>s'. copy_step e r d s = Done True s' \<and> copying p q old c r d w fs s0 (min (k + 128) (length c)) s'"
proof -
  obtain j l where j: "j \<le> k" "s = s0\<lparr>files := (files s0)(q \<mapsto> overwrite old 0 (take j c)),
      cfiles := pair_of w r (reader_at p k False) d (stream_at q j (drop j (take k c))) @ fs, syslog := l\<rparr>"
    using assms(1,8) unfolding copying_def by auto
  let ?k' = "min (k + 128) (length c)" and ?buf = "take 128 (drop k c)"
  let ?e' = "length ?buf < 128"
  let ?s1 = "s0\<lparr>files := (files s0)(q \<mapsto> overwrite old 0 (take j c)),
      cfiles := pair_of w r (reader_at p ?k' ?e') d (stream_at q j (drop j (take k c))) @ fs, syslog := l\<rparr>"
  have feof: "c_feof e s = Done False s"
    using assms(7) pair_lookup [OF assms(2)] by (auto simp: c_feof_def j(2))
  have k': "k + length ?buf = ?k'" using assms(8) by auto
  have "c_fread r 128 s = Done ?buf (set_file r (reader_at p ?k' ?e') s)"
    using pair_lookup(1) [OF assms(2)] assms(5,6) k' by (simp add: c_fread_def j(2))
  moreover have "set_file r (reader_at p ?k' ?e') s = ?s1"
    using pair_update(1) [OF assms(2-4), of s] by (simp add: j(2))
  ultimately have read: "c_fread r 128 s = Done ?buf ?s1" by simp
  obtain j' l' where w: "j' \<le> ?k'" "c_fwrite d ?buf ?s1 = Done ()
      (s0\<lparr>files := (files s0)(q \<mapsto> overwrite old 0 (take j' c)),
        cfiles := pair_of w r (reader_at p ?k' ?e') d (stream_at q j' (drop j' (take ?k' c))) @ fs, syslog := l'\<rparr>)"
    using write_chunk [OF assms(2-4) j(1) less_imp_le [OF assms(8)] refl] by blast
  have ne: "?buf \<noteq> []" using assms(8) by simp
  have "copy_step e r d s = Done True (s0\<lparr>files := (files s0)(q \<mapsto> overwrite old 0 (take j' c)),
        cfiles := pair_of w r (reader_at p ?k' ?e') d (stream_at q j' (drop j' (take ?k' c))) @ fs, syslog := l'\<rparr>)"
    unfolding copy_step_def using feof read w(2) ne by (simp only: and_then_def outcome.case if_False)
  moreover have "?e' \<longrightarrow> ?k' = length c" by auto
  ultimately show ?thesis using copyingI [OF min.cobounded2 w(1)] by blast
qed

lemma copy_step_last:
  assumes "copying p q old c r d w fs s0 (length c) s" "r \<noteq> d" "r \<notin> fst ` set fs" "d \<notin> fst ` set fs"
    and "p \<noteq> q" "files s0 p = Some c" "e = r \<or> e = d"
  shows "\<exists>s'. copy_step e r d s = Done False s' \<and> copying p q old c r d w fs s0 (length c) s'"
proof -
  obtain j b l where j: "j \<le> length c" "s = s0\<lparr>files := (files s0)(q \<mapsto> overwrite old 0 (take j c)),
      cfiles := pair_of w r (reader_at p (length c) b) d (stream_at q j (drop j c)) @ fs, syslog := l\<rparr>"
    using assms(1) unfolding copying_def by auto
  show ?thesis
  proof (cases "e = r \<and> b")
    case True
    then have "copy_step e r d s = Done False s"
      using pair_lookup(1) [OF assms(2)] by (simp add: copy_step_def c_feof_def j(2) and_then_def)
    then show ?thesis using assms(1) by blast
  next
    case False
    then have "c_feof e s = Done False s"
      using assms(7) pair_lookup [OF assms(2)] by (auto simp: c_feof_def j(2))
    moreover have "c_fread r 128 s = Done [] (set_file r (reader_at p (length c) True) s)"
      using pair_lookup(1) [OF assms(2)] assms(5,6) by (simp add: c_fread_def j(2))
    moreover have "set_file r (reader_at p (length c) True) s =
        s0\<lparr>files := (files s0)(q \<mapsto> overwrite old 0 (take j c)),
          cfiles := pair_of w r (reader_at p (length c) True) d (stream_at q j (drop j c)) @ fs, syslog := l\<rparr>"
      using pair_update(1) [OF assms(2-4), of s] by (simp add: j(2))
    ultimately have "copy_step e r d s = Done False (s0\<lparr>files := (files s0)(q \<mapsto> overwrite old 0 (take j c)),
          cfiles := pair_of w r (reader_at p (length c) True) d (stream_at q j (drop j c)) @ fs, syslog := l\<rparr>)"
      unfolding copy_step_def by (simp add: and_then_def)
    then show ?thesis using copyingI [of "length c" c j True] j(1) by auto
  qed
qed

text \<open>The loop ends for every size of buffer, with all of \<open>c\<close> read.\<close>

lemma copy_loop_all:
  assumes "copying p q old c r d w fs s0 k s" "r \<noteq> d" "r \<notin> fst ` set fs" "d \<notin> fst ` set fs"
    and "p \<noteq> q" "files s0 p = Some c" "e = r \<or> e = d"
  shows "\<exists>s'. copy_loop e r d s = Done () s' \<and> copying p q old c r d w fs s0 (length c) s'"
proof -
  let ?go = "\<lambda>r. case r of Done True s \<Rightarrow> True | _ \<Rightarrow> False"
  let ?f = "\<lambda>x. case x of Done True s \<Rightarrow> copy_step e r d s | _ \<Rightarrow> x"
  have "\<exists>s'. while_option ?go ?f (Done True s) = Some (Done False s')
      \<and> copying p q old c r d w fs s0 (length c) s'"
    using assms(1)
  proof (induction "length c - k" arbitrary: k s rule: less_induct)
    case less
    show ?case
    proof (cases "k < length c")
      case True
      obtain s1 where s1: "copy_step e r d s = Done True s1"
        "copying p q old c r d w fs s0 (min (k + 128) (length c)) s1"
        using copy_step_next [OF less.prems assms(2-7) True] by blast
      have "length c - min (k + 128) (length c) < length c - k" using True by auto
      from less.hyps [OF this s1(2)] show ?thesis
        by (subst while_option_unfold) (simp add: s1(1))
    next
      case False
      then have "k = length c" using less.prems by (simp add: copying_def)
      then obtain s1 where s1: "copy_step e r d s = Done False s1" "copying p q old c r d w fs s0 (length c) s1"
        using copy_step_last [of p q old c r d w fs s0 s e] less.prems assms(2-7) by blast
      have "while_option ?go ?f (Done False s1) = Some (Done False s1)" by (subst while_option_unfold) simp
      then show ?thesis using s1 by (subst while_option_unfold) simp
    qed
  qed
  then obtain s' where "while_option ?go ?f (Done True s) = Some (Done False s')"
    "copying p q old c r d w fs s0 (length c) s'" by blast
  then show ?thesis by (intro exI [of _ s'] conjI) (simp_all add: copy_loop_def and_then_def)
qed

end
