(* ===== verification/ManagerRuns.thy ===== *)
theory ManagerRuns
  imports Manager
begin

text \<open>
  What the manager does to files: its operations one by one, then whole runs of
  \<open>main\<close> up to the end of the process, when the buffers of its streams are written.
\<close>

text \<open>What no operation changes, and what only the changes of user ids do.\<close>

definition frame :: "os \<Rightarrow> os \<Rightarrow> bool" where
  "frame s s' \<longleftrightarrow> refuse s' = refuse s \<and> addr_of s' = addr_of s \<and> bufsz s' = bufsz s \<and> junk s' = junk s
     \<and> junk_byte s' = junk_byte s \<and> heap_slack s' = heap_slack s \<and> pci_dir s' = pci_dir s
     \<and> saved_ids s' = saved_ids s \<and> g_ruid s' = g_ruid s \<and> g_euid s' = g_euid s"

definition users :: "os \<Rightarrow> nat \<times> nat \<times> nat" where
  "users s = (uid_r s, uid_e s, uid_s s)"

lemma frame_trans: "frame s s1 \<Longrightarrow> frame s1 s2 \<Longrightarrow> frame s s2"
  by (simp add: frame_def)

lemma frame_users:
  "frame s s' \<Longrightarrow> users s' = users s \<Longrightarrow> full_user s' = full_user s"
  "frame s s' \<Longrightarrow> users s' = users s \<Longrightarrow> plain_user s' = plain_user s"
  by (auto simp: frame_def users_def full_user_def plain_user_def)

text \<open>Every open stream has an address that was given out, and none is given out twice.\<close>

definition streams_ok :: "os \<Rightarrow> bool" where
  "streams_ok s \<longleftrightarrow> inj (addr_of s) \<and> (\<forall>(k, f)\<in>set (cfiles s). \<exists>i<nopens s. k = addr_of s i)"

lemma streams_fresh:
  assumes "streams_ok s" "nopens s \<le> i"
  shows "addr_of s i \<notin> fst ` set (cfiles s)"
  using assms unfolding streams_ok_def by (fastforce dest: injD)

lemma streams_distinct: "streams_ok s \<Longrightarrow> i \<noteq> j \<Longrightarrow> addr_of s i \<noteq> addr_of s j"
  unfolding streams_ok_def by (blast dest: injD)

subsection \<open>The operations\<close>

lemma undo_step:
  assumes "full_user s"
  shows "\<exists>s'. undo_setuid s = Done () s' \<and> frame s s' \<and> plain_user s' \<and> files s' = files s
    \<and> cfiles s' = cfiles s \<and> nopens s' = nopens s"
  using undo_setuid_plain [OF assms] by (auto simp: frame_def)

lemma do_step:
  assumes "plain_user s"
  shows "\<exists>s'. do_setuid s = Done () s' \<and> frame s s' \<and> full_user s' \<and> files s' = files s
    \<and> cfiles s' = cfiles s \<and> nopens s' = nopens s"
  using do_setuid_full [OF assms] by (auto simp: frame_def)

lemma find_step:
  assumes "\<forall>i. \<not> refuse s i" "pci_dir s = Some ns" "\<forall>d\<in>set ns. length d \<le> 80" "streams_ok s" "nothing_pending s"
  shows "\<exists>s'. find_pcie_device s = Done (map_option (\<lambda>n. n @ [junk_byte s]) (find (is_xilinx s) ns)) s'
    \<and> frame s s' \<and> users s' = users s \<and> files s' = files s \<and> streams_ok s' \<and> nothing_pending s'"
proof -
  obtain s' where s': "find_pcie_device s = Done (map_option (\<lambda>n. n @ [junk_byte s]) (find (is_xilinx s) ns)) s'"
    "only_read s s'"
    using find_pcie_device_first [OF assms(1-3)] by blast
  have "streams_ok s'"
    using s'(2) assms(4) only_read_env(2,16) [OF s'(2)] unfolding only_read_def streams_ok_def
    by (fastforce intro: less_le_trans)
  moreover have "nothing_pending s'"
    using s'(2) assms(5) unfolding only_read_def nothing_pending_def by fastforce
  ultimately show ?thesis
    using s' only_read_env [OF s'(2)] by (auto simp: frame_def users_def)
qed

lemma open_read:
  assumes "\<not> refuse s (nopens s)" "files s path = Some c"
  shows "c_fopen path False s = Done (Some (addr_of s (nopens s)))
    (s\<lparr>nopens := nopens s + 1, cfiles := (addr_of s (nopens s), reader_at path 0 False) # cfiles s\<rparr>)"
  using assms by (simp add: c_fopen_def Let_def)

lemma open_plain:
  assumes "\<not> refuse s (nopens s)" "\<not> sysfs path"
  shows "c_fopen path True s = Done (Some (addr_of s (nopens s)))
    (s\<lparr>nopens := nopens s + 1, files := (files s)(path \<mapsto> []),
      cfiles := (addr_of s (nopens s), stream_at path 0 []) # cfiles s\<rparr>)"
  using assms by (simp add: c_fopen_def Let_def)

lemma backup_step:
  assumes "\<forall>i. \<not> refuse s i" "streams_ok s" "CHR 0x00 \<notin> set n" "length n \<le> 80"
    and "files s (conf_path n) = Some c"
  shows "\<exists>s' j e. backup_config (n @ [CHR 0x00]) s = Done () s' \<and> frame s s' \<and> users s' = users s
    \<and> j \<le> length c \<and> files s' = (files s)(backup_path \<mapsto> take j c) \<and> nopens s' = nopens s + 2
    \<and> cfiles s' = (addr_of s (nopens s + 1), stream_at backup_path j (drop j c)) #
        (addr_of s (nopens s), reader_at (conf_path n) (length c) e) # cfiles s"
proof -
  let ?A = "addr_of s (nopens s)" and ?B = "addr_of s (nopens s + 1)"
  let ?s0 = "s\<lparr>nopens := nopens s + 2\<rparr>"
  let ?s1 = "s\<lparr>nopens := nopens s + 1, cfiles := (?A, reader_at (conf_path n) 0 False) # cfiles s\<rparr>"
  let ?s2 = "?s0\<lparr>files := (files ?s0)(backup_path \<mapsto> overwrite [] 0 (take 0 c)),
    cfiles := pair_of True ?A (reader_at (conf_path n) 0 False) ?B (stream_at backup_path 0 (drop 0 (take 0 c)))
      @ cfiles s, syslog := syslog s\<rparr>"
  have o1: "c_fopen (conf_path n) False s = Done (Some ?A) ?s1"
    by (rule open_read) (use assms in auto)
  have "c_fopen backup_path True ?s1 = Done (Some ?B) ?s2"
    using open_plain [of ?s1 backup_path] assms(1) manager_paths(3) by (simp add: pair_of_def)
  moreover have "copying (conf_path n) backup_path [] c ?A ?B True (cfiles s) ?s0 0 ?s2"
    by (rule copyingI) simp_all
  then obtain s' where s': "copy_loop ?A ?A ?B ?s2 = Done () s'"
    "copying (conf_path n) backup_path [] c ?A ?B True (cfiles s) ?s0 (length c) s'"
    using copy_loop_all [of "conf_path n" backup_path "[]" c ?A ?B True "cfiles s" ?s0 0 ?s2 ?A]
      streams_fresh [OF assms(2)] streams_distinct [OF assms(2)] conf_path_facts(2) assms(5) by auto
  ultimately have "backup_config (n @ [CHR 0x00]) s = Done () s'"
    unfolding backup_config_def
    using c_string_copy [OF assms(3)] conf_path_facts(4) [OF assms(4)] manager_paths(1) o1 by simp
  then show ?thesis using s'(2) by (auto simp: copying_def frame_def users_def pair_of_def)
qed

lemma restore_step:
  assumes "\<forall>i. \<not> refuse s i" "streams_ok s" "CHR 0x00 \<notin> set n" "length n \<le> 80"
    and "files s (conf_path n) = Some old" "files s backup_path = Some c"
  shows "\<exists>s' j e. restore_config (n @ [CHR 0x00]) s = Done () s' \<and> frame s s' \<and> users s' = users s
    \<and> j \<le> length c \<and> files s' = (files s)(conf_path n \<mapsto> overwrite old 0 (take j c)) \<and> nopens s' = nopens s + 2
    \<and> cfiles s' = (addr_of s (nopens s + 1), reader_at backup_path (length c) e) #
        (addr_of s (nopens s), stream_at (conf_path n) j (drop j c)) # cfiles s"
proof -
  let ?A = "addr_of s (nopens s)" and ?B = "addr_of s (nopens s + 1)"
  let ?s0 = "s\<lparr>nopens := nopens s + 2\<rparr>"
  let ?s1 = "s\<lparr>nopens := nopens s + 1, cfiles := (?A, stream_at (conf_path n) 0 []) # cfiles s\<rparr>"
  let ?s2 = "?s0\<lparr>files := (files ?s0)(conf_path n \<mapsto> overwrite old 0 (take 0 c)),
    cfiles := pair_of False ?B (reader_at backup_path 0 False) ?A (stream_at (conf_path n) 0 (drop 0 (take 0 c)))
      @ cfiles s, syslog := syslog s\<rparr>"
  have o1: "c_fopen (conf_path n) True s = Done (Some ?A) ?s1"
    by (rule open_sysfs) (use assms conf_path_facts in auto)
  have same: "(files s)(conf_path n \<mapsto> overwrite old 0 []) = files s"
    using assms(5) by (auto simp: overwrite_def)
  have "c_fopen backup_path False ?s1 = Done (Some ?B) ?s2"
    using open_read [of ?s1 backup_path c] assms(1,6) same by (simp add: pair_of_def)
  moreover have "copying backup_path (conf_path n) old c ?B ?A False (cfiles s) ?s0 0 ?s2"
    by (rule copyingI) simp_all
  then obtain s' where s': "copy_loop ?A ?B ?A ?s2 = Done () s'"
    "copying backup_path (conf_path n) old c ?B ?A False (cfiles s) ?s0 (length c) s'"
    using copy_loop_all [of backup_path "conf_path n" old c ?B ?A False "cfiles s" ?s0 0 ?s2 ?A]
      streams_fresh [OF assms(2)] streams_distinct [OF assms(2)] conf_path_facts(2) [of n] assms(6) by auto
  ultimately have "restore_config (n @ [CHR 0x00]) s = Done () s'"
    unfolding restore_config_def
    using c_string_copy [OF assms(3)] conf_path_facts(4) [OF assms(4)] manager_paths(1) o1 by simp
  then show ?thesis using s'(2) by (auto simp: copying_def frame_def users_def pair_of_def)
qed


subsection \<open>Runs\<close>

text \<open>
  A machine on which the manager can work: it runs setuid, every \<open>fopen\<close> that should
  succeeds, names are short, and memory is as the program needs it to be.
\<close>

definition manager_machine :: "string list \<Rightarrow> os \<Rightarrow> bool" where
  "manager_machine ns s \<longleftrightarrow> (saved_ids s \<longrightarrow> uid_s s = uid_e s) \<and> (\<forall>i. \<not> refuse s i) \<and> inj (addr_of s)
     \<and> cfiles s = [] \<and> pci_dir s = Some ns \<and> (\<forall>d\<in>set ns. length d \<le> 80 \<and> CHR 0x00 \<notin> set d)
     \<and> junk_byte s = CHR 0x00 \<and> 7 \<le> heap_slack s"

definition reboot_asked :: "string list \<Rightarrow> bool" where
  "reboot_asked argv \<longleftrightarrow> 1 < length argv \<and> argv ! 1 = ''r''"

text \<open>The state in which the search ends, seen from the start.\<close>

definition searched :: "os \<Rightarrow> os \<Rightarrow> bool" where
  "searched s s2 \<longleftrightarrow> plain_user s2 \<and> streams_ok s2 \<and> nothing_pending s2 \<and> files s2 = files s
     \<and> (\<forall>i. \<not> refuse s2 i) \<and> 7 \<le> heap_slack s2 \<and> g_euid s2 = uid_e s \<and> bufsz s2 = bufsz s"

lemma manager_search:
  assumes "manager_machine ns s"
  shows "\<exists>s2 cnt. searched s s2 \<and> manager_main argv s =
     and_then (after_reboot (files s flag_path \<noteq> None) (map_option (\<lambda>n. n @ [CHR 0x00]) (find (is_xilinx s) ns))) (\<lambda>_.
     and_then check_config_exist (\<lambda>config_exist.
     and_then (restore_or_reboot (reboot_asked argv) cnt
       (map_option (\<lambda>n. n @ [CHR 0x00]) (find (is_xilinx s) ns)) config_exist) (\<lambda>retval.
     if reboot_asked argv then and_then flag_and_reboot (\<lambda>_. Done 1) else Done retval))) s2"
proof -
  let ?s0 = "s\<lparr>g_ruid := uid_r s, g_euid := uid_e s\<rparr>"
  note m = assms [unfolded manager_machine_def]
  have "full_user ?s0" using m by (simp add: full_user_def)
  then obtain s1 where s1: "undo_setuid ?s0 = Done () s1" "frame ?s0 s1" "plain_user s1" "files s1 = files s"
    "cfiles s1 = []"
    using undo_step [of ?s0] m by auto
  have ok: "streams_ok s1" "nothing_pending s1"
    using s1 m by (simp_all add: streams_ok_def nothing_pending_def frame_def)
  have x: "is_xilinx s1 = is_xilinx s" using s1 by (intro attr_cong) (simp_all add: frame_def)
  have env: "\<forall>i. \<not> refuse s1 i" "pci_dir s1 = Some ns" "junk_byte s1 = CHR 0x00" "\<forall>d\<in>set ns. length d \<le> 80"
    using s1(2) m by (simp_all add: frame_def)
  obtain s2 where s2: "find_pcie_device s1 = Done (map_option (\<lambda>n. n @ [CHR 0x00]) (find (is_xilinx s) ns)) s2"
    "frame s1 s2" "users s2 = users s1" "files s2 = files s1" "streams_ok s2" "nothing_pending s2"
    using find_step [OF env(1,2,4) ok] unfolding x env(3) by blast
  have fr: "frame ?s0 s2" using frame_trans [OF s1(2) s2(2)] .
  have sd: "searched s s2"
    unfolding searched_def using s2 s1 fr m frame_users(2) [OF s2(2,3)] by (simp add: frame_def)
  have "and_then check_rebooted f s1 = f (files s flag_path \<noteq> None) s1" for f :: "bool \<Rightarrow> os \<Rightarrow> int outcome"
    using checks(1) [of s1] s1(4) by (simp add: and_then_def)
  then show ?thesis
    using sd s1(1) s2(1) unfolding manager_main_def reboot_asked_def Let_def
    by (intro exI [of _ s2]) auto
qed

text \<open>At the end of the process a pending copy is complete.\<close>

lemma flush_copy:
  assumes "files s q = Some (overwrite old 0 (take j c))" "j \<le> length c"
  shows "files (flush_file (stream_at q j (drop j c)) s) = (files s)(q \<mapsto> overwrite old 0 c)"
proof (cases "drop j c = []")
  case True
  then show ?thesis using assms by (auto simp: flush_file_def fun_eq_iff)
next
  case False
  have "overwrite (overwrite old 0 (take j c)) j (drop j c) = overwrite old 0 c"
    using overwrite_append [of old "take j c" "drop j c"] assms(2) by (simp add: min_absorb2)
  then show ?thesis using False assms(1) by (simp add: flush_file_def put_bytes_def)
qed

lemma restore_ends:
  assumes "plain_user s" "streams_ok s" "\<forall>i. \<not> refuse s i" "7 \<le> heap_slack s" "CHR 0x00 \<notin> set n" "length n \<le> 80"
    and "files s (conf_path n) = Some old" "files s backup_path = Some c"
  shows "\<exists>s' j e. restore_or_reboot cmd cnt (Some (n @ [CHR 0x00])) True s = Done 0 s' \<and> plain_user s'
    \<and> j \<le> length c \<and> files s' = (files s)(conf_path n \<mapsto> overwrite old 0 (take j c)) \<and> frame s s'
    \<and> nopens s' = nopens s + 2 \<and> cfiles s' = (addr_of s (nopens s + 1), reader_at backup_path (length c) e) #
        (addr_of s (nopens s), stream_at (conf_path n) j (drop j c)) # cfiles s"
proof -
  obtain s1 where s1: "do_setuid s = Done () s1" "frame s s1" "full_user s1" "files s1 = files s"
    "cfiles s1 = cfiles s" "nopens s1 = nopens s"
    using do_step [OF assms(1)] by blast
  have s1': "\<forall>i. \<not> refuse s1 i" "streams_ok s1" "addr_of s1 = addr_of s"
    using s1 assms(2,3) by (simp_all add: frame_def streams_ok_def)
  obtain s2 j e where s2: "restore_config (n @ [CHR 0x00]) s1 = Done () s2" "frame s1 s2" "users s2 = users s1"
    "j \<le> length c" "files s2 = (files s)(conf_path n \<mapsto> overwrite old 0 (take j c))" "nopens s2 = nopens s + 2"
    "cfiles s2 = (addr_of s (nopens s + 1), reader_at backup_path (length c) e) #
        (addr_of s (nopens s), stream_at (conf_path n) j (drop j c)) # cfiles s"
    using restore_step [OF s1'(1,2) assms(5,6), of old c] assms(7,8) s1 s1'(3) by auto
  have "full_user s2" using frame_users(1) [OF s2(2,3)] s1(3) by simp
  then obtain s3 where s3: "undo_setuid s2 = Done () s3" "frame s2 s3" "plain_user s3" "files s3 = files s2"
    "cfiles s3 = cfiles s2" "nopens s3 = nopens s2"
    using undo_step by blast
  have fr: "frame s s3" using frame_trans [OF frame_trans [OF s1(2) s2(2)] s3(2)] .
  then have "build_args cnt s3 = Done () s3" using assms(4) by (simp add: build_args_def frame_def)
  then have "restore_or_reboot cmd cnt (Some (n @ [CHR 0x00])) True s = Done 0 s3"
    using s1(1) s2(1) s3(1) by (simp add: restore_or_reboot_def)
  then show ?thesis using s2 s3 fr by auto
qed


lemma found_facts:
  assumes "manager_machine ns s" "find (is_xilinx s) ns = Some n"
  shows "length n \<le> 80" "CHR 0x00 \<notin> set n"
  using assms by (auto simp: manager_machine_def find_Some_iff)

lemma flush_stack:
  assumes "\<forall>(k, f)\<in>set fs. fpend f = []"
  shows "fold (\<lambda>(k, f). flush_file f) ((b, reader_at x u e) # (a, g) # fs) s = flush_file g s"
    "fold (\<lambda>(k, f). flush_file f) ((b, reader_at x u e) # (a, g) # (b', g') # (a', reader_at x' u' e') # fs) s =
      flush_file g' (flush_file g s)"
  using flush_all_clean [OF assms] by (simp_all add: flush_file_def)

text \<open>Without the flag a saved configuration is written over that of the device.\<close>

lemma manager_restores:
  assumes "manager_machine ns s" "find (is_xilinx s) ns = Some n" "\<not> reboot_asked argv"
    and "files s flag_path = None" "files s (conf_path n) = Some old" "files s backup_path = Some c"
  shows "\<exists>s'. run_tool (manager_main argv) s = Exit 0 s'
    \<and> files s' = (files s)(conf_path n \<mapsto> overwrite old 0 c)"
proof -
  note n = found_facts [OF assms(1,2)]
  obtain s2 cnt where s2: "searched s s2" "manager_main argv s =
      and_then check_config_exist (\<lambda>config_exist.
      and_then (restore_or_reboot False cnt (Some (n @ [CHR 0x00])) config_exist) (\<lambda>retval. Done retval)) s2"
    using manager_search [OF assms(1), of argv] assms(2-4) by (auto simp: after_reboot_def)
  have ce: "check_config_exist s2 = Done True s2" using checks(2) [of s2] s2(1) assms(6) by (simp add: searched_def)
  obtain s3 j e where s3: "restore_or_reboot False cnt (Some (n @ [CHR 0x00])) True s2 = Done 0 s3"
    "j \<le> length c" "files s3 = (files s)(conf_path n \<mapsto> overwrite old 0 (take j c))"
    "cfiles s3 = (addr_of s2 (nopens s2 + 1), reader_at backup_path (length c) e) #
        (addr_of s2 (nopens s2), stream_at (conf_path n) j (drop j c)) # cfiles s2"
    using restore_ends [of s2 n old c False cnt] s2(1) n assms(5,6) by (auto simp: searched_def)
  have run: "manager_main argv s = Done 0 s3" using s2(2) ce s3(1) by (simp add: and_then_def)
  have "fold (\<lambda>(k, f). flush_file f) (cfiles s3) s3 = flush_file (stream_at (conf_path n) j (drop j c)) s3"
    unfolding s3(4) by (rule flush_stack) (use s2(1) in \<open>simp add: searched_def nothing_pending_def\<close>)
  then have "files (flush_all s3) = (files s)(conf_path n \<mapsto> overwrite old 0 c)"
    using flush_copy [of s3 "conf_path n" old j c] s3(2,3) by (simp add: flush_all_def)
  then show ?thesis using run by (auto simp: run_tool_def)
qed

lemma streams_ok_two:
  assumes "streams_ok s" "addr_of s' = addr_of s" "nopens s' = nopens s + 2"
    and "cfiles s' = (addr_of s (nopens s + 1), f) # (addr_of s (nopens s), g) # cfiles s"
  shows "streams_ok s'"
proof -
  have "\<exists>i<nopens s + 2. k = addr_of s i" if kh: "(k, h) \<in> set (cfiles s')" for k h
  proof (cases "(k, h) \<in> set (cfiles s)")
    case True
    then obtain i where "i < nopens s" "k = addr_of s i" using assms(1) unfolding streams_ok_def by blast
    then show ?thesis by (intro exI [of _ i]) simp
  next
    case False
    then have "k = addr_of s (nopens s + 1) \<or> k = addr_of s (nopens s)" using kh assms(4) by auto
    then show ?thesis
    proof
      assume "k = addr_of s (nopens s + 1)"
      then show ?thesis by (intro exI [of _ "nopens s + 1"]) simp
    next
      assume "k = addr_of s (nopens s)"
      then show ?thesis by (intro exI [of _ "nopens s"]) simp
    qed
  qed
  then show ?thesis using assms(1-3) unfolding streams_ok_def by auto
qed

lemma after_reboot_saves:
  assumes "plain_user s" "streams_ok s" "\<forall>i. \<not> refuse s i" "CHR 0x00 \<notin> set n" "length n \<le> 80"
    and "files s (conf_path n) = Some c"
  shows "\<exists>s' j e. after_reboot True (Some (n @ [CHR 0x00])) s = Done () s' \<and> frame s s' \<and> plain_user s'
    \<and> streams_ok s' \<and> j \<le> length c
    \<and> files s' = (files s)(backup_path \<mapsto> take j c, flag_path := None)
    \<and> cfiles s' = (addr_of s (nopens s + 1), stream_at backup_path j (drop j c)) #
        (addr_of s (nopens s), reader_at (conf_path n) (length c) e) # cfiles s"
proof -
  obtain s3 where s3: "do_setuid s = Done () s3" "frame s s3" "full_user s3" "files s3 = files s"
    "cfiles s3 = cfiles s" "nopens s3 = nopens s"
    using do_step [OF assms(1)] by auto
  have s3': "\<forall>i. \<not> refuse s3 i" "streams_ok s3" "addr_of s3 = addr_of s"
    using s3 assms(2,3) by (simp_all add: frame_def streams_ok_def)
  obtain s4 j e where s4: "backup_config (n @ [CHR 0x00]) s3 = Done () s4" "frame s3 s4" "users s4 = users s3"
    "j \<le> length c" "files s4 = (files s)(backup_path \<mapsto> take j c)" "nopens s4 = nopens s + 2"
    "cfiles s4 = (addr_of s (nopens s + 1), stream_at backup_path j (drop j c)) #
        (addr_of s (nopens s), reader_at (conf_path n) (length c) e) # cfiles s"
    using backup_step [OF s3'(1,2) assms(4,5), of c] assms(6) s3 s3'(3) by auto
  obtain s5 where s5: "clear_rebooted s4 = Done () s5" "frame s4 s5" "users s5 = users s4"
    "files s5 = (files s)(backup_path \<mapsto> take j c, flag_path := None)"
    "nopens s5 = nopens s4" "cfiles s5 = cfiles s4"
    using checks(3) [of s4] s4(5) by (simp add: frame_def users_def)
  have "full_user s5" using frame_users(1) [OF frame_trans [OF s4(2) s5(2)]] s4(3) s5(3) s3(3) by simp
  then obtain s6 where s6: "undo_setuid s5 = Done () s6" "frame s5 s6" "plain_user s6" "files s6 = files s5"
    "cfiles s6 = cfiles s5" "nopens s6 = nopens s5"
    using undo_step [of s5] by auto
  have fr: "frame s s6" using frame_trans [OF frame_trans [OF frame_trans [OF s3(2) s4(2)] s5(2)] s6(2)] .
  have "streams_ok s6"
    using streams_ok_two [OF assms(2), of s6] fr s4(6,7) s5(5,6) s6(5,6) by (simp add: frame_def)
  moreover have "after_reboot True (Some (n @ [CHR 0x00])) s = Done () s6"
    using s3(1) s4(1) s5(1) s6(1) by (simp add: after_reboot_def)
  ultimately show ?thesis using fr s4 s5 s6 by auto
qed

text \<open>
  After a reboot the configuration is saved and the flag cleared. The same run then
  restores what of the copy has reached the file, which is a beginning of what the device
  holds anyway.
\<close>

lemma manager_saves:
  assumes "manager_machine ns s" "find (is_xilinx s) ns = Some n" "\<not> reboot_asked argv"
    and "files s flag_path \<noteq> None" "files s (conf_path n) = Some c"
  shows "\<exists>s'. run_tool (manager_main argv) s = Exit 0 s'
    \<and> files s' = (files s)(backup_path \<mapsto> c, flag_path := None)"
proof -
  note n = found_facts [OF assms(1,2)] and cf = conf_path_facts [of n]
  obtain s2 cnt where s2: "searched s s2" "manager_main argv s =
      and_then (after_reboot True (Some (n @ [CHR 0x00]))) (\<lambda>_.
      and_then check_config_exist (\<lambda>config_exist.
      and_then (restore_or_reboot False cnt (Some (n @ [CHR 0x00])) config_exist) (\<lambda>retval. Done retval))) s2"
    using manager_search [OF assms(1), of argv] assms(2-4) by auto
  note sd = s2(1) [unfolded searched_def]
  let ?F = "\<lambda>j. (files s)(backup_path \<mapsto> take j c, flag_path := None)"
  obtain s6 j e where s6: "after_reboot True (Some (n @ [CHR 0x00])) s2 = Done () s6" "frame s2 s6" "plain_user s6"
    "streams_ok s6" "j \<le> length c" "files s6 = ?F j"
    "cfiles s6 = (addr_of s2 (nopens s2 + 1), stream_at backup_path j (drop j c)) #
        (addr_of s2 (nopens s2), reader_at (conf_path n) (length c) e) # cfiles s2"
    using after_reboot_saves [of s2 n c] sd n assms(5) by auto
  have ok6: "\<forall>i. \<not> refuse s6 i" "7 \<le> heap_slack s6" using s6(2) sd by (simp_all add: frame_def)
  have ce: "check_config_exist s6 = Done True s6" using checks(2) [of s6] s6(6) manager_paths(5) by simp
  have f6: "files s6 (conf_path n) = Some c" "files s6 backup_path = Some (take j c)"
    using s6(6) assms(5) cf(2,3) manager_paths(5) by auto
  let ?g = "\<lambda>i. stream_at (conf_path n) i (drop i (take j c))" and ?g' = "stream_at backup_path j (drop j c)"
  obtain s7 i e' where s7: "restore_or_reboot False cnt (Some (n @ [CHR 0x00])) True s6 = Done 0 s7"
    "i \<le> length (take j c)" "files s7 = (files s6)(conf_path n \<mapsto> overwrite c 0 (take i (take j c)))"
    "cfiles s7 = (addr_of s6 (nopens s6 + 1), reader_at backup_path (length (take j c)) e') #
        (addr_of s6 (nopens s6), ?g i) # cfiles s6"
    using restore_ends [OF s6(3,4) ok6 n(2,1) f6, of False cnt] by auto
  have run: "manager_main argv s = Done 0 s7"
    using s2(2) s6(1) ce s7(1) by (simp add: and_then_def)
  have "fold (\<lambda>(k, f). flush_file f) (cfiles s7) s7 = flush_file ?g' (flush_file (?g i) s7)"
    unfolding s7(4) s6(7) by (rule flush_stack) (use sd in \<open>simp add: nothing_pending_def\<close>)
  moreover have g: "files (flush_file (?g i) s7) = (?F j)(conf_path n \<mapsto> c)"
    using flush_copy [of s7 "conf_path n" c i "take j c"] s7(2,3) s6(6) by (simp add: overwrite_prefix)
  moreover have "files (flush_file ?g' (flush_file (?g i) s7)) = ((?F j)(conf_path n \<mapsto> c))(backup_path \<mapsto> c)"
    using flush_copy [of "flush_file (?g i) s7" backup_path "[]" j c] g s6(5) cf(2) manager_paths(5)
    by (simp add: fun_upd_def)
  moreover have "((?F j)(conf_path n \<mapsto> c))(backup_path \<mapsto> c) = (files s)(backup_path \<mapsto> c, flag_path := None)"
    using assms(5) cf(2,3) manager_paths(5) by (auto simp: fun_eq_iff)
  ultimately show ?thesis using run by (auto simp: run_tool_def flush_all_def)
qed


text \<open>Rebooting leaves the flag behind; what is still in the buffers of streams is lost.\<close>

lemma set_rebooted_step:
  assumes "streams_ok s" "\<forall>i. \<not> refuse s i" "1 \<le> bufsz s"
  shows "\<exists>s'. set_rebooted s = Done () s' \<and> frame s s' \<and> users s' = users s
    \<and> files s' = (files s)(flag_path \<mapsto> ''1'')"
proof -
  let ?A = "addr_of s (nopens s)"
  let ?s1 = "s\<lparr>nopens := nopens s + 1, files := (files s)(flag_path \<mapsto> []),
      cfiles := (?A, stream_at flag_path 0 []) # cfiles s\<rparr>"
  let ?s2 = "?s1\<lparr>cfiles := (?A, stream_at flag_path 0 ''1'') # cfiles s\<rparr>"
  have fresh: "?A \<notin> fst ` set (cfiles s)" using streams_fresh [OF assms(1)] by simp
  have "c_fwrite ?A ''1'' ?s1 = Done () ?s2"
    using assms(3) map_other_key [OF fresh] by (simp add: c_fwrite_def set_file_def)
  moreover have "c_fclose ?A ?s2 = Done () ((put_bytes flag_path 0 ''1'' ?s2)\<lparr>cfiles := cfiles s\<rparr>)"
    using filter_other_key [OF fresh] by (simp add: c_fclose_def flush_file_def put_bytes_def)
  ultimately have "set_rebooted s = Done () ((put_bytes flag_path 0 ''1'' ?s2)\<lparr>cfiles := cfiles s\<rparr>)"
    unfolding set_rebooted_def
    using manager_paths(2) open_plain [of s flag_path] assms(2) manager_paths(4) by simp
  then show ?thesis by (simp add: put_bytes_def frame_def users_def)
qed

lemma flag_and_reboot_step:
  assumes "plain_user s" "streams_ok s" "\<forall>i. \<not> refuse s i" "1 \<le> bufsz s" "g_euid s = 0"
  shows "\<exists>s'. flag_and_reboot s = Rebooted s' \<and> files s' = (files s)(flag_path \<mapsto> ''1'')"
proof -
  obtain s1 where s1: "do_setuid s = Done () s1" "frame s s1" "full_user s1" "files s1 = files s"
    "cfiles s1 = cfiles s" "nopens s1 = nopens s"
    using do_step [OF assms(1)] by blast
  have "streams_ok s1" "\<forall>i. \<not> refuse s1 i" "1 \<le> bufsz s1"
    using s1 assms(2-4) by (simp_all add: frame_def streams_ok_def)
  then obtain s2 where s2: "set_rebooted s1 = Done () s2" "frame s1 s2" "users s2 = users s1"
    "files s2 = (files s)(flag_path \<mapsto> ''1'')"
    using set_rebooted_step [of s1] s1(4) by auto
  have "full_user s2" using frame_users(1) [OF s2(2,3)] s1(3) by simp
  then obtain s3 where s3: "undo_setuid s2 = Done () s3" "frame s2 s3" "plain_user s3" "files s3 = files s2"
    using undo_step by blast
  obtain s4 where s4: "do_setuid s3 = Done () s4" "frame s3 s4" "full_user s4" "files s4 = files s3"
    using do_step [OF s3(3)] by blast
  have "g_euid s4 = 0"
    using frame_trans [OF frame_trans [OF frame_trans [OF s1(2) s2(2)] s3(2)] s4(2)] assms(5)
    by (simp add: frame_def)
  then have "c_reboot s4 = Rebooted s4" using s4(3) by (simp add: c_reboot_def full_user_def)
  then have "flag_and_reboot s = Rebooted s4"
    using s1(1) s2(1) s3(1) s4(1) by (simp add: flag_and_reboot_def)
  then show ?thesis using s2(4) s3(4) s4(4) by simp
qed

lemma manager_reboots_without_device:
  assumes "manager_machine ns s" "reboot_asked argv" "uid_e s = 0" "1 \<le> bufsz s" "find (is_xilinx s) ns = None"
  shows "\<exists>s'. run_tool (manager_main argv) s = Rebooted s' \<and> files s' = (files s)(flag_path \<mapsto> ''1'')"
proof -
  obtain s2 cnt where s2: "searched s s2" "manager_main argv s =
     and_then (after_reboot (files s flag_path \<noteq> None) None) (\<lambda>_.
     and_then check_config_exist (\<lambda>config_exist.
     and_then (restore_or_reboot True cnt None config_exist) (\<lambda>retval.
       and_then flag_and_reboot (\<lambda>_. Done 1)))) s2"
    using manager_search [OF assms(1), of argv] assms(2,5) by auto
  obtain s3 where s3: "flag_and_reboot s2 = Rebooted s3" "files s3 = (files s)(flag_path \<mapsto> ''1'')"
    using flag_and_reboot_step [of s2] s2(1) assms(3,4) by (auto simp: searched_def)
  have "manager_main argv s = Rebooted s3"
    unfolding s2(2) using checks(2) [of s2] s3(1)
    by (simp add: and_then_def after_reboot_def restore_or_reboot_def)
  then show ?thesis using s3(2) by (simp add: run_tool_def)
qed

lemma manager_reboots_with_device:
  assumes "manager_machine ns s" "reboot_asked argv" "uid_e s = 0" "1 \<le> bufsz s"
    and "find (is_xilinx s) ns = Some n" "files s flag_path = None" "files s (conf_path n) = Some old"
    and "files s backup_path = Some c"
  shows "\<exists>s'. run_tool (manager_main argv) s = Rebooted s' \<and> files s' flag_path = Some ''1''"
proof -
  note n = found_facts [OF assms(1,5)]
  obtain s2 cnt where s2: "searched s s2" "manager_main argv s =
      and_then check_config_exist (\<lambda>config_exist.
      and_then (restore_or_reboot True cnt (Some (n @ [CHR 0x00])) config_exist) (\<lambda>retval.
        and_then flag_and_reboot (\<lambda>_. Done 1))) s2"
    using manager_search [OF assms(1), of argv] assms(2,5,6) by (auto simp: after_reboot_def)
  note sd = s2(1) [unfolded searched_def]
  have ce: "check_config_exist s2 = Done True s2" using checks(2) [of s2] sd assms(8) by simp
  obtain s3 j e where s3: "restore_or_reboot True cnt (Some (n @ [CHR 0x00])) True s2 = Done 0 s3"
    "plain_user s3" "frame s2 s3" "nopens s3 = nopens s2 + 2"
    "cfiles s3 = (addr_of s2 (nopens s2 + 1), reader_at backup_path (length c) e) #
        (addr_of s2 (nopens s2), stream_at (conf_path n) j (drop j c)) # cfiles s2"
    using restore_ends [of s2 n old c True cnt] sd n assms(7,8) by auto
  have "streams_ok s3" using streams_ok_two [of s2 s3] sd s3 by (simp add: frame_def)
  then obtain s4 where "flag_and_reboot s3 = Rebooted s4" "files s4 flag_path = Some ''1''"
    using flag_and_reboot_step [of s3] s3(2,3) sd assms(3,4) by (auto simp: frame_def)
  then show ?thesis
    unfolding run_tool_def s2(2) using ce s3(1) by (simp add: and_then_def)
qed

end
