(* ===== verification/Driver.thy ===== *)
theory Driver
  imports Prelude
begin

text \<open>
  The Linux driver, \<^verbatim>\<open>distribute/driver/bdbmpcie.c\<close>: what it takes from the kernel and gives
  back when a device is probed and removed, and when the module is loaded and unloaded.
  The kernel's answers are arguments (\<open>kernel\<close>), what is held is state. Log messages, the
  spin lock and the code that is commented out in the source are not modelled.
\<close>

abbreviation PAGE_SIZE :: nat where "PAGE_SIZE \<equiv> 4096"
abbreviation bar0_size :: u64 where "bar0_size \<equiv> 1024 * 1024"
abbreviation mmap_buffersize :: nat where "mmap_buffersize \<equiv> 1024 * 1024"

definition DMA_ADDR_OFFSET :: nat where
  "DMA_ADDR_OFFSET = 32"

text \<open>
  The answers of the kernel: return codes, the page the \<open>i\<close>-th call of \<open>alloc_page\<close> gives,
  the bus address a page is mapped to and whether that failed.
\<close>

record kernel =
  enable_rc :: int
  bar_is_mem :: bool
  regions_rc :: int
  iomap_ok :: bool
  kmalloc_ok :: bool
  page_given :: "nat \<Rightarrow> nat option"
  bus_addr :: "nat \<Rightarrow> u64"
  map_failed :: "u64 \<Rightarrow> bool"

text \<open>
  What the driver holds. \<open>dma_array\<close> is the block that \<open>dma_pages\<close> points to, with the
  entries written so far; \<open>dma_null\<close> tells whether \<open>dma_pages\<close> is \<open>NULL\<close>, which it is not
  after the block was freed.
\<close>

record drv =
  dev_enabled :: bool
  regions_held :: bool
  bar_mapped :: bool
  bus_master :: bool
  dma_null :: bool
  dma_array :: "nat list option"
  dma_pages_count :: nat
  live_pages :: "nat list"
  live_maps :: "u64 list"
  bar0 :: mem

definition drv_start :: "mem \<Rightarrow> drv" where
  "drv_start b = \<lparr>dev_enabled = False, regions_held = False, bar_mapped = False, bus_master = False,
     dma_null = True, dma_array = None, dma_pages_count = 0, live_pages = [], live_maps = [], bar0 = b\<rparr>"

text \<open>\<open>create_dma_buffer\<close>: the loop from \<open>bufidx\<close> on, \<open>n\<close> pages left. A failed mapping keeps its page.\<close>

fun fill_dma_pages :: "kernel \<Rightarrow> nat \<Rightarrow> nat \<Rightarrow> drv \<Rightarrow> int \<times> drv" where
  "fill_dma_pages k 0 bufidx s = (0, s)"
| "fill_dma_pages k (Suc n) bufidx s =
     (case page_given k bufidx of
        None \<Rightarrow> (1, s)
      | Some p \<Rightarrow>
          (let s1 = s\<lparr>live_pages := p # live_pages s, dma_array := map_option (\<lambda>a. a @ [p]) (dma_array s)\<rparr>;
               bus = bus_addr k p;
               s2 = s1\<lparr>live_maps := (if map_failed k bus then live_maps s1 else bus # live_maps s1),
                    bar0 := store32 (bar0 s1) (DMA_ADDR_OFFSET + 4 * bufidx) (ucast bus)\<rparr>
           in if map_failed k bus then (1, s2) else fill_dma_pages k n (bufidx + 1) s2))"

definition create_dma_buffer :: "kernel \<Rightarrow> nat \<Rightarrow> drv \<Rightarrow> int \<times> drv" where
  "create_dma_buffer k bufcount s =
     (if \<not> kmalloc_ok k then (1, s\<lparr>dma_null := True, dma_array := None\<rparr>)
      else (let s1 = s\<lparr>dma_null := False, dma_array := Some []\<rparr>;
                (rc, s2) = fill_dma_pages k bufcount 0 s1
            in if rc \<noteq> 0 then (rc, s2) else (0, s2\<lparr>dma_pages_count := bufcount\<rparr>)))"

text \<open>\<open>pcie_probe\<close> with its three labels; what \<open>create_dma_buffer\<close> returns is ignored.\<close>

definition probe_fail_enable :: "int \<Rightarrow> drv \<Rightarrow> int \<times> drv" where
  "probe_fail_enable rc s = (rc, s)"

definition probe_fail :: "int \<Rightarrow> drv \<Rightarrow> int \<times> drv" where
  "probe_fail rc s = probe_fail_enable rc (s\<lparr>dev_enabled := False\<rparr>)"

definition probe_fail_release_region :: "int \<Rightarrow> drv \<Rightarrow> int \<times> drv" where
  "probe_fail_release_region rc s = probe_fail rc (s\<lparr>regions_held := False\<rparr>)"

definition pcie_probe :: "kernel \<Rightarrow> drv \<Rightarrow> int \<times> drv" where
  "pcie_probe k s =
     (if enable_rc k \<noteq> 0 then probe_fail_enable (enable_rc k) s
      else let s1 = s\<lparr>dev_enabled := True\<rparr> in
      if \<not> bar_is_mem k then probe_fail 1 s1
      else if regions_rc k \<noteq> 0 then probe_fail (regions_rc k) s1
      else let s2 = s1\<lparr>regions_held := True\<rparr> in
      if \<not> iomap_ok k then probe_fail_release_region 1 s2
      else let s3 = s2\<lparr>bar_mapped := True, bus_master := True\<rparr>;
               (rc, s4) = create_dma_buffer k (mmap_buffersize div (1024 * 4)) s3
           in (0, s4))"

text \<open>
  \<open>pcie_remove\<close>. The address given to \<open>pci_unmap_single\<close> is one byte of BAR 0. Reading
  \<open>dma_pages\<close> outside what was written, or freeing what is not held, is a fault (\<open>None\<close>).
\<close>

fun free_dma_pages :: "nat \<Rightarrow> nat \<Rightarrow> drv \<Rightarrow> drv option" where
  "free_dma_pages 0 i s = Some s"
| "free_dma_pages (Suc n) i s =
     (let s1 = s\<lparr>live_maps := remove1 (ucast (bar0 s (DMA_ADDR_OFFSET + 4 * i))) (live_maps s)\<rparr> in
      case dma_array s1 of
        None \<Rightarrow> None
      | Some a \<Rightarrow>
          if i < length a \<and> a ! i \<in> set (live_pages s1)
          then free_dma_pages n (i + 1) (s1\<lparr>live_pages := remove1 (a ! i) (live_pages s1)\<rparr>)
          else None)"

definition pcie_remove :: "drv \<Rightarrow> drv option" where
  "pcie_remove s =
     (case free_dma_pages (dma_pages_count s) 0 s of
        None \<Rightarrow> None
      | Some s1 \<Rightarrow>
          (if \<not> dma_null s1 \<and> dma_array s1 = None then None
           else Some (s1\<lparr>dma_array := None, bus_master := False, bar_mapped := False,
                  regions_held := False, dev_enabled := False\<rparr>)))"

subsection \<open>The module\<close>

record module =
  drv_registered :: bool
  chrdev_region :: bool
  cdev_live :: bool
  class_live :: bool
  device_live :: bool

definition module_start :: module where
  "module_start = \<lparr>drv_registered = False, chrdev_region = False, cdev_live = False,
     class_live = False, device_live = False\<rparr>"

text \<open>The return codes of \<open>alloc_chrdev_region\<close>, \<open>cdev_add\<close> and \<open>pci_register_driver\<close> are arguments.\<close>

definition chrdev_init :: "int \<Rightarrow> int \<Rightarrow> module \<Rightarrow> int \<times> module" where
  "chrdev_init alloc_rc add_rc m =
     (if alloc_rc < 0 then (- 1, m)
      else let m1 = m\<lparr>chrdev_region := True\<rparr> in
      if add_rc \<noteq> 0 then (add_rc, m1\<lparr>chrdev_region := False\<rparr>)
      else (0, m1\<lparr>cdev_live := True, class_live := True, device_live := True\<rparr>))"

text \<open>Registering the driver makes the PCI core probe the device, if it is there.\<close>

definition pcie_init :: "int \<Rightarrow> int \<Rightarrow> int \<Rightarrow> module \<Rightarrow> int \<times> module" where
  "pcie_init register_rc alloc_rc add_rc m =
     (if register_rc \<noteq> 0 then (register_rc, m)
      else let (res, m1) = chrdev_init alloc_rc add_rc (m\<lparr>drv_registered := True\<rparr>) in
      if res \<noteq> 0 then (res, m1) else (0, m1))"

definition pcie_exit :: "module \<Rightarrow> module" where
  "pcie_exit m =
     (let m1 = m\<lparr>drv_registered := False\<rparr>;
          m2 = m1\<lparr>chrdev_region := False\<rparr>;
          m3 = m2\<lparr>cdev_live := False\<rparr>;
          m4 = m3\<lparr>device_live := False\<rparr>
      in m4\<lparr>class_live := False\<rparr>)"

subsection \<open>Interrupts\<close>

record irqs =
  bdbm_irq_count :: u32
  bdbm_irq_ack :: u32

definition interrupt_handler :: "irqs \<Rightarrow> irqs" where
  "interrupt_handler q = q\<lparr>bdbm_irq_count := bdbm_irq_count q + 1\<rparr>"

text \<open>\<open>bdbm_poll\<close>: the result tells whether it reports \<open>POLLIN | POLLRDNORM\<close>.\<close>

definition bdbm_poll :: "irqs \<Rightarrow> bool \<times> irqs" where
  "bdbm_poll q =
     (if bdbm_irq_count q > bdbm_irq_ack q then (True, q\<lparr>bdbm_irq_ack := bdbm_irq_count q\<rparr>)
      else (False, q))"

subsection \<open>Mapping\<close>

record vma =
  vm_start :: u64
  vm_end :: u64
  vm_pgoff :: u64

text \<open>The calls \<open>bdbm_mmap\<close> makes: \<open>remap_pfn_range\<close> and \<open>vm_insert_page\<close>, whose results it ignores.\<close>

datatype vmop = Remap u64 u64 u32 | Insert u64 nat

text \<open>
  \<open>buffoff\<close> and \<open>pageoff\<close> are \<open>unsigned int\<close>, the offsets and addresses \<open>unsigned long\<close>.
\<close>

definition insert_pages :: "vma \<Rightarrow> u64 \<Rightarrow> u64 \<Rightarrow> nat list \<Rightarrow> vmop list" where
  "insert_pages vm off vsize pages =
     (let buffoff = (ucast (bar0_size - off) :: u32) in
      concat (map (\<lambda>i. let pageoff = (ucast (bar0_size + 4096 * of_nat i :: u64) :: u32) in
        if ucast pageoff \<ge> off \<and> ucast pageoff + (4096 :: u64) < off + vsize
        then [Insert (vm_start vm + ucast buffoff + 4096 * of_nat i) (pages ! i)]
        else []) [0 ..< length pages]))"

definition bdbm_mmap :: "u64 \<Rightarrow> nat list \<Rightarrow> vma \<Rightarrow> vmop list" where
  "bdbm_mmap bar0_addr pages vm =
     (let off = push_bit 12 (vm_pgoff vm);
          vsize = vm_end vm - vm_start vm;
          physical = bar0_addr + off;
          bar = (if off < bar0_size
                 then (let room = (ucast (bar0_size - off) :: u32);
                           intvsize = (if vsize < ucast room then ucast vsize else room)
                       in [Remap (vm_start vm) (drop_bit 12 physical) intvsize])
                 else []);
          buf = (if off + vsize > bar0_size then insert_pages vm off vsize pages else [])
      in bar @ buf)"

end
