(* ===== verification/DriverPages.thy ===== *)
theory DriverPages
  imports Driver
begin

text \<open>
  The life of the driver's pages: probing, the table of bus addresses in BAR 0, removal,
  and the cases in which an allocation fails half way.
\<close>

definition probe_ok :: "kernel \<Rightarrow> bool" where
  "probe_ok k \<longleftrightarrow> enable_rc k = 0 \<and> bar_is_mem k \<and> regions_rc k = 0 \<and> iomap_ok k \<and> kmalloc_ok k"

text \<open>The first \<open>n\<close> pages are there, distinct, and can be mapped; bus addresses are those of pages.\<close>

definition pages_given :: "kernel \<Rightarrow> nat \<Rightarrow> nat list \<Rightarrow> bool" where
  "pages_given k n ps \<longleftrightarrow> length ps = n \<and> distinct ps
     \<and> (\<forall>i<n. page_given k i = Some (ps ! i) \<and> \<not> map_failed k (bus_addr k (ps ! i))
          \<and> bus_addr k (ps ! i) \<noteq> 0 \<and> 4096 dvd unat (bus_addr k (ps ! i)))"

definition dma_table :: "kernel \<Rightarrow> nat list \<Rightarrow> nat \<Rightarrow> mem \<Rightarrow> mem" where
  "dma_table k ps b m = fold (\<lambda>i m. store32 m (DMA_ADDR_OFFSET + 4 * i) (ucast (bus_addr k (ps ! (i - b)))))
     [b ..< b + length ps] m"

lemma dma_table_Cons:
  "dma_table k (p # ps) b m = dma_table k ps (b + 1) (store32 m (DMA_ADDR_OFFSET + 4 * b) (ucast (bus_addr k p)))"
proof -
  have "[b ..< b + length (p # ps)] = b # [b + 1 ..< b + 1 + length ps]" by (simp add: upt_rec)
  moreover have "fold (\<lambda>i m. store32 m (DMA_ADDR_OFFSET + 4 * i) (ucast (bus_addr k ((p # ps) ! (i - b)))))
      [b + 1 ..< b + 1 + length ps] x =
    fold (\<lambda>i m. store32 m (DMA_ADDR_OFFSET + 4 * i) (ucast (bus_addr k (ps ! (i - (b + 1))))))
      [b + 1 ..< b + 1 + length ps] x" for x
    by (rule fold_cong) (auto simp: nth_Cons' intro!: ext)
  ultimately show ?thesis by (simp add: dma_table_def)
qed

lemma dma_table_below:
  "a < DMA_ADDR_OFFSET + 4 * b \<Longrightarrow> dma_table k ps b m a = m a"
proof (induction ps arbitrary: b m)
  case Nil
  show ?case by (simp add: dma_table_def)
next
  case (Cons p ps)
  then show ?case by (simp add: dma_table_Cons store32_other)
qed

text \<open>Entry \<open>i\<close> of the table is the bus address of page \<open>i\<close>, byte by byte.\<close>

lemma dma_table_entry:
  assumes "i < length ps"
  shows "load32 (dma_table k ps b m) (DMA_ADDR_OFFSET + 4 * (b + i)) = ucast (bus_addr k (ps ! i))"
    "dma_table k ps b m (DMA_ADDR_OFFSET + 4 * (b + i)) = ucast (ucast (bus_addr k (ps ! i)) :: u32)"
proof -
  have "load32 (dma_table k ps b m) (DMA_ADDR_OFFSET + 4 * (b + i)) = ucast (bus_addr k (ps ! i))
      \<and> dma_table k ps b m (DMA_ADDR_OFFSET + 4 * (b + i)) = ucast (ucast (bus_addr k (ps ! i)) :: u32)"
    using assms
  proof (induction ps arbitrary: b m i)
    case (Cons p ps)
    show ?case
    proof (cases i)
      case 0
      let ?a = "DMA_ADDR_OFFSET + 4 * b" and ?m = "store32 m (DMA_ADDR_OFFSET + 4 * b) (ucast (bus_addr k p))"
      have low: "dma_table k ps (b + 1) ?m (?a + j) = ?m (?a + j)" if "j < 4" for j
        using that by (intro dma_table_below) simp
      have "load32 (dma_table k ps (b + 1) ?m) ?a = load32 ?m ?a" by (rule load32_cong) (rule low)
      moreover have "?m ?a = ucast (ucast (bus_addr k p) :: u32)" by (simp add: store32_def)
      ultimately show ?thesis using low [of 0] 0 by (simp add: dma_table_Cons)
    next
      case (Suc j)
      then show ?thesis using Cons.IH [of j "b + 1"] Cons.prems by (simp add: dma_table_Cons)
    qed
  qed simp
  then show "load32 (dma_table k ps b m) (DMA_ADDR_OFFSET + 4 * (b + i)) = ucast (bus_addr k (ps ! i))"
    "dma_table k ps b m (DMA_ADDR_OFFSET + 4 * (b + i)) = ucast (ucast (bus_addr k (ps ! i)) :: u32)" by auto
qed

text \<open>The loop of \<open>create_dma_buffer\<close>, up to the page that is missing, if one is.\<close>

lemma fill_pages:
  assumes "\<forall>i<length ps. page_given k (b + i) = Some (ps ! i) \<and> \<not> map_failed k (bus_addr k (ps ! i))"
    and "n = length ps \<or> length ps < n \<and> page_given k (b + length ps) = None" "dma_array s = Some a"
  shows "fill_dma_pages k n b s = (if n = length ps then 0 else 1,
    s\<lparr>live_pages := rev ps @ live_pages s, dma_array := Some (a @ ps),
      live_maps := rev (map (bus_addr k) ps) @ live_maps s, bar0 := dma_table k ps b (bar0 s)\<rparr>)"
  using assms
proof (induction ps arbitrary: b n s a)
  case Nil
  then show ?case by (cases n) (simp_all add: dma_table_def)
next
  case (Cons p ps)
  obtain n' where n: "n = Suc n'" using Cons.prems(2) by (cases n) auto
  have p: "page_given k b = Some p" "\<not> map_failed k (bus_addr k p)" using Cons.prems(1) by auto
  have rest: "\<forall>i<length ps. page_given k (b + 1 + i) = Some (ps ! i) \<and> \<not> map_failed k (bus_addr k (ps ! i))"
    using Cons.prems(1) by auto
  have "n' = length ps \<or> length ps < n' \<and> page_given k (b + 1 + length ps) = None"
    using Cons.prems(2) by (auto simp: n)
  from Cons.IH [OF rest this, of "s\<lparr>live_pages := p # live_pages s, dma_array := Some (a @ [p]),
      live_maps := bus_addr k p # live_maps s,
      bar0 := store32 (bar0 s) (DMA_ADDR_OFFSET + 4 * b) (ucast (bus_addr k p))\<rparr>" "a @ [p]"]
  show ?case using Cons.prems(3) p by (simp add: n dma_table_Cons Let_def)
qed

text \<open>A probe that gets everything: \<open>held k ps s\<close> is the state it leaves.\<close>

definition held :: "kernel \<Rightarrow> nat list \<Rightarrow> drv \<Rightarrow> drv" where
  "held k ps s = s\<lparr>dev_enabled := True, regions_held := True, bar_mapped := True, bus_master := True,
     dma_null := False, dma_array := Some ps, live_pages := rev ps @ live_pages s,
     live_maps := rev (map (bus_addr k) ps) @ live_maps s, bar0 := dma_table k ps 0 (bar0 s)\<rparr>"

lemma probe_holds:
  assumes "probe_ok k" "pages_given k 256 ps"
  shows "pcie_probe k s = (0, (held k ps s)\<lparr>dma_pages_count := 256\<rparr>)"
  using assms fill_pages [of ps k 0 256 _ "[]"]
  by (simp add: pcie_probe_def create_dma_buffer_def probe_ok_def pages_given_def held_def Let_def)

text \<open>If only \<open>j\<close> pages can be had, the probe still returns 0, and \<open>dma_pages_count\<close> is not set.\<close>

lemma probe_partial:
  assumes "probe_ok k" "pages_given k j ps" "j < 256" "page_given k j = None"
  shows "pcie_probe k s = (0, held k ps s)"
  using assms fill_pages [of ps k 0 256 _ "[]"]
  by (simp add: pcie_probe_def create_dma_buffer_def probe_ok_def pages_given_def held_def Let_def)

lemma probe_fails_clean:
  assumes "pcie_probe k s = (rc, s')" "rc \<noteq> 0" "\<not> dev_enabled s" "\<not> regions_held s"
  shows "s' = s"
  using assms
  by (cases s) (auto simp: pcie_probe_def probe_fail_def probe_fail_enable_def probe_fail_release_region_def Let_def
      split: if_splits prod.splits)

text \<open>
  Removal frees every page and no other; the bus addresses stay mapped, because the byte
  it reads is 0 and 0 is the address of no mapping.
\<close>

lemma free_pages:
  assumes "length a = i + n" "distinct a" "dma_array s = Some a" "live_pages s = rev (drop i a) @ l"
    and "\<forall>j<n. bar0 s (DMA_ADDR_OFFSET + 4 * (i + j)) = 0" "0 \<notin> set (live_maps s)"
  shows "free_dma_pages n i s = Some (s\<lparr>live_pages := l\<rparr>)"
  using assms
proof (induction n arbitrary: i s)
  case 0
  then show ?case by simp
next
  case (Suc n)
  have i: "drop i a = a ! i # drop (Suc i) a" using Suc.prems(1) by (simp add: Cons_nth_drop_Suc)
  have "a ! i \<notin> set (drop (Suc i) a)" using Suc.prems(2) i by (metis distinct.simps(2) distinct_drop)
  then have pages: "remove1 (a ! i) (live_pages s) = rev (drop (Suc i) a) @ l"
    using Suc.prems(4) by (simp add: i remove1_append)
  have byte: "bar0 s (DMA_ADDR_OFFSET + 4 * i) = 0" using Suc.prems(5) by (metis add_0_right zero_less_Suc)
  have maps: "remove1 (ucast (bar0 s (DMA_ADDR_OFFSET + 4 * i))) (live_maps s) = live_maps s"
    using Suc.prems(6) byte by (simp add: remove1_idem)
  have "\<forall>j<n. bar0 s (DMA_ADDR_OFFSET + 4 * (Suc i + j)) = 0"
    using Suc.prems(5) by (metis Suc_less_eq add_Suc_shift)
  then have "free_dma_pages n (Suc i) (s\<lparr>live_pages := rev (drop (Suc i) a) @ l\<rparr>) = Some (s\<lparr>live_pages := l\<rparr>)"
    using Suc.IH [of "Suc i" "s\<lparr>live_pages := rev (drop (Suc i) a) @ l\<rparr>"] Suc.prems by simp
  moreover have "a ! i \<in> set (live_pages s)" using Suc.prems(4) by (simp add: i)
  ultimately show ?case using Suc.prems(1,3) pages maps by (simp add: Let_def)
qed

lemma aligned_low_byte:
  assumes "4096 dvd unat (w :: u64)"
  shows "ucast (ucast w :: u32) = (0 :: u8)"
proof -
  have "ucast (ucast w :: u32) = (of_nat (unat w) :: u8)"
    by (rule bit_word_eqI) (auto simp: bit_unsigned_iff)
  moreover have "256 dvd unat w" using assms by (rule dvd_trans [rotated]) simp
  then have "(of_nat (unat w) :: u8) = 0" by (subst word_of_nat_eq_0_iff) simp
  ultimately show ?thesis by simp
qed

definition released :: "drv \<Rightarrow> drv" where
  "released s = s\<lparr>dma_array := None, bus_master := False, bar_mapped := False, regions_held := False,
     dev_enabled := False\<rparr>"

lemma remove_frees:
  assumes "pages_given k 256 ps" "0 \<notin> set (live_maps s)" "set ps \<inter> set (live_pages s) = {}"
  shows "pcie_remove ((held k ps s)\<lparr>dma_pages_count := 256\<rparr>) =
    Some (released ((held k ps s)\<lparr>dma_pages_count := 256, live_pages := live_pages s\<rparr>))"
proof -
  let ?s = "(held k ps s)\<lparr>dma_pages_count := 256\<rparr>"
  have ps: "length ps = 256" "distinct ps" using assms(1) by (simp_all add: pages_given_def)
  have "\<forall>j<256. bar0 ?s (DMA_ADDR_OFFSET + 4 * (0 + j)) = 0"
    using dma_table_entry(2) [of _ ps k 0 "bar0 s"] assms(1) aligned_low_byte
    by (simp add: held_def pages_given_def)
  moreover have "0 \<notin> set (live_maps ?s)"
    using assms(1,2) by (auto simp: held_def pages_given_def in_set_conv_nth)
  ultimately have "free_dma_pages 256 0 ?s = Some (?s\<lparr>live_pages := live_pages s\<rparr>)"
    using ps by (intro free_pages [of ps]) (simp_all add: held_def)
  then show ?thesis by (simp add: pcie_remove_def held_def released_def)
qed

text \<open>After a partial first probe removal frees nothing.\<close>

lemma remove_nothing:
  assumes "dma_pages_count s = 0"
  shows "pcie_remove (held k ps s) = Some (released (held k ps s))"
  using assms by (simp add: pcie_remove_def held_def released_def)

text \<open>
  After a partial probe that followed a complete one, removal goes on to entries of the
  array that were not written.
\<close>

lemma free_pages_fault:
  assumes "length a < i + n" "i \<le> length a" "dma_array s = Some a"
  shows "free_dma_pages n i s = None"
  using assms
proof (induction n arbitrary: i s)
  case (Suc n)
  show ?case
  proof (cases "i < length a")
    case True
    have "free_dma_pages n (i + 1) (s\<lparr>live_maps := x, live_pages := y\<rparr>) = None" for x y
      by (rule Suc.IH) (use Suc.prems True in simp_all)
    then show ?thesis using Suc.prems(3) by (simp add: Let_def)
  qed (use Suc.prems in \<open>simp add: Let_def\<close>)
qed simp

lemma reprobe_faults:
  assumes "pages_given k j ps" "j < 256" "dma_pages_count s = 256"
  shows "pcie_remove (held k ps s) = None"
proof -
  have "free_dma_pages 256 0 (held k ps s) = None"
    by (rule free_pages_fault [of ps]) (use assms in \<open>simp_all add: held_def pages_given_def\<close>)
  then show ?thesis using assms(3) by (simp add: pcie_remove_def held_def)
qed

end
