(* ===== verification/DriverMap.thy ===== *)
theory DriverMap
  imports Driver
begin

text \<open>
  What user space gets from the driver: the pages of an \<open>mmap\<close>, the interrupts a \<open>poll\<close>
  reports; and what is left when the module cannot be loaded.
\<close>

subsection \<open>Pages\<close>

lemma concat_if: "concat (map (\<lambda>i. if P i then [f i] else []) xs) = map f (filter P xs)"
  by (induction xs) auto

lemma filter_upt_less: "filter (\<lambda>i. 4096 * (i + 1) < (v :: nat)) [0 ..< n] = [0 ..< min n ((v - 1) div 4096)]"
proof (induction n)
  case (Suc n)
  have "4096 * (n + 1) < v \<longleftrightarrow> n < (v - 1) div 4096"
    using less_eq_div_iff_mult_less_eq [of 4096 "n + 1" "v - 1"] by auto
  then show ?case using Suc by (auto simp: min_def)
qed simp

lemma page_offset:
  assumes "i < 256"
  shows "unat (ucast (ucast (bar0_size + 4096 * of_nat i :: u64) :: u32) :: u64) = 1048576 + 4096 * i"
proof -
  have "bar0_size + 4096 * of_nat i = (of_nat (1048576 + 4096 * i) :: u64)" by simp
  moreover have "unat (of_nat (1048576 + 4096 * i) :: u64) = 1048576 + 4096 * i"
    using assms by (intro unat_of_nat_small) simp
  ultimately have "unat (bar0_size + 4096 * of_nat i :: u64) = 1048576 + 4096 * i" by simp
  then show ?thesis using assms by (simp add: unat_ucast_small)
qed

text \<open>
  A mapping of the buffer from its beginning: page after page, but only pages that end
  before the end of the mapping.
\<close>

lemma insert_from_start:
  assumes "length pages \<le> 256" "unat vsize \<le> 2 ^ 40"
  shows "insert_pages vm 0x100000 vsize pages =
    map (\<lambda>i. Insert (vm_start vm + 4096 * of_nat i) (pages ! i))
      [0 ..< min (length pages) ((unat vsize - 1) div 4096)]"
proof -
  have vs: "unat (0x100000 + vsize) = 0x100000 + unat vsize"
    using assms(2) by (subst unat_plus_if_size) (simp add: word_size)
  have cond: "ucast (ucast (bar0_size + 4096 * of_nat i :: u64) :: u32) \<ge> (0x100000 :: u64)
      \<and> ucast (ucast (bar0_size + 4096 * of_nat i :: u64) :: u32) + (4096 :: u64) < 0x100000 + vsize
      \<longleftrightarrow> 4096 * (i + 1) < unat vsize" if "i < length pages" for i
  proof -
    let ?p = "ucast (ucast (bar0_size + 4096 * of_nat i :: u64) :: u32) :: u64"
    have p: "unat ?p = 1048576 + 4096 * i" using page_offset [of i] that assms(1) by simp
    then have "unat (?p + 4096) = 1048576 + 4096 * i + 4096"
      using that assms(1) by (subst unat_plus_if_size) (simp add: word_size)
    then show ?thesis using p vs by (simp add: word_le_nat_alt word_less_nat_alt)
  qed
  have "insert_pages vm 0x100000 vsize pages = concat (map (\<lambda>i.
      if 4096 * (i + 1) < unat vsize then [Insert (vm_start vm + 4096 * of_nat i) (pages ! i)] else [])
      [0 ..< length pages])"
    unfolding insert_pages_def Let_def
    by (intro arg_cong [of _ _ concat] map_cong refl) (use cond in simp)
  then show ?thesis by (simp only: concat_if filter_upt_less)
qed

lemma mmap_registers:
  assumes "vm_pgoff vm = 0" "vm_end vm - vm_start vm = 0x100000"
  shows "bdbm_mmap bar0_addr pages vm = [Remap (vm_start vm) (drop_bit 12 bar0_addr) 0x100000]"
  using assms by (simp add: bdbm_mmap_def Let_def)

lemma mmap_buffer:
  assumes "vm_pgoff vm = 256" "unat (vm_end vm - vm_start vm) \<le> 2 ^ 40" "0 < unat (vm_end vm - vm_start vm)"
    and "length pages \<le> 256"
  shows "bdbm_mmap bar0_addr pages vm =
    map (\<lambda>i. Insert (vm_start vm + 4096 * of_nat i) (pages ! i))
      [0 ..< min (length pages) ((unat (vm_end vm - vm_start vm) - 1) div 4096)]"
proof -
  let ?v = "vm_end vm - vm_start vm"
  have "unat (0x100000 + ?v) = 0x100000 + unat ?v"
    using assms(2) by (subst unat_plus_if_size) (simp add: word_size)
  then have "(0x100000 :: u64) < 0x100000 + ?v" using assms(3) by (simp add: word_less_nat_alt)
  moreover have "push_bit 12 (vm_pgoff vm) = 0x100000" by (simp add: assms(1) push_bit_eq_mult)
  ultimately show ?thesis
    using insert_from_start [OF assms(4,2)] by (simp add: bdbm_mmap_def Let_def)
qed

text \<open>
  A mapping that starts inside the buffer: \<open>buffoff\<close> has wrapped at 32 bits, and every page
  is inserted outside the mapping, where \<open>vm_insert_page\<close> refuses it.
\<close>

lemma mmap_inside:
  assumes "256 < unat (vm_pgoff vm)" "unat (vm_pgoff vm) < 512" "unat (vm_end vm - vm_start vm) \<le> 2 ^ 31"
    and "length pages \<le> 256" "Insert a p \<in> set (bdbm_mmap bar0_addr pages vm)"
  shows "vm_end vm - vm_start vm \<le> a - vm_start vm"
proof -
  let ?off = "push_bit 12 (vm_pgoff vm)" and ?g = "unat (vm_pgoff vm)"
  have off: "unat ?off = 4096 * ?g"
  proof -
    have "?off = of_nat (4096 * ?g)" by (simp add: push_bit_eq_mult)
    then show ?thesis using assms(2) by (simp only:) (intro unat_of_nat_small, simp)
  qed
  have "\<not> ?off < 0x100000" using off assms(1) by (simp add: word_less_nat_alt)
  then have "Insert a p \<in> set (insert_pages vm ?off (vm_end vm - vm_start vm) pages)"
    using assms(5) by (auto simp: bdbm_mmap_def Let_def split: if_splits)
  then obtain i where i: "i < length pages" "?off \<le> ucast (ucast (bar0_size + 4096 * of_nat i :: u64) :: u32)"
    "a = vm_start vm + ucast (ucast (bar0_size - ?off) :: u32) + 4096 * of_nat i"
    by (auto simp: insert_pages_def Let_def split: if_splits)
  have ig: "4096 * ?g \<le> 1048576 + 4096 * i"
    using i(1,2) page_offset [of i] assms(4) off by (simp add: word_le_nat_alt)
  have b: "unat (ucast (bar0_size - ?off) :: u32) = 2 ^ 32 + 1048576 - 4096 * ?g"
  proof -
    have "bar0_size - ?off = of_nat (2 ^ 64 + 1048576 - 4096 * ?g)"
      using off assms(2) by (simp add: of_nat_diff push_bit_eq_mult)
    then have "ucast (bar0_size - ?off) = (of_nat (2 ^ 64 + 1048576 - 4096 * ?g) :: u32)"
      by (simp only: ) (rule bit_word_eqI, simp add: bit_unsigned_iff bit_of_nat_iff)
    then have "unat (ucast (bar0_size - ?off) :: u32) = (2 ^ 64 + 1048576 - 4096 * ?g) mod 2 ^ 32"
      by (simp add: unsigned_of_nat take_bit_eq_mod)
    also have "2 ^ 64 + 1048576 - 4096 * ?g = (2 ^ 32 + 1048576 - 4096 * ?g) + (2 ^ 32 - 1) * 2 ^ 32"
      using assms(2) by simp
    also have "\<dots> mod 2 ^ 32 = (2 ^ 32 + 1048576 - 4096 * ?g) mod 2 ^ 32" by (rule mod_mult_self1)
    also have "\<dots> = 2 ^ 32 + 1048576 - 4096 * ?g" using assms(1) by (intro mod_less) simp
    finally show ?thesis .
  qed
  have "ucast (ucast (bar0_size - ?off) :: u32) = (of_nat (unat (ucast (bar0_size - ?off) :: u32)) :: u64)" by simp
  also have "\<dots> = of_nat (2 ^ 32 + 1048576 - 4096 * ?g)" by (simp only: b)
  finally have "a - vm_start vm = of_nat (2 ^ 32 + 1048576 - 4096 * ?g + 4096 * i)"
    unfolding i(3) of_nat_add of_nat_mult by simp
  moreover have "unat (of_nat (2 ^ 32 + 1048576 - 4096 * ?g + 4096 * i) :: u64) = 2 ^ 32 + 1048576 - 4096 * ?g + 4096 * i"
    using i(1) assms(4) by (intro unat_of_nat_small) simp
  ultimately have "2 ^ 32 \<le> unat (a - vm_start vm)" using ig by simp
  then show ?thesis using assms(3) by (simp add: word_le_nat_alt)
qed


subsection \<open>Interrupts\<close>

datatype irq_event = Irq | Poll

fun run_irqs :: "irq_event list \<Rightarrow> irqs \<Rightarrow> bool list \<times> irqs" where
  "run_irqs [] q = ([], q)"
| "run_irqs (Irq # es) q = run_irqs es (interrupt_handler q)"
| "run_irqs (Poll # es) q =
     (let (b, q1) = bdbm_poll q; (bs, q2) = run_irqs es q1 in (b # bs, q2))"

text \<open>The reference: a flag that an interrupt sets and a poll that reports it clears.\<close>

fun poll_answers :: "bool \<Rightarrow> irq_event list \<Rightarrow> bool list" where
  "poll_answers pending [] = []"
| "poll_answers pending (Irq # es) = poll_answers True es"
| "poll_answers pending (Poll # es) = pending # poll_answers False es"

definition irqs_in :: "irq_event list \<Rightarrow> nat" where
  "irqs_in es = length (filter (\<lambda>e. e = Irq) es)"

lemma polls_report:
  assumes "bdbm_irq_ack q \<le> bdbm_irq_count q" "unat (bdbm_irq_count q) + irqs_in es < 2 ^ 32"
  shows "fst (run_irqs es q) = poll_answers (bdbm_irq_ack q < bdbm_irq_count q) es"
  using assms
proof (induction es arbitrary: q)
  case (Cons e es)
  show ?case
  proof (cases e)
    case Irq
    have up: "unat (bdbm_irq_count q + 1) = unat (bdbm_irq_count q) + 1"
      using Cons.prems(2) by (intro unat_add_one_small) (simp add: Irq irqs_in_def)
    have "bdbm_irq_ack q < bdbm_irq_count q + 1"
      using Cons.prems(1) up by (simp add: word_le_nat_alt word_less_nat_alt)
    then show ?thesis
      using Cons.IH [of "interrupt_handler q"] Cons.prems up
      by (simp add: Irq interrupt_handler_def irqs_in_def)
  next
    case Poll
    obtain b q1 where p: "bdbm_poll q = (b, q1)" by fastforce
    have q1: "bdbm_irq_count q1 = bdbm_irq_count q" "bdbm_irq_ack q1 = bdbm_irq_count q"
      "b = (bdbm_irq_ack q < bdbm_irq_count q)"
      using p Cons.prems(1) by (auto simp: bdbm_poll_def split: if_splits)
    then show ?thesis
      using Cons.IH [of q1] Cons.prems p
      by (cases "run_irqs es q1") (simp add: Poll irqs_in_def)
  qed
qed simp

subsection \<open>Loading and unloading\<close>

lemma load_unload: "pcie_init 0 0 0 module_start = (0, m) \<Longrightarrow> pcie_exit m = module_start"
  by (auto simp: pcie_init_def chrdev_init_def pcie_exit_def module_start_def Let_def)

text \<open>If the character device cannot be made, the driver stays registered though loading fails.\<close>

lemma init_failure:
  assumes "alloc_rc < 0 \<or> add_rc \<noteq> 0"
  shows "\<exists>rc m. pcie_init 0 alloc_rc add_rc module_start = (rc, m) \<and> rc \<noteq> 0 \<and> drv_registered m
    \<and> \<not> chrdev_region m"
  using assms by (auto simp: pcie_init_def chrdev_init_def module_start_def Let_def)

end
