(* ===== verification/WaitInterrupt.thy ===== *)
theory WaitInterrupt
  imports DriverMap
begin

text \<open>
  \<open>waitInterrupt\<close> of the device build, \<^verbatim>\<open>cpp/bdbmpcie.cpp\<close>, on the driver's \<open>bdbm_poll\<close>. The
  system call \<^verbatim>\<open>poll\<close> asks the driver, and again whenever the driver wakes its queue, until
  the driver reports the device ready or \<open>timeout\<close> milliseconds have gone by; a negative
  timeout never ends the wait. \<open>irq t\<close> is the number of interrupts in the \<open>t\<close>-th millisecond
  (without a timeout, between any two looks of the kernel).
\<close>

definition sys_poll :: "(nat \<Rightarrow> nat) \<Rightarrow> int \<Rightarrow> irqs \<Rightarrow> (nat \<times> bool \<times> irqs) option" where
  "sys_poll irq timeout q =
     while_option (\<lambda>(t, ready, q). \<not> ready \<and> (timeout < 0 \<or> int t < timeout))
       (\<lambda>(t, ready, q). let (r, q2) = bdbm_poll ((interrupt_handler ^^ irq t) q) in (t + 1, r, q2))
       (let (r, q1) = bdbm_poll q in (0, r, q1))"

definition waitInterrupt :: "(nat \<Rightarrow> nat) \<Rightarrow> int \<Rightarrow> irqs \<Rightarrow> irqs option" where
  "waitInterrupt irq timeout q =
     (case sys_poll irq timeout q of None \<Rightarrow> None | Some (t, ready, q1) \<Rightarrow> Some q1)"

text \<open>All interrupts that have arrived are reported.\<close>

definition acked :: "irqs \<Rightarrow> bool" where
  "acked q \<longleftrightarrow> bdbm_irq_ack q = bdbm_irq_count q"

lemma poll_acked: "acked q \<Longrightarrow> bdbm_poll q = (False, q)"
  by (simp add: bdbm_poll_def acked_def)

lemma poll_pending: "bdbm_irq_ack q < bdbm_irq_count q \<Longrightarrow> \<exists>q'. bdbm_poll q = (True, q') \<and> acked q'"
  by (simp add: bdbm_poll_def acked_def)

text \<open>Interrupts are reported unless the count wraps.\<close>

lemma interrupts_counted:
  "(interrupt_handler ^^ n) q = q\<lparr>bdbm_irq_count := bdbm_irq_count q + of_nat n\<rparr>"
  by (induction n) (simp_all add: interrupt_handler_def)

lemma poll_after_irq:
  assumes "acked q" "0 < n" "unat (bdbm_irq_count q) + n < 2 ^ 32"
  shows "\<exists>q'. bdbm_poll ((interrupt_handler ^^ n) q) = (True, q') \<and> acked q'"
proof (rule poll_pending)
  have "unat (bdbm_irq_count q + of_nat n) = unat (bdbm_irq_count q) + n"
    using assms(3) by (simp add: unat_word_ariths unat_of_nat_small)
  then show "bdbm_irq_ack ((interrupt_handler ^^ n) q) < bdbm_irq_count ((interrupt_handler ^^ n) q)"
    using assms(1,2) by (simp add: interrupts_counted acked_def word_less_nat_alt)
qed

lemma wait_at_once:
  assumes "bdbm_irq_ack q < bdbm_irq_count q"
  shows "\<exists>q'. waitInterrupt irq timeout q = Some q' \<and> acked q'"
  using poll_pending [OF assms] by (auto simp: waitInterrupt_def sys_poll_def poll_at_once)

text \<open>Without an interrupt a wait with no limit never ends.\<close>

lemma wait_for_ever:
  assumes "acked q" "timeout < 0" "\<And>t. irq t = 0"
  shows "waitInterrupt irq timeout q = None"
proof -
  have "sys_poll irq timeout q = None"
    unfolding sys_poll_def
    by (rule poll_stuck [where P = "\<lambda>(t, ready, q). \<not> ready \<and> acked q"])
      (auto simp: poll_acked assms Let_def)
  then show ?thesis by (simp add: waitInterrupt_def)
qed

text \<open>With an interrupt in time, or with a limit, it ends.\<close>

lemma wait_ends:
  assumes q: "acked q" "\<forall>t. unat (bdbm_irq_count q) + irq t < 2 ^ 32" and e: "0 \<le> timeout \<or> 0 < irq t0"
  shows "\<exists>q'. waitInterrupt irq timeout q = Some q' \<and> acked q'"
proof -
  define n where "n = (if 0 \<le> timeout then nat timeout else Suc t0)"
  let ?P = "\<lambda>(t, ready, q1). acked q1 \<and> (\<not> ready \<longrightarrow> q1 = q \<and> t \<le> n \<and> (\<forall>k < t. irq k = 0))"
  let ?b = "\<lambda>(t, ready, q :: irqs). \<not> ready \<and> (timeout < 0 \<or> int t < timeout)"
  let ?c = "\<lambda>(t, ready :: bool, q). let (r, q2) = bdbm_poll ((interrupt_handler ^^ irq t) q) in (t + 1, r, q2)"
  have "\<exists>s. while_option ?b ?c (0, False, q) = Some s \<and> ?P s \<and> \<not> ?b s"
  proof (rule poll_returns [where f = "\<lambda>(t, ready, q). if ready then 0 else Suc n - t"])
    show "?P (0, False, q)" using q by simp
  next
    fix s assume p: "?P s" and b: "?b s"
    obtain t ready q1 where s: "s = (t, ready, q1)" by (cases s)
    have t: "\<not> ready" "q1 = q" "t \<le> n" "\<forall>k < t. irq k = 0" using p b s by auto
    have lt: "t < n" if "irq t = 0"
    proof (cases "0 \<le> timeout")
      case True
      then show ?thesis using b s by (auto simp: n_def)
    next
      case False
      then have "0 < irq t0" using e by simp
      then have "\<not> t0 < t" "t0 \<noteq> t" using t(4) that by auto
      then show ?thesis using False by (simp add: n_def)
    qed
    show "?P (?c s) \<and> (case ?c s of (t, ready, q) \<Rightarrow> if ready then 0 else Suc n - t)
        < (case s of (t, ready, q) \<Rightarrow> if ready then 0 else Suc n - t)"
    proof (cases "irq t = 0")
      case True
      then show ?thesis using s t lt q(1) by (auto simp: poll_acked less_Suc_eq)
    next
      case False
      then obtain qi where "bdbm_poll ((interrupt_handler ^^ irq t) q) = (True, qi)" "acked qi"
        using poll_after_irq [OF q(1)] q(2) by blast
      then show ?thesis using s t by simp
    qed
  qed
  then show ?thesis
    using q(1) by (auto simp: waitInterrupt_def sys_poll_def poll_acked)
qed

lemma wait_returns_iff:
  assumes "bdbm_irq_ack q \<le> bdbm_irq_count q" "\<forall>t. unat (bdbm_irq_count q) + irq t < 2 ^ 32"
  shows "(\<exists>q'. waitInterrupt irq timeout q = Some q')
      \<longleftrightarrow> 0 \<le> timeout \<or> bdbm_irq_ack q < bdbm_irq_count q \<or> (\<exists>t. 0 < irq t)"
    "waitInterrupt irq timeout q = Some q' \<Longrightarrow> acked q'"
proof -
  consider "bdbm_irq_ack q < bdbm_irq_count q" | "acked q" "0 \<le> timeout \<or> (\<exists>t. 0 < irq t)"
    | "acked q" "timeout < 0" "\<forall>t. irq t = 0"
    using assms(1) by (fastforce simp: acked_def)
  then have "(\<exists>q'. waitInterrupt irq timeout q = Some q')
      = (0 \<le> timeout \<or> bdbm_irq_ack q < bdbm_irq_count q \<or> (\<exists>t. 0 < irq t))
    \<and> (\<forall>q'. waitInterrupt irq timeout q = Some q' \<longrightarrow> acked q')"
  proof cases
    case 1
    obtain qq where "waitInterrupt irq timeout q = Some qq" "acked qq"
      using wait_at_once [OF 1, of irq timeout] by blast
    then show ?thesis using 1 by simp
  next
    case 2
    obtain t0 where t0: "0 \<le> timeout \<or> 0 < irq t0" using 2(2) by blast
    obtain qq where "waitInterrupt irq timeout q = Some qq" "acked qq"
      using wait_ends [where irq = irq, OF 2(1) assms(2) t0] by blast
    then show ?thesis using 2(2) by auto
  next
    case 3
    have "waitInterrupt irq timeout q = None" using wait_for_ever [where irq = irq, OF 3(1,2)] 3(3) by blast
    then show ?thesis using 3 by (simp add: acked_def)
  qed
  then show "(\<exists>q'. waitInterrupt irq timeout q = Some q')
      \<longleftrightarrow> 0 \<le> timeout \<or> bdbm_irq_ack q < bdbm_irq_count q \<or> (\<exists>t. 0 < irq t)"
    "waitInterrupt irq timeout q = Some q' \<Longrightarrow> acked q'" by blast+
qed

end
