(* ===== verification/PollThreads.thy ===== *)
theory PollThreads
  imports WaitInterrupt "HOL-Library.Monad_Syntax"
begin

text \<open>
  The threads that wait for interrupts: \<open>bdbmPollThread\<close> and \<open>pciePollthread\<close> of
  \<^verbatim>\<open>cpp/bdbmpcie.cpp\<close>, the thread of the driver's test program and the one of the flash test.
  Each is an endless loop of a wait and some output. A run of such a thread is cut after \<open>n\<close>
  rounds; \<open>irq t\<close> is the number of interrupts at the time \<open>t\<close>, \<open>busy t\<close> the time that the output of
  a round begun at \<open>t\<close> takes, and what a round prints is given with its time. \<open>None\<close> is a run
  that does not finish its rounds. The driver of this repository does not request the
  interrupt; these are the threads on a driver whose handler is called.
\<close>

fun poll_thread ::
  "nat \<Rightarrow> (nat \<Rightarrow> 'm) \<Rightarrow> (nat \<Rightarrow> nat) \<Rightarrow> (nat \<Rightarrow> nat) \<Rightarrow> nat \<Rightarrow> irqs \<Rightarrow> ((nat \<times> 'm) list \<times> irqs) option" where
  "poll_thread 0 handler irq busy t q = Some ([], q)"
| "poll_thread (Suc n) handler irq busy t q = do {
     (k, ready, q) \<leftarrow> sys_poll (\<lambda>k. irq (t + k)) (- 1) q;
     let p = t + k;
     let q = (interrupt_handler ^^ sum irq {p ..< p + busy p}) q;
     (out, q) \<leftarrow> poll_thread n handler irq busy (p + busy p) q;
     Some ((p, handler p) # out, q)
   }"

definition interruptHandler :: string where
  "interruptHandler = ''Interrupted!''"

definition bdbmPollThread ::
  "nat \<Rightarrow> (nat \<Rightarrow> nat) \<Rightarrow> (nat \<Rightarrow> nat) \<Rightarrow> irqs \<Rightarrow> ((nat \<times> string) list \<times> irqs) option" where
  "bdbmPollThread n irq busy q = poll_thread n (\<lambda>_. interruptHandler) irq busy 0 q"

definition pciePollthread ::
  "nat \<Rightarrow> (nat \<Rightarrow> nat) \<Rightarrow> (nat \<Rightarrow> nat) \<Rightarrow> irqs \<Rightarrow> ((nat \<times> string) list \<times> irqs) option" where
  "pciePollthread n irq busy q = poll_thread n (\<lambda>_. interruptHandler) irq busy 0 q"

text \<open>
  The first loop of \<open>flashManagerThread\<close> prints 32 words of the DMA buffer, which holds
  \<open>buf t\<close> at the time \<open>t\<close>; the loop behind it is never reached.
\<close>

definition flashManagerThread ::
  "nat \<Rightarrow> (nat \<Rightarrow> nat \<Rightarrow> 'w) \<Rightarrow> (nat \<Rightarrow> nat) \<Rightarrow> (nat \<Rightarrow> nat) \<Rightarrow> irqs \<Rightarrow> ((nat \<times> 'w list) list \<times> irqs) option" where
  "flashManagerThread n buf irq busy q = poll_thread n (\<lambda>t. map (buf t) [0 ..< 32]) irq busy 0 q"

text \<open>\<open>pollthread\<close> of the test program prints before and after the wait.\<close>

definition pollthread ::
  "nat \<Rightarrow> (nat \<Rightarrow> nat) \<Rightarrow> (nat \<Rightarrow> nat) \<Rightarrow> irqs \<Rightarrow> ((nat \<times> string list) list \<times> irqs) option" where
  "pollthread n irq busy q = poll_thread n (\<lambda>_. [''Waiting for poll'', ''Poll returned!'']) irq busy 0 q"

subsection \<open>When a thread prints\<close>

text \<open>
  The thread has acknowledged what came before \<open>a\<close> and looks again at \<open>s\<close>. It prints as soon as
  it looks and an interrupt has come since \<open>a\<close>; what comes until then shares that print.
\<close>

definition first_irq :: "(nat \<Rightarrow> nat) \<Rightarrow> nat \<Rightarrow> nat \<Rightarrow> bool" where
  "first_irq irq a k \<longleftrightarrow> a \<le> k \<and> 0 < irq k \<and> (\<forall>j \<in> {a ..< k}. irq j = 0)"

fun reported :: "(nat \<Rightarrow> nat) \<Rightarrow> (nat \<Rightarrow> nat) \<Rightarrow> nat \<Rightarrow> nat \<Rightarrow> nat list \<Rightarrow> bool" where
  "reported irq busy a s [] \<longleftrightarrow> True"
| "reported irq busy a s (p # ps) \<longleftrightarrow>
     (\<exists>k. first_irq irq a k \<and> p = max s (Suc k)) \<and> reported irq busy p (p + busy p) ps"

lemma first_irq_unique: "first_irq irq a j \<Longrightarrow> first_irq irq a k \<Longrightarrow> j = k"
  unfolding first_irq_def by (metis atLeastLessThan_iff less_irrefl nat_neq_iff)

lemma first_irq_exists:
  assumes "a \<le> k" "0 < irq k"
  shows "\<exists>j \<le> k. first_irq irq a j"
proof -
  let ?j = "LEAST j. a \<le> j \<and> 0 < irq j"
  have "a \<le> ?j \<and> 0 < irq ?j" using assms by (intro LeastI [of "\<lambda>j. a \<le> j \<and> 0 < irq j" k]) simp
  moreover have "irq j = 0" if "a \<le> j" "j < ?j" for j
    using not_less_Least [OF that(2)] that(1) by simp
  moreover have "?j \<le> k" using assms by (intro Least_le) simp
  ultimately show ?thesis by (auto simp: first_irq_def)
qed

subsection \<open>One wait\<close>

text \<open>At the time \<open>s\<close> all interrupts are counted, and those before \<open>a\<close> are reported.\<close>

definition irqs_at :: "nat \<Rightarrow> (nat \<Rightarrow> nat) \<Rightarrow> nat \<Rightarrow> nat \<Rightarrow> irqs \<Rightarrow> bool" where
  "irqs_at c irq a s q \<longleftrightarrow> a \<le> s \<and> bdbm_irq_count q = of_nat (c + sum irq {..<s})
     \<and> bdbm_irq_ack q = of_nat (c + sum irq {..<a})"

lemma irqs_at_start: "acked q \<Longrightarrow> irqs_at (unat (bdbm_irq_count q)) irq 0 0 q"
  by (simp add: irqs_at_def acked_def)

lemma irqs_at_later:
  assumes "irqs_at c irq a s q"
  shows "irqs_at c irq a (s + n) ((interrupt_handler ^^ sum irq {s ..< s + n}) q)"
proof -
  have "sum irq {..<s + n} = sum irq {..<s} + sum irq {s ..< s + n}"
    using sum.atLeastLessThan_concat [of 0 s "s + n" irq] by (simp add: atLeast0LessThan)
  then show ?thesis using assms by (simp add: irqs_at_def interrupts_counted add_ac)
qed

lemma irqs_at_tick: "irqs_at c irq a s q \<Longrightarrow> irqs_at c irq a (Suc s) ((interrupt_handler ^^ irq s) q)"
  using irqs_at_later [of c irq a s q 1] by simp

lemma poll_irqs_at:
  assumes "irqs_at c irq a s q" "\<forall>t. c + sum irq {..<t} < 2 ^ 32"
  shows "\<exists>q'. bdbm_poll q = (sum irq {..<a} < sum irq {..<s}, q') \<and>
    (if sum irq {..<a} < sum irq {..<s} then irqs_at c irq s s q' else q' = q)"
proof -
  have u: "unat (of_nat (c + sum irq {..<t}) :: u32) = c + sum irq {..<t}" for t
    by (rule unat_of_nat_small) (use assms(2) in simp)
  have "bdbm_irq_ack q < bdbm_irq_count q \<longleftrightarrow> sum irq {..<a} < sum irq {..<s}"
    using assms(1) unfolding irqs_at_def word_less_nat_alt by (simp only: u) simp
  then show ?thesis using assms(1) by (auto simp: bdbm_poll_def irqs_at_def)
qed

lemma sum_pending:
  assumes "first_irq irq a k" "a \<le> s"
  shows "sum irq {..<a} < sum irq {..<s} \<longleftrightarrow> k < s"
proof -
  have split: "sum irq {..<s} = sum irq {..<a} + sum irq {a ..< s}"
    using sum.atLeastLessThan_concat [of 0 a s irq] assms(2) by (simp add: atLeast0LessThan)
  have "0 < sum irq {a ..< s} \<longleftrightarrow> k < s"
  proof
    assume "k < s"
    then show "0 < sum irq {a ..< s}"
      using assms(1) by (intro sum_pos2 [of _ k]) (auto simp: first_irq_def)
  next
    assume "0 < sum irq {a ..< s}"
    then obtain j where "j \<in> {a ..< s}" "irq j \<noteq> 0" by (metis less_irrefl sum.neutral)
    then have "\<not> j < k" "j < s" using assms(1) by (auto simp: first_irq_def)
    then show "k < s" by simp
  qed
  then show ?thesis using split by simp
qed

lemma sum_quiet: "\<forall>k \<ge> a :: nat. irq k = 0 \<Longrightarrow> a \<le> s \<Longrightarrow> \<not> sum irq {..<a} < (sum irq {..<s} :: nat)"
  using sum.atLeastLessThan_concat [of 0 a s irq] by (simp add: atLeast0LessThan)

lemma sys_poll_ready:
  assumes "irqs_at c irq a s q" "\<forall>t. c + sum irq {..<t} < 2 ^ 32" "first_irq irq a k0"
  shows "\<exists>q'. sys_poll (\<lambda>k. irq (s + k)) (- 1) q = Some (max s (Suc k0) - s, True, q')
    \<and> irqs_at c irq (max s (Suc k0)) (max s (Suc k0)) q'"
proof -
  let ?b = "\<lambda>(t :: nat, ready, q :: irqs). \<not> ready \<and> ((- 1 :: int) < 0 \<or> int t < - 1)"
  let ?c = "\<lambda>(t, ready :: bool, q). let (r, q2) = bdbm_poll ((interrupt_handler ^^ irq (s + t)) q) in (t + 1, r, q2)"
  have a: "a \<le> s" using assms(1) by (simp add: irqs_at_def)
  show ?thesis
  proof (cases "k0 < s")
    case True
    then obtain q' where "bdbm_poll q = (True, q')" "irqs_at c irq s s q'"
      using poll_irqs_at [OF assms(1,2)] sum_pending [OF assms(3) a] by auto
    moreover have "max s (Suc k0) = s" using True by simp
    ultimately show ?thesis by (simp add: sys_poll_def poll_at_once)
  next
    case False
    have wait: "s + t \<le> k0 \<Longrightarrow> irqs_at c irq a (s + t) q \<Longrightarrow>
      \<exists>q'. while_option ?b ?c (t, False, q) = Some (Suc k0 - s, True, q') \<and> irqs_at c irq (Suc k0) (Suc k0) q'" for t q
    proof (induction "k0 - (s + t)" arbitrary: t q)
      case 0
      then have e: "s + t = k0" by simp
      obtain q' where q': "bdbm_poll ((interrupt_handler ^^ irq (s + t)) q) = (True, q')" "irqs_at c irq (Suc k0) (Suc k0) q'"
        using poll_irqs_at [OF irqs_at_tick [OF 0(3)] assms(2)] sum_pending [OF assms(3), of "Suc (s + t)"] a e by auto
      then have "while_option ?b ?c (t, False, q) = Some (t + 1, True, q')"
        by (subst while_option_unfold, simp, subst while_option_unfold, simp)
      then show ?case using q'(2) e by (intro exI [of _ q']) auto
    next
      case (Suc n)
      have "s + t < k0" using Suc(2) by linarith
      then have "\<not> sum irq {..<a} < sum irq {..<Suc (s + t)}"
        using sum_pending [OF assms(3), of "Suc (s + t)"] a by simp
      then have p: "bdbm_poll ((interrupt_handler ^^ irq (s + t)) q) = (False, (interrupt_handler ^^ irq (s + t)) q)"
        using poll_irqs_at [OF irqs_at_tick [OF Suc(4)] assms(2)] by auto
      have "\<exists>q'. while_option ?b ?c (t + 1, False, (interrupt_handler ^^ irq (s + t)) q) = Some (Suc k0 - s, True, q')
          \<and> irqs_at c irq (Suc k0) (Suc k0) q'"
        using Suc(2) \<open>s + t < k0\<close> irqs_at_tick [OF Suc(4)] by (intro Suc(1)) simp_all
      then show ?case by (subst while_option_unfold) (simp add: p)
    qed
    have "bdbm_poll q = (False, q)"
      using poll_irqs_at [OF assms(1,2)] sum_pending [OF assms(3) a] False by auto
    then show ?thesis using wait [of 0 q] False assms(1) by (simp add: sys_poll_def max_def)
  qed
qed

lemma sys_poll_never:
  assumes "irqs_at c irq a s q" "\<forall>t. c + sum irq {..<t} < 2 ^ 32" "\<forall>k \<ge> a. irq k = 0"
  shows "sys_poll (\<lambda>k. irq (s + k)) (- 1) q = None"
proof -
  have a: "a \<le> s" using assms(1) by (simp add: irqs_at_def)
  have quiet: "bdbm_poll q = (False, q)"
    using poll_irqs_at [OF assms(1,2)] sum_quiet [OF assms(3) a] by auto
  have "irq (s + k) = 0" for k using assms(3) a by simp
  then show ?thesis
    unfolding sys_poll_def
    by (intro poll_stuck [where P = "\<lambda>(t, ready, q'). \<not> ready \<and> q' = q"]) (auto simp: quiet)
qed

subsection \<open>The threads\<close>

lemma poll_thread_step:
  assumes "sys_poll (\<lambda>k. irq (t + k)) (- 1) q = Some (k, ready, q1)"
  shows "poll_thread (Suc n) h irq busy t q = map_option (\<lambda>(out, q). ((t + k, h (t + k)) # out, q))
    (poll_thread n h irq busy (t + k + busy (t + k)) ((interrupt_handler ^^ sum irq {t + k ..< t + k + busy (t + k)}) q1))"
  by (auto simp: assms Let_def split: Option.bind_split option.splits)

lemma poll_thread_reports:
  assumes "irqs_at c irq a s q" "\<forall>t. c + sum irq {..<t} < 2 ^ 32"
  shows "(\<exists>q'. poll_thread n h irq busy s q = Some (out, q')) \<longleftrightarrow>
    length out = n \<and> reported irq busy a s (map fst out) \<and> (\<forall>r \<in> set out. snd r = h (fst r))"
  using assms(1)
proof (induction n arbitrary: a s q out)
  case 0
  then show ?case by auto
next
  case (Suc n)
  show ?case
  proof (cases "\<exists>k \<ge> a. 0 < irq k")
    case True
    then obtain k0 where k0: "first_irq irq a k0" using first_irq_exists by blast
    let ?p = "max s (Suc k0)"
    obtain q1 where q1: "sys_poll (\<lambda>k. irq (s + k)) (- 1) q = Some (?p - s, True, q1)" "irqs_at c irq ?p ?p q1"
      using sys_poll_ready [OF Suc.prems assms(2) k0] by blast
    have p: "s + (?p - s) = ?p" by simp
    note step = poll_thread_step [where n = n and h = h and busy = busy, OF q1(1), unfolded p]
    note IH = Suc.IH [OF irqs_at_later [OF q1(2), of "busy ?p"]]
    show ?thesis
    proof (cases out)
      case Nil
      then show ?thesis using step by auto
    next
      case (Cons r rs)
      have "(\<exists>k. first_irq irq a k \<and> fst r = max s (Suc k)) \<longleftrightarrow> fst r = ?p"
        using k0 first_irq_unique by blast
      moreover have "(\<exists>q'. poll_thread (Suc n) h irq busy s q = Some (r # rs, q')) \<longleftrightarrow>
          r = (?p, h ?p) \<and> (\<exists>q'. poll_thread n h irq busy (?p + busy ?p)
            ((interrupt_handler ^^ sum irq {?p ..< ?p + busy ?p}) q1) = Some (rs, q'))"
        unfolding step by (auto split: prod.splits)
      ultimately show ?thesis using Cons IH [of rs] by (cases r) auto
    qed
  next
    case False
    then have z: "\<forall>k \<ge> a. irq k = 0" by simp
    then have "\<not> first_irq irq a k" for k by (simp add: first_irq_def)
    then show ?thesis using sys_poll_never [OF Suc.prems assms(2) z] by (cases out) auto
  qed
qed

text \<open>Every interrupt is followed by a print.\<close>

lemma interrupt_reported:
  assumes "a \<le> k" "0 < irq k"
  shows "\<exists>ps. reported irq busy a s ps \<and> (\<exists>p \<in> set ps. k < p)"
  using assms(1)
proof (induction "k - a" arbitrary: a s rule: less_induct)
  case less
  obtain k0 where k0: "k0 \<le> k" "first_irq irq a k0" using first_irq_exists [where irq = irq, OF less.prems assms(2)] by blast
  let ?p = "max s (Suc k0)"
  show ?case
  proof (cases "k < ?p")
    case True
    then show ?thesis using k0(2) by (intro exI [of _ "[?p]"]) auto
  next
    case False
    then have "?p \<le> k" "k - ?p < k - a" using k0(2) by (auto simp: first_irq_def)
    then obtain ps where "reported irq busy ?p (?p + busy ?p) ps" "\<exists>p \<in> set ps. k < p" using less.hyps by blast
    then show ?thesis using k0(2) by (intro exI [of _ "?p # ps"]) auto
  qed
qed

lemma poll_thread_reports_all:
  assumes "irqs_at c irq a s q" "\<forall>t. c + sum irq {..<t} < 2 ^ 32" "a \<le> k" "0 < irq k"
  shows "\<exists>n out q'. poll_thread n h irq busy s q = Some (out, q') \<and> (\<exists>r \<in> set out. k < fst r)"
proof -
  obtain ps where ps: "reported irq busy a s ps" "\<exists>p \<in> set ps. k < p"
    using interrupt_reported [where irq = irq, OF assms(3,4)] by blast
  let ?out = "map (\<lambda>p. (p, h p)) ps"
  have "map fst ?out = ps" by (induction ps) simp_all
  then have "\<exists>q'. poll_thread (length ps) h irq busy s q = Some (?out, q')"
    using ps(1) by (simp add: poll_thread_reports [OF assms(1,2)] del: map_map)
  then show ?thesis using ps(2) by fastforce
qed

end
