(* ===== verification/HostProgram.thy ===== *)
theory HostProgram
  imports PioPort "HOL-Library.Monad_Syntax"
begin

text \<open>
  Programs over the host library, for the example programs: a step takes the state of the
  port and returns a value with the new state, or does not return (\<open>None\<close>). \<open>yields m Q\<close> says
  that \<open>m\<close> returns and that \<open>Q\<close> holds of what it returns; the rules of \<open>read_port\<close> and \<open>config_port\<close> below
  take a program apart call by call.
\<close>

definition yields :: "'a option \<Rightarrow> ('a \<Rightarrow> bool) \<Rightarrow> bool" where
  "yields m Q \<longleftrightarrow> (case m of None \<Rightarrow> False | Some r \<Rightarrow> Q r)"

lemma yields_Some [simp]: "yields (Some r) Q = Q r"
  by (simp add: yields_def)

lemma yields_bind [simp]: "yields (Option.bind m f) Q = yields m (\<lambda>r. yields (f r) Q)"
  by (cases m) (simp_all add: yields_def)

lemma yieldsI: "m = Some r \<Longrightarrow> Q r \<Longrightarrow> yields m Q"
  by simp

lemma yieldsE: "yields m Q \<Longrightarrow> \<exists>r. m = Some r \<and> Q r"
  by (cases m) (simp_all add: yields_def)

lemma yields_mono: "yields m P \<Longrightarrow> (\<And>r. P r \<Longrightarrow> Q r) \<Longrightarrow> yields m Q"
  by (cases m) (simp_all add: yields_def)

text \<open>
  A loop that keeps the invariant \<open>P\<close> returns if the measure \<open>m\<close> falls whenever it goes
  round once more. The state of the loop is an option because a call in its body may not return.
\<close>

lemma yields_while:
  assumes "P r"
    and step: "\<And>r. P r \<Longrightarrow> b r \<Longrightarrow> yields (f r) (\<lambda>r'. P r' \<and> (b r' \<longrightarrow> m r' < (m r :: nat)))"
    and exit: "\<And>r. P r \<Longrightarrow> \<not> b r \<Longrightarrow> Q r"
  shows "yields (case while_option (\<lambda>r. case r of None \<Rightarrow> False | Some x \<Rightarrow> b x) (\<lambda>r. Option.bind r f) (Some r) of
      None \<Rightarrow> None | Some r \<Rightarrow> r) Q"
proof -
  let ?P = "\<lambda>r. \<exists>x. r = Some x \<and> P x" and ?b = "\<lambda>r. case r of None \<Rightarrow> False | Some x \<Rightarrow> b x"
  let ?m = "\<lambda>r. case r of None \<Rightarrow> 0 | Some x \<Rightarrow> if b x then Suc (m x) else 0"
  have "\<exists>t. while_option ?b (\<lambda>r. Option.bind r f) (Some r) = Some t \<and> ?P t \<and> \<not> ?b t"
  proof (rule poll_returns [where f = ?m])
    show "?P (Some r)" using assms(1) by simp
  next
    fix s assume "?P s" "?b s"
    then obtain x where x: "s = Some x" "P x" "b x" by auto
    from yieldsE [OF step [OF x(2,3)]] obtain y where "f x = Some y" "P y" "b y \<longrightarrow> m y < m x" by blast
    then show "?P (Option.bind s f) \<and> ?m (Option.bind s f) < ?m s" using x by simp
  qed
  then show ?thesis using exit by auto
qed

text \<open>Loops over a list: \<open>each\<close> keeps the state only, \<open>gather\<close> the results too.\<close>

primrec each :: "('a \<Rightarrow> 's \<Rightarrow> 's option) \<Rightarrow> 'a list \<Rightarrow> 's \<Rightarrow> 's option" where
  "each f [] s = Some s"
| "each f (x # xs) s = do { s \<leftarrow> f x s; each f xs s }"

primrec gather :: "('a \<Rightarrow> 's \<Rightarrow> ('b \<times> 's) option) \<Rightarrow> 'a list \<Rightarrow> 's \<Rightarrow> ('b list \<times> 's) option" where
  "gather f [] s = Some ([], s)"
| "gather f (x # xs) s = do { (y, s) \<leftarrow> f x s; (ys, s) \<leftarrow> gather f xs s; Some (y # ys, s) }"

context read_port
begin

lemma yields_read:
  assumes "room n s" "user_word a"
    and "\<And>x s'. room n s' \<Longrightarrow> view s' = view s \<Longrightarrow> may (view s) (ucast a) x \<Longrightarrow> Q (x, s')"
  shows "yields (ur a s) Q"
  using read_returns [OF assms(1,2)] assms(3) by auto

lemma yields_config:
  assumes "room (Suc n) s" "a < CONFIG_BUFFER_SIZE"
    and "\<And>x s'. room n s' \<Longrightarrow> view s' = view s \<Longrightarrow> (drop_bit 2 a = 0 \<Longrightarrow> x = 0xc001d00d) \<Longrightarrow> Q (x, s')"
  shows "yields (rw a s) Q"
  using config_returns [OF assms(1,2)] assms(3) by auto

end

context config_port
begin

lemma yields_write:
  assumes "room n s" "user_word a"
    and "\<And>s'. room n s' \<Longrightarrow> view s' = put (ucast a, d) (view s) \<Longrightarrow> Q s'"
  shows "yields (uw a d s) Q"
  using room_write [OF assms(1,2), of d] assms(3) by auto

text \<open>A loop whose body makes the writes \<open>ws x\<close> makes them one after another.\<close>

lemma yields_each:
  assumes "room n s"
    and "\<And>x s Q. x \<in> set xs \<Longrightarrow> room n s \<Longrightarrow>
      (\<And>s'. room n s' \<Longrightarrow> view s' = fold put (ws x) (view s) \<Longrightarrow> Q s') \<Longrightarrow> yields (f x s) Q"
    and "\<And>s'. room n s' \<Longrightarrow> view s' = fold put (concat (map ws xs)) (view s) \<Longrightarrow> Q s'"
  shows "yields (each f xs s) Q"
  using assms
proof (induction xs arbitrary: s)
  case Nil
  then show ?case by simp
next
  case (Cons x xs)
  show ?case
    unfolding each.simps yields_bind
  proof (rule Cons.prems(2) [OF _ Cons.prems(1)])
    show "x \<in> set (x # xs)" by simp
    fix s1 assume s1: "room n s1" "view s1 = fold put (ws x) (view s)"
    show "yields (each f xs s1) Q"
    proof (rule Cons.IH [OF s1(1)])
      fix y s P assume "y \<in> set xs" "room n s"
        "\<And>s'. room n s' \<Longrightarrow> view s' = fold put (ws y) (view s) \<Longrightarrow> P s'"
      then show "yields (f y s) P" by (intro Cons.prems(2)) auto
    next
      fix s' assume "room n s'" "view s' = fold put (concat (map ws xs)) (view s1)"
      then show "Q s'" using s1(2) by (intro Cons.prems(3)) simp_all
    qed
  qed
qed

text \<open>A list of writes.\<close>

lemma yields_writes:
  assumes "room n s" "list_all (user_word \<circ> fst) ws"
    and "\<And>s'. room n s' \<Longrightarrow> view s' = fold put (map (\<lambda>(a, d). (ucast a, d)) ws) (view s) \<Longrightarrow> Q s'"
  shows "yields (each (\<lambda>(a, d). uw a d) ws s) Q"
proof (rule yields_each [OF assms(1), where ws = "\<lambda>(a, d). [(ucast a, d)]"])
  fix x s P
  assume "x \<in> set ws" and r: "room n s"
    and p: "\<And>s'. room n s' \<Longrightarrow> view s' = fold put (case x of (a, d) \<Rightarrow> [(ucast a, d)]) (view s) \<Longrightarrow> P s'"
  then have u: "user_word (fst x)" using assms(2) by (auto simp: list_all_iff)
  obtain a d where x: "x = (a, d)" by (cases x)
  have "yields (uw a d s) P" using u x p by (intro yields_write [OF r]) auto
  then show "yields ((case x of (a, d) \<Rightarrow> uw a d) s) P" by (simp add: x)
next
  fix s' assume r: "room n s'"
    and v: "view s' = fold put (concat (map (\<lambda>(a, d). [(ucast a, d)]) ws)) (view s)"
  have "concat (map (\<lambda>(a, d). [(ucast a :: ioaddr, d)]) ws) = map (\<lambda>(a, d). (ucast a, d)) ws"
    by (induction ws) auto
  then show "Q s'" using r v by (intro assms(3)) simp_all
qed

text \<open>A list of reads: the view stays.\<close>

lemma yields_reads:
  assumes "room n s" "list_all user_word as"
    and "\<And>xs s'. room n s' \<Longrightarrow> view s' = view s \<Longrightarrow>
      list_all2 (\<lambda>a x. may (view s) (ucast a) x) as xs \<Longrightarrow> Q (xs, s')"
  shows "yields (gather ur as s) Q"
  using assms
proof (induction as arbitrary: s Q)
  case Nil
  then show ?case by simp
next
  case (Cons a as)
  have u: "user_word a" "list_all user_word as" using Cons.prems(2) by simp_all
  show ?case
    unfolding gather.simps yields_bind
  proof (rule yields_read [OF Cons.prems(1) u(1)])
    fix x s1 assume s1: "room n s1" "view s1 = view s" "may (view s) (ucast a) x"
    have "yields (gather ur as s1) (\<lambda>r. Q (x # fst r, snd r))"
      using s1 Cons.prems(3) by (intro Cons.IH [OF s1(1) u(2)]) simp
    then show "yields (case (x, s1) of (y, s) \<Rightarrow> do { (ys, s) \<leftarrow> gather ur as s; Some (y # ys, s) }) Q"
      by (simp add: case_prod_unfold)
  qed
qed

text \<open>The same for a loop that keeps results.\<close>

lemma yields_gather:
  assumes "room n s"
    and "\<And>x s (Q :: 'b \<times> 's \<Rightarrow> bool). x \<in> set xs \<Longrightarrow> room n s \<Longrightarrow>
      (\<And>y s'. room n s' \<Longrightarrow> view s' = fold put (ws x) (view s) \<Longrightarrow> Q (y, s')) \<Longrightarrow> yields (f x s) Q"
    and "\<And>ys s'. room n s' \<Longrightarrow> view s' = fold put (concat (map ws xs)) (view s) \<Longrightarrow> Q (ys, s')"
  shows "yields (gather (f :: 'a \<Rightarrow> 's \<Rightarrow> ('b \<times> 's) option) xs s) Q"
  using assms
proof (induction xs arbitrary: s Q)
  case Nil
  then show ?case by simp
next
  case (Cons x xs)
  show ?case
    unfolding gather.simps yields_bind
  proof (rule Cons.prems(2) [OF _ Cons.prems(1)])
    show "x \<in> set (x # xs)" by simp
    fix y s1 assume s1: "room n s1" "view s1 = fold put (ws x) (view s)"
    have "yields (gather f xs s1) (\<lambda>r. Q (y # fst r, snd r))"
    proof (rule Cons.IH [OF s1(1)])
      fix z s and P :: "'b \<times> 's \<Rightarrow> bool" assume "z \<in> set xs" "room n s"
        "\<And>y s'. room n s' \<Longrightarrow> view s' = fold put (ws z) (view s) \<Longrightarrow> P (y, s')"
      then show "yields (f z s) P" by (intro Cons.prems(2)) auto
    next
      fix ys s' assume "room n s'" "view s' = fold put (concat (map ws xs)) (view s1)"
      then show "Q (y # fst (ys, s'), snd (ys, s'))"
        using Cons.prems(3) [of s' "y # ys"] s1(2) by simp
    qed
    then show "yields (case (y, s1) of (y, s) \<Rightarrow> do { (ys, s) \<leftarrow> gather f xs s; Some (y # ys, s) }) Q"
      by (simp add: case_prod_unfold)
  qed
qed

end

end
