(* ===== verification/FixedPoint.thy ===== *)
theory FixedPoint
  imports Complex_Main Prelude
begin

text \<open>
  The fixed-point conversions of \<^verbatim>\<open>examples/float/cpp/main.cpp\<close> (the same text stands in
  \<^verbatim>\<open>examples/queuealu/cpp/main.cpp\<close>). A finite \<^verbatim>\<open>float\<close> is its value, a rational. No operation
  here rounds: integers below \<open>2 ^ 24\<close> and powers of two are exact, a float of \<open>2 ^ 24\<close> or more is
  an integer, and the fraction of a float has no more significant bits than the float.
\<close>

text \<open>
  The conversion of a float to \<^verbatim>\<open>uint32_t\<close> drops the fraction; it is undefined (\<open>None\<close>) when the
  result does not fit.
\<close>

definition rat_trunc :: "rat \<Rightarrow> int" where
  "rat_trunc r = (if r < 0 then \<lceil>r\<rceil> else \<lfloor>r\<rfloor>)"

definition float_to_u32 :: "rat \<Rightarrow> u32 option" where
  "float_to_u32 r =
     (let z = rat_trunc r in if 0 \<le> z \<and> z < 2 ^ 32 then Some (word_of_int z) else None)"

definition fixed_to_float_2i :: "u32 \<Rightarrow> rat" where
  "fixed_to_float_2i x =
     (let fixed = x AND (push_bit 16 1 - 1)
      in if drop_bit 15 fixed \<noteq> 0
         then (let fixedneg = (NOT fixed + 1) AND (push_bit 16 1 - 1)
               in - of_nat (unat fixedneg) / 2 ^ 14)
         else of_nat (unat fixed) / 2 ^ 14)"

definition float_to_fixed_3i :: "rat \<Rightarrow> u32 option" where
  "float_to_fixed_3i radian =
     (case float_to_u32 radian of None \<Rightarrow> None
      | Some integer_portion \<Rightarrow>
          (case float_to_u32 ((radian - of_int (uint integer_portion)) * 2 ^ 13) of None \<Rightarrow> None
           | Some frac_portion \<Rightarrow> Some (push_bit 13 integer_portion OR frac_portion)))"

subsection \<open>From fixed point\<close>

lemma uint_low_16: "uint (x AND 65535 :: u32) = uint x mod 65536"
proof -
  have "x AND 65535 = take_bit 16 x" by (simp add: take_bit_eq_mask mask_numeral)
  moreover have "uint (take_bit 16 x) = take_bit 16 (uint x)" by (rule unsigned_take_bit_eq)
  ultimately show ?thesis by (simp add: take_bit_eq_mod)
qed

lemma uint_neg_16: "uint ((NOT x + 1) AND 65535) = - uint (x :: u32) mod 65536"
proof -
  have "uint (- x) mod 65536 = - uint x mod 65536"
    by (simp add: uint_word_ariths take_bit_eq_mod mod_mod_cancel)
  moreover have "NOT x + 1 = - x" by (simp add: minus_eq_not_plus_1)
  ultimately show ?thesis by (simp only: uint_low_16)
qed

text \<open>The value of a 16-bit word in two's complement.\<close>

lemma sint_u16: "sint (w :: u16) = (if uint w < 2 ^ 15 then uint w else uint w - 2 ^ 16)"
proof -
  have w: "0 \<le> uint w" "uint w < 2 ^ 16" using uint_lt2p [of w] by simp_all
  have "uint w div 2 ^ 15 = (if 2 ^ 15 \<le> uint w then 1 else 0)"
    using w int_div_pos_eq [of "uint w" "2 ^ 15" 1 "uint w - 2 ^ 15"] by (simp add: div_pos_pos_trivial)
  then have "bit (uint w) 15 \<longleftrightarrow> 2 ^ 15 \<le> uint w" by (simp add: bit_iff_odd)
  then show ?thesis
    using w by (simp add: sint_uint signed_take_bit_eq_take_bit_minus take_bit_int_eq_self)
qed

lemma fixed_to_float_2i_sint: "fixed_to_float_2i x = of_int (sint (ucast x :: u16)) / 2 ^ 14"
proof -
  define u where "u = uint x mod 2 ^ 16"
  let ?f = "x AND (push_bit 16 1 - 1)"
  have u: "0 \<le> u" "u < 2 ^ 16" by (simp_all add: u_def)
  have f: "uint ?f = u" by (simp add: uint_low_16 u_def)
  have w: "uint (ucast x :: u16) = u" by (simp add: u_def unsigned_ucast_eq take_bit_eq_mod)
  have "unat (drop_bit 15 ?f) = unat ?f div 2 ^ 15" by (rule unat_drop_bit)
  then have "drop_bit 15 ?f \<noteq> 0 \<longleftrightarrow> unat ?f div 2 ^ 15 \<noteq> 0" by (metis unat_eq_0)
  also have "\<dots> \<longleftrightarrow> 2 ^ 15 \<le> unat ?f" by (simp add: div_eq_0_iff not_less)
  also have "\<dots> \<longleftrightarrow> 2 ^ 15 \<le> u" using f u by (simp add: unat_eq_nat_uint le_nat_iff)
  finally have neg: "drop_bit 15 ?f \<noteq> 0 \<longleftrightarrow> 2 ^ 15 \<le> u" .
  have n: "uint ((NOT ?f + 1) AND (push_bit 16 1 - 1)) = - u mod 2 ^ 16"
  proof -
    have m: "push_bit 16 1 - 1 = (65535 :: u32)" "(2 :: int) ^ 16 = 65536" by simp_all
    show ?thesis using uint_neg_16 [of "x AND 65535"] f unfolding m by (simp only:)
  qed
  have rat: "(of_nat (unat y) :: rat) = of_int (uint y)" for y :: u32
    by (metis of_int_of_nat_eq uint_nat)
  note fr = rat [of ?f, unfolded f] and nr = rat [of "(NOT ?f + 1) AND (push_bit 16 1 - 1)", unfolded n]
  show ?thesis
  proof (cases "2 ^ 15 \<le> u")
    case True
    then have "- u mod 2 ^ 16 = 2 ^ 16 - u" using u by (simp add: zmod_zminus1_eq_if)
    then show ?thesis
      using True neg nr u by (simp add: fixed_to_float_2i_def Let_def sint_u16 w) (simp add: field_simps)
  next
    case False
    then show ?thesis
      using neg fr u by (simp add: fixed_to_float_2i_def Let_def sint_u16 w)
  qed
qed

subsection \<open>To fixed point\<close>

text \<open>Integer and fraction, put side by side.\<close>

lemma push_or_add:
  fixes a b :: u32
  assumes "uint b < 2 ^ 13"
  shows "push_bit 13 a OR b = word_of_int (uint a * 2 ^ 13 + uint b)"
proof -
  have "take_bit 13 b = b"
    using assms by (simp add: word_uint_eq_iff unsigned_take_bit_eq take_bit_int_eq_self_iff)
  then have "\<not> bit b n" if "13 \<le> n" for n
    using that by (metis bit_take_bit_iff not_le)
  then have "push_bit 13 a + b = push_bit 13 a OR b"
    by (intro disjunctive_add) (auto simp: bit_push_bit_iff not_le)
  then show ?thesis by (simp add: push_bit_eq_mult)
qed

lemma floor_split: "\<lfloor>(r :: rat) * 2 ^ 13\<rfloor> = \<lfloor>r\<rfloor> * 2 ^ 13 + \<lfloor>(r - of_int \<lfloor>r\<rfloor>) * 2 ^ 13\<rfloor>"
proof -
  have "r * 2 ^ 13 = of_int (\<lfloor>r\<rfloor> * 2 ^ 13) + (r - of_int \<lfloor>r\<rfloor>) * 2 ^ 13"
    by (simp add: algebra_simps)
  then show ?thesis by (metis int_add_floor)
qed

lemma float_to_fixed_3i_floor:
  assumes "0 \<le> r" "r < 2 ^ 32"
  shows "float_to_fixed_3i r = Some (word_of_int \<lfloor>r * 2 ^ 13\<rfloor>)"
proof -
  define f where "f = (r - of_int \<lfloor>r\<rfloor>) * 2 ^ 13"
  have ip: "0 \<le> \<lfloor>r\<rfloor>" "\<lfloor>r\<rfloor> < 2 ^ 32" using assms by (simp_all add: floor_less_iff)
  have f: "0 \<le> f" "f < 2 ^ 13" using floor_correct [of r] by (simp_all add: f_def)
  then have ff: "0 \<le> \<lfloor>f\<rfloor>" "\<lfloor>f\<rfloor> < 2 ^ 13" by (simp_all add: floor_less_iff)
  have i: "uint (word_of_int \<lfloor>r\<rfloor> :: u32) = \<lfloor>r\<rfloor>" and u: "uint (word_of_int \<lfloor>f\<rfloor> :: u32) = \<lfloor>f\<rfloor>"
    using ip ff by (simp_all add: unsigned_of_int take_bit_int_eq_self)
  have "float_to_u32 r = Some (word_of_int \<lfloor>r\<rfloor>)"
    using assms ip by (simp add: float_to_u32_def rat_trunc_def)
  moreover have "float_to_u32 f = Some (word_of_int \<lfloor>f\<rfloor>)"
    using f ff by (simp add: float_to_u32_def rat_trunc_def)
  ultimately have "float_to_fixed_3i r = Some (push_bit 13 (word_of_int \<lfloor>r\<rfloor>) OR word_of_int \<lfloor>f\<rfloor>)"
    using i by (simp add: float_to_fixed_3i_def f_def)
  also have "push_bit 13 (word_of_int \<lfloor>r\<rfloor>) OR word_of_int \<lfloor>f\<rfloor> = (word_of_int (\<lfloor>r\<rfloor> * 2 ^ 13 + \<lfloor>f\<rfloor>) :: u32)"
    using push_or_add [of "word_of_int \<lfloor>f\<rfloor>" "word_of_int \<lfloor>r\<rfloor>"] i u ff by simp
  finally show ?thesis by (simp only: floor_split [of r] f_def)
qed

text \<open>
  Below 8, the three integer bits of the format, the result is within \<open>2 ^ -13\<close> of the angle and
  fits in 16 bits.
\<close>

lemma float_to_fixed_3i_fits:
  assumes "0 \<le> r" "r < 8"
  shows "\<exists>w. float_to_fixed_3i r = Some w \<and> unat w < 2 ^ 16
    \<and> of_nat (unat w) / 2 ^ 13 \<le> r \<and> r < (of_nat (unat w) + 1) / 2 ^ 13"
proof -
  let ?z = "\<lfloor>r * 2 ^ 13\<rfloor>" and ?w = "word_of_int \<lfloor>r * 2 ^ 13\<rfloor> :: u32"
  have z: "0 \<le> ?z" "?z < 2 ^ 16" using assms by (simp_all add: floor_less_iff)
  have u: "uint ?w = ?z" using z by (simp add: unsigned_of_int take_bit_int_eq_self)
  have n: "(of_nat (unat ?w) :: rat) = of_int ?z"
    using u by (metis of_int_of_nat_eq uint_nat)
  have "of_int ?z \<le> r * 2 ^ 13" "r * 2 ^ 13 < of_int ?z + 1" using floor_correct [of "r * 2 ^ 13"] by simp_all
  moreover have "unat ?w < 2 ^ 16" using z u by (simp add: unat_eq_nat_uint nat_less_iff)
  ultimately show ?thesis
    using float_to_fixed_3i_floor [of r] assms n by (simp add: field_simps)
qed

text \<open>Angles below zero: undefined from \<open>- 2 ^ -13\<close> on.\<close>

lemma float_to_fixed_3i_negative:
  assumes "r \<le> - (1 / 2 ^ 13)"
  shows "float_to_fixed_3i r = None"
proof (cases "r \<le> - 1")
  case True
  then have "\<lceil>r\<rceil> < 0" by (simp add: ceiling_less_iff)
  then show ?thesis using assms by (simp add: float_to_fixed_3i_def float_to_u32_def rat_trunc_def)
next
  case False
  have neg: "r < 0" by (rule le_less_trans [OF assms]) simp
  have "\<lceil>r\<rceil> = 0" using neg False by (simp add: ceiling_eq_iff)
  then have ip: "float_to_u32 r = Some 0" using neg by (simp add: float_to_u32_def rat_trunc_def)
  have "r * 2 ^ 13 \<le> - 1" using assms by simp
  then have "\<lceil>r * 2 ^ 13\<rceil> < 0" by (simp add: ceiling_less_iff)
  then have "float_to_u32 (r * 2 ^ 13) = None"
    using neg by (simp add: float_to_u32_def rat_trunc_def)
  then show ?thesis using ip by (simp add: float_to_fixed_3i_def)
qed

text \<open>Between \<open>- 2 ^ -13\<close> and 0 both parts are cut to 0.\<close>

lemma float_to_fixed_3i_small:
  assumes "- (1 / 2 ^ 13) < r" "r < 0"
  shows "float_to_fixed_3i r = Some 0"
proof -
  have "- 1 < r" by (rule less_trans [OF _ assms(1)]) simp
  then have "\<lceil>r\<rceil> = 0" using assms(2) by (simp add: ceiling_eq_iff)
  then have "float_to_u32 r = Some 0" using assms(2) by (simp add: float_to_u32_def rat_trunc_def)
  moreover have "- 1 < r * 2 ^ 13" "r * 2 ^ 13 < 0" using assms by simp_all
  then have "\<lceil>r * 2 ^ 13\<rceil> = 0" by (simp add: ceiling_eq_iff)
  then have "float_to_u32 (r * 2 ^ 13) = Some 0"
    using assms(2) by (simp add: float_to_u32_def rat_trunc_def)
  ultimately show ?thesis by (simp add: float_to_fixed_3i_def)
qed

text \<open>From \<open>2 ^ 32\<close> on the integer part does not fit.\<close>

lemma float_to_fixed_3i_large:
  assumes "2 ^ 32 \<le> r"
  shows "float_to_fixed_3i r = None"
proof -
  have "(2 :: int) ^ 32 \<le> \<lfloor>r\<rfloor>" using assms by (simp add: le_floor_iff)
  moreover have "\<not> r < 0" using assms by simp
  ultimately show ?thesis by (simp add: float_to_fixed_3i_def float_to_u32_def rat_trunc_def)
qed

text \<open>For evaluation: a value between two neighbours of the format.\<close>

lemma float_to_fixed_3i_between:
  assumes "of_nat n / 2 ^ 13 \<le> r" "r < (of_nat n + 1) / 2 ^ 13" "n < 2 ^ 32"
  shows "float_to_fixed_3i r = Some (of_nat n)"
proof -
  have fl: "\<lfloor>r * 2 ^ 13\<rfloor> = int n"
    using assms(1,2) by (intro floor_unique) (simp_all add: field_simps)
  have "0 \<le> r" by (rule order_trans [OF _ assms(1)]) simp
  moreover have "r < 2 ^ 32"
  proof -
    have "n + 1 \<le> 2 ^ 32" using assms(3) by simp
    then have "(of_nat (n + 1) :: rat) \<le> of_nat (2 ^ 32)" by (simp only: of_nat_le_iff)
    then have "(of_nat n + 1) / 2 ^ 13 \<le> (2 ^ 32 / 2 ^ 13 :: rat)" by (simp add: field_simps)
    then have "(of_nat n + 1) / 2 ^ 13 \<le> (2 ^ 32 :: rat)" by (rule order_trans) simp
    then show ?thesis using assms(2) by simp
  qed
  ultimately show ?thesis using float_to_fixed_3i_floor [of r, unfolded fl] by simp
qed

end
