(* ===== verification/Examples.thy ===== *)
theory Examples
  imports HostProgram FixedPoint
begin

text \<open>
  The programs of \<^verbatim>\<open>examples/*/cpp/main.cpp\<close>. Each takes the calls of the library it makes,
  \<open>rw\<close> for \<open>readWord\<close>, \<open>uw\<close> and \<open>ur\<close> for \<open>userWriteWord\<close> and \<open>userReadWord\<close>, and
  where it uses the DMA buffer \<open>upd\<close> to change it and \<open>buf\<close> to look at it. What it returns
  are the values it prints. Sleeps, the clock and the elapsed times are left out; the
  hardware is free to move on inside every call.
\<close>

subsection \<open>\<open>simple\<close>\<close>

definition simple_main ::
  "(u32 \<Rightarrow> 's \<Rightarrow> (u32 \<times> 's) option) \<Rightarrow> (u32 \<Rightarrow> u32 \<Rightarrow> 's \<Rightarrow> 's option) \<Rightarrow> (u32 \<Rightarrow> 's \<Rightarrow> (u32 \<times> 's) option)
    \<Rightarrow> (u32 \<Rightarrow> u64 \<Rightarrow> 's \<Rightarrow> 's) \<Rightarrow> 's \<Rightarrow> (u32 list \<times> 's) option" where
  "simple_main rw uw ur ioctl s = do {
     (d, s) \<leftarrow> rw 0 s;
     s \<leftarrow> uw 4 0xdeadbeef s;
     s \<leftarrow> uw 0 0xcafef00d s;
     s \<leftarrow> uw 12 0 s;
     s \<leftarrow> Some (ioctl 1 0 s);
     (rs, s) \<leftarrow> gather ur (map (\<lambda>i. of_nat i * 4) [0..<8]) s;
     s \<leftarrow> each (\<lambda>(a, d). uw a d) (replicate 1024 (8, 0xcccccaaf)) s;
     (r, s) \<leftarrow> ur 4 s;
     (rs', s) \<leftarrow> gather ur (replicate 1024 4) s;
     Some (d # rs @ [r], s)
   }"

subsection \<open>\<open>float\<close>\<close>

text \<open>
  The bits of the constants \<^verbatim>\<open>0.13\<close> and \<^verbatim>\<open>99.15\<close>, the value of \<^verbatim>\<open>4.71238898\<close> as a float, and
  those of \<^verbatim>\<open>(3.14159/180)*30*i\<close>, a double rounded to a float.
\<close>

definition float_av :: u64 where "float_av = 0x3fc0a3d70a3d70a4"

definition float_bv :: u64 where "float_bv = 0x4058c9999999999a"

definition float_radian :: rat where "float_radian = 2470649 / 2 ^ 19"

definition float_angles :: "rat list" where
  "float_angles = [0, 4392261 / 2 ^ 23, 4392261 / 2 ^ 22, 823549 / 2 ^ 19, 4392261 / 2 ^ 21, 10980653 / 2 ^ 22]"

definition sin_cos :: "u32 \<Rightarrow> rat \<times> rat" where
  "sin_cos sincos =
     (let cosv = sincos AND 0xffff; sinv = drop_bit 16 sincos AND 0xffff
      in (fixed_to_float_2i sinv, fixed_to_float_2i cosv))"

definition float_ask ::
  "(u32 \<Rightarrow> u32 \<Rightarrow> 's \<Rightarrow> 's option) \<Rightarrow> (u32 \<Rightarrow> 's \<Rightarrow> (u32 \<times> 's) option) \<Rightarrow> rat \<Rightarrow> 's \<Rightarrow> ((rat \<times> rat) \<times> 's) option" where
  "float_ask uw ur angle s = do {
     f \<leftarrow> float_to_fixed_3i angle;
     s \<leftarrow> uw 16 f s;
     (sincos, s) \<leftarrow> ur 16 s;
     Some (sin_cos sincos, s)
   }"

record float_out =
  magic :: u32
  ar :: u64
  br :: u64
  first_sin_cos :: "rat \<times> rat"
  table :: "(rat \<times> rat) list"

definition float_main ::
  "(u32 \<Rightarrow> 's \<Rightarrow> (u32 \<times> 's) option) \<Rightarrow> (u32 \<Rightarrow> u32 \<Rightarrow> 's \<Rightarrow> 's option) \<Rightarrow> (u32 \<Rightarrow> 's \<Rightarrow> (u32 \<times> 's) option)
    \<Rightarrow> 's \<Rightarrow> (float_out \<times> 's) option" where
  "float_main rw uw ur s = do {
     (d, s) \<leftarrow> rw 0 s;
     s \<leftarrow> uw 0 (ucast float_av) s;
     s \<leftarrow> uw 4 (ucast (drop_bit 32 float_av)) s;
     s \<leftarrow> uw 8 (ucast float_bv) s;
     s \<leftarrow> uw 12 (ucast (drop_bit 32 float_bv)) s;
     f \<leftarrow> float_to_fixed_3i float_radian;
     s \<leftarrow> uw 16 f s;
     (a1, s) \<leftarrow> ur 0 s;
     (a2, s) \<leftarrow> ur 4 s;
     (b1, s) \<leftarrow> ur 8 s;
     (b2, s) \<leftarrow> ur 12 s;
     (sincos, s) \<leftarrow> ur 16 s;
     (rows, s) \<leftarrow> gather (float_ask uw ur) float_angles s;
     Some (\<lparr>magic = d, ar = push_bit 32 (ucast a2) OR ucast a1, br = push_bit 32 (ucast b2) OR ucast b1,
            first_sin_cos = sin_cos sincos, table = rows\<rparr>, s)
   }"

subsection \<open>\<open>queuealu\<close>\<close>

text \<open>The program calls \<^verbatim>\<open>exit(0)\<close> right after the first word; the rest of it never runs.\<close>

definition queuealu_main :: "(u32 \<Rightarrow> 's \<Rightarrow> (u32 \<times> 's) option) \<Rightarrow> 's \<Rightarrow> (u32 \<times> 's) option" where
  "queuealu_main rw s = do { (d, s) \<leftarrow> rw 0 s; Some (d, s) }"

subsection \<open>\<open>dramtest\<close>\<close>

text \<open>Up to its \<^verbatim>\<open>exit(0)\<close>. The values of \<^verbatim>\<open>rand()\<close> are an argument.\<close>

definition dramtest_cmd :: "u32 \<Rightarrow> u32" where
  "dramtest_cmd r = (let roff = r AND 0xffff in push_bit 16 roff OR (2048 div 64))"

definition dramtest_send :: "(u32 \<Rightarrow> u32 \<Rightarrow> 's \<Rightarrow> 's option) \<Rightarrow> (nat \<Rightarrow> u32) \<Rightarrow> 's \<Rightarrow> 's option" where
  "dramtest_send uw rand s = each (\<lambda>i. uw 12 (dramtest_cmd (rand i))) [0..<1024] s"

definition dramtest_wait ::
  "(u32 \<Rightarrow> 's \<Rightarrow> (u32 \<times> 's) option) \<Rightarrow> 's \<Rightarrow> (u32 \<times> 's) option" where
  "dramtest_wait ur s =
     (case while_option (\<lambda>r. case r of None \<Rightarrow> False | Some (cycles, s) \<Rightarrow> cycles = 0)
             (\<lambda>r. case r of None \<Rightarrow> None | Some (cycles, s) \<Rightarrow> ur 32 s) (ur 32 s) of
        None \<Rightarrow> None
      | Some r \<Rightarrow> r)"

definition dramtest_main ::
  "(u32 \<Rightarrow> u32 \<Rightarrow> 's \<Rightarrow> 's option) \<Rightarrow> (u32 \<Rightarrow> 's \<Rightarrow> (u32 \<times> 's) option) \<Rightarrow> (nat \<Rightarrow> u32) \<Rightarrow> 's \<Rightarrow> (u32 \<times> 's) option" where
  "dramtest_main uw ur rand s = do {
     s \<leftarrow> dramtest_send uw rand s;
     dramtest_wait ur s
   }"

subsection \<open>\<open>dmatest\<close>\<close>

definition dmatest_fill :: "mem \<Rightarrow> mem" where
  "dmatest_fill m = fold (\<lambda>i m. m(i := 0xaa)) [0..<16] (fold (\<lambda>i m. m(i := of_nat i)) [0..<8 * 1024] m)"

definition dmatest_count :: nat where "dmatest_count = 1024 * 1024 * 32"

definition dmatest_main ::
  "(u32 \<Rightarrow> 's \<Rightarrow> (u32 \<times> 's) option) \<Rightarrow> (u32 \<Rightarrow> u32 \<Rightarrow> 's \<Rightarrow> 's option) \<Rightarrow> (u32 \<Rightarrow> 's \<Rightarrow> (u32 \<times> 's) option)
    \<Rightarrow> ('s \<Rightarrow> mem) \<Rightarrow> ((mem \<Rightarrow> mem) \<Rightarrow> 's \<Rightarrow> 's) \<Rightarrow> 's \<Rightarrow> (u32 list \<times> 's) option" where
  "dmatest_main rw uw ur buf upd s = do {
     (d, s) \<leftarrow> rw 0 s;
     (d0, s) \<leftarrow> rw 32 s;
     s \<leftarrow> Some (upd dmatest_fill s);
     s \<leftarrow> each (\<lambda>i. uw 0 8) [0..<dmatest_count] s;
     (rs, s) \<leftarrow> gather ur [0, 4, 8] s;
     (ws, s) \<leftarrow> gather (\<lambda>i s. Some (load32 (buf s) (4 * i), upd (\<lambda>m. store32 m (4 * i) (of_nat i)) s)) [0..<8] s;
     s \<leftarrow> each (\<lambda>i. uw 4 8) [0..<dmatest_count] s;
     (rs', s) \<leftarrow> gather ur [0, 4, 8, 12, 16, 20, 24] s;
     Some (d # d0 # rs @ ws @ rs', s)
   }"

subsection \<open>\<open>sortreduce\<close>\<close>

definition buffermb :: u32 where "buffermb = 256"
definition outstripemb :: u32 where "outstripemb = 1"
definition bufferwords :: u32 where "bufferwords = (1024 * 1024 * buffermb) div 64"
definition istripe :: u32 where "istripe = (1024 * 1024 * outstripemb) div 16 div 64"
definition stripecnt :: u32 where "stripecnt = buffermb div outstripemb"

text \<open>
  One buffer of keys: \<open>rand\<close> gives the values of \<^verbatim>\<open>rand()\<close>, \<open>k\<close> is the number of calls before.
  The key in the middle is the end marker.
\<close>

definition stripe_keys :: "nat" where "stripe_keys = unat (istripe * 8)"

definition stripe_buffer :: "(nat \<Rightarrow> u32) \<Rightarrow> nat \<Rightarrow> u32 list" where
  "stripe_buffer rand k = (map (\<lambda>i. rand (k + i) mod 2 ^ 24) [0..<stripe_keys])[stripe_keys div 2 := 0xffffffff]"

definition send_key :: "(u32 \<Rightarrow> u32 \<Rightarrow> 's \<Rightarrow> 's option) \<Rightarrow> u32 \<Rightarrow> 's \<Rightarrow> 's option" where
  "send_key uw x s =
     (if x = 0xffffffff then do { s \<leftarrow> uw 20 0xffffffff s; uw 20 x s }
      else do { s \<leftarrow> uw 20 1 s; uw 20 x s })"

definition stripes_each :: nat where "stripes_each = unat (bufferwords div 16 div istripe)"

definition sortreduce_load :: "(u32 \<Rightarrow> u32 \<Rightarrow> 's \<Rightarrow> 's option) \<Rightarrow> (nat \<Rightarrow> u32) \<Rightarrow> 's \<Rightarrow> 's option" where
  "sortreduce_load uw rand s =
     each (\<lambda>b. each (\<lambda>st. each (send_key uw) (stripe_buffer rand ((b * stripes_each + st) * stripe_keys)))
       [0..<stripes_each]) [0..<16] s"

definition sortreduce_cmds :: "(u32 \<times> u32) list" where
  "sortreduce_cmds = concat (map (\<lambda>b. [(0, of_nat b), (4, (bufferwords div 16) * of_nat b),
     (8, (bufferwords div 16) * of_nat (b + 1)), (12, istripe)]) [0..<16])"

text \<open>The nested waiting loops; the outer one returns what it has printed.\<close>

definition stripe_poll ::
  "(u32 \<Rightarrow> 's \<Rightarrow> (u32 \<times> 's) option) \<Rightarrow> u32 \<times> u32 \<times> 's \<Rightarrow> (u32 \<times> u32 \<times> 's) option" where
  "stripe_poll ur = (\<lambda>(elapsed, g, s). do { (elapsed, s) \<leftarrow> ur 0 s; (g, s) \<leftarrow> ur 4 s; Some (elapsed, g, s) })"

definition stripe_wait ::
  "(u32 \<Rightarrow> 's \<Rightarrow> (u32 \<times> 's) option) \<Rightarrow> u32 \<Rightarrow> u32 \<times> u32 \<times> 's \<Rightarrow> (u32 \<times> u32 \<times> 's) option" where
  "stripe_wait ur donestripes r =
     (case while_option (\<lambda>r. case r of None \<Rightarrow> False | Some (elapsed, g, s) \<Rightarrow> elapsed = 0 \<or> g \<le> donestripes)
             (\<lambda>r. Option.bind r (stripe_poll ur)) (Some r) of
        None \<Rightarrow> None
      | Some r \<Rightarrow> r)"

definition stripe_round ::
  "(u32 \<Rightarrow> 's \<Rightarrow> (u32 \<times> 's) option) \<Rightarrow> u32 \<times> u32 \<times> (u32 \<times> u32) list \<times> 's
    \<Rightarrow> (u32 \<times> u32 \<times> (u32 \<times> u32) list \<times> 's) option" where
  "stripe_round ur = (\<lambda>(elapsed, donestripes, out, s). do {
     (g, s) \<leftarrow> ur 4 s;
     (elapsed, g, s) \<leftarrow> stripe_wait ur donestripes (elapsed, g, s);
     Some (elapsed, g, out @ [(elapsed, g)], s) })"

definition sortreduce_wait ::
  "(u32 \<Rightarrow> 's \<Rightarrow> (u32 \<times> 's) option) \<Rightarrow> 's \<Rightarrow> ((u32 \<times> u32) list \<times> 's) option" where
  "sortreduce_wait ur s =
     (case while_option (\<lambda>r. case r of None \<Rightarrow> False | Some (elapsed, donestripes, out, s) \<Rightarrow> donestripes < stripecnt)
             (\<lambda>r. Option.bind r (stripe_round ur)) (Some (0, 0, [], s)) of
        None \<Rightarrow> None
      | Some r \<Rightarrow> do { (elapsed, donestripes, out, s) \<leftarrow> r; Some (out, s) })"

definition sortreduce_setup ::
  "(u32 \<Rightarrow> u32 \<Rightarrow> 's \<Rightarrow> 's option) \<Rightarrow> (nat \<Rightarrow> u32) \<Rightarrow> 's \<Rightarrow> 's option" where
  "sortreduce_setup uw rand s = do {
     s \<leftarrow> uw 24 0 s;
     s \<leftarrow> uw 0 bufferwords s;
     s \<leftarrow> uw 4 (bufferwords * 2) s;
     s \<leftarrow> uw 16 (istripe * 16) s;
     s \<leftarrow> sortreduce_load uw rand s;
     each (\<lambda>(a, d). uw a d) sortreduce_cmds s
   }"

definition sortreduce_main ::
  "(u32 \<Rightarrow> u32 \<Rightarrow> 's \<Rightarrow> 's option) \<Rightarrow> (u32 \<Rightarrow> 's \<Rightarrow> (u32 \<times> 's) option) \<Rightarrow> (nat \<Rightarrow> u32) \<Rightarrow> 's
    \<Rightarrow> ((u32 \<times> u32) list \<times> 's) option" where
  "sortreduce_main uw ur rand s = do { s \<leftarrow> sortreduce_setup uw rand s; sortreduce_wait ur s }"

subsection \<open>\<open>streaming\<close>\<close>

definition fill_words :: "nat \<Rightarrow> mem \<Rightarrow> mem" where
  "fill_words n m = fold (\<lambda>i m. store32 m (4 * i) (of_nat i)) [0..<n] m"

definition streaming_fill :: "mem \<Rightarrow> mem" where
  "streaming_fill m = fill_words (4 * 1024 div 4) (fill_words (32 * 1024 div 4) m)"

definition pagecnt :: u32 where "pagecnt = 4"

definition streaming_cmds :: "(u32 \<times> u32) list" where
  "streaming_cmds = concat (map (\<lambda>i. [(1 * 4, 4 + of_nat (i mod 4)), (0, of_nat (i mod 4))]) [0..<unat pagecnt])"

text \<open>The check: word \<open>i\<close> of the second page, and every eighth word a constant.\<close>

definition streaming_check :: "mem \<Rightarrow> nat" where
  "streaming_check m = fold (\<lambda>i incorrects.
     let d = load32 m (4 * (i + 1024 div 4 * 4))
     in if i mod 8 = 0 then (if d \<noteq> 0xdeadbeef then incorrects + 1 else incorrects)
        else (if d \<noteq> of_nat i then incorrects + 1 else incorrects)) [0..<1024 * 4 div 4] 0"

text \<open>
  The wait, with the count of its sleeps; every 10000 of them it also reads the debug code
  in the configuration space.
\<close>

definition streaming_poll ::
  "(u32 \<Rightarrow> 's \<Rightarrow> (u32 \<times> 's) option) \<Rightarrow> (u32 \<Rightarrow> 's \<Rightarrow> (u32 \<times> 's) option) \<Rightarrow> u32 \<times> nat \<times> 's \<Rightarrow> (u32 \<times> nat \<times> 's) option" where
  "streaming_poll rw ur = (\<lambda>(pages, sleepcnt, s). do {
     (pages, s) \<leftarrow> ur 4 s;
     if pages \<ge> pagecnt then Some (pages, sleepcnt, s)
     else if (sleepcnt + 1) mod 10000 = 0
     then do { (debug, s) \<leftarrow> rw 4 s; Some (pages, sleepcnt + 1, s) }
     else Some (pages, sleepcnt + 1, s) })"

definition streaming_wait ::
  "(u32 \<Rightarrow> 's \<Rightarrow> (u32 \<times> 's) option) \<Rightarrow> (u32 \<Rightarrow> 's \<Rightarrow> (u32 \<times> 's) option) \<Rightarrow> 's \<Rightarrow> 's option" where
  "streaming_wait rw ur s =
     (case while_option (\<lambda>r. case r of None \<Rightarrow> False | Some (pages, sleepcnt, s) \<Rightarrow> pages < pagecnt)
             (\<lambda>r. Option.bind r (streaming_poll rw ur)) (Some (0, 0, s)) of
        None \<Rightarrow> None
      | Some r \<Rightarrow> do { (pages, sleepcnt, s) \<leftarrow> r; Some s })"

definition streaming_start ::
  "(u32 \<Rightarrow> 's \<Rightarrow> (u32 \<times> 's) option) \<Rightarrow> (u32 \<Rightarrow> u32 \<Rightarrow> 's \<Rightarrow> 's option) \<Rightarrow> (u32 \<Rightarrow> 's \<Rightarrow> (u32 \<times> 's) option)
    \<Rightarrow> ((mem \<Rightarrow> mem) \<Rightarrow> 's \<Rightarrow> 's) \<Rightarrow> 's \<Rightarrow> (u32 list \<times> 's) option" where
  "streaming_start rw uw ur upd s = do {
     (d, s) \<leftarrow> rw 0 s;
     (d0, s) \<leftarrow> rw 32 s;
     (rs, s) \<leftarrow> gather ur (map (\<lambda>i. (2 + of_nat i) * 4) [0..<4]) s;
     (r, s) \<leftarrow> ur 0 s;
     (w, s) \<leftarrow> ur 4 s;
     s \<leftarrow> Some (upd streaming_fill s);
     s \<leftarrow> each (\<lambda>(a, d). uw a d) streaming_cmds s;
     Some (d # d0 # rs @ [r, w], s)
   }"

definition streaming_main ::
  "(u32 \<Rightarrow> 's \<Rightarrow> (u32 \<times> 's) option) \<Rightarrow> (u32 \<Rightarrow> u32 \<Rightarrow> 's \<Rightarrow> 's option) \<Rightarrow> (u32 \<Rightarrow> 's \<Rightarrow> (u32 \<times> 's) option)
    \<Rightarrow> ('s \<Rightarrow> mem) \<Rightarrow> ((mem \<Rightarrow> mem) \<Rightarrow> 's \<Rightarrow> 's) \<Rightarrow> 's \<Rightarrow> (u32 list \<times> nat \<times> u32 \<times> 's) option" where
  "streaming_main rw uw ur buf upd s = do {
     (xs, s) \<leftarrow> streaming_start rw uw ur upd s;
     s \<leftarrow> streaming_wait rw ur s;
     (r, s) \<leftarrow> ur 0 s;
     (w, s) \<leftarrow> ur 4 s;
     incorrects \<leftarrow> Some (streaming_check (buf s));
     (debug, s) \<leftarrow> rw 4 s;
     Some (xs @ [r, w], incorrects, debug, s)
   }"

end
