(* ===== verification/ExampleRuns.thy ===== *)
theory ExampleRuns
  imports Examples
begin

text \<open>
  What the example programs do over any port: they return, and the writes they make are the
  ones below, in this order. The user logic of \<^verbatim>\<open>examples/float\<close> and \<^verbatim>\<open>examples/sortreduce\<close>,
  as far as it takes the writes in, turns them into operations.
\<close>

subsection \<open>Fixed-point arguments\<close>

lemma float_args:
  "float_to_fixed_3i float_radian = Some 38603"
  "map float_to_fixed_3i float_angles = map Some [0, 4289, 8578, 12867, 17157, 21446]"
proof -
  note at = float_to_fixed_3i_between
  show "float_to_fixed_3i float_radian = Some 38603"
    using at [of 38603 float_radian] by (simp add: float_radian_def)
  show "map float_to_fixed_3i float_angles = map Some [0, 4289, 8578, 12867, 17157, 21446]"
    using at [of 0 0] at [of 4289 "4392261 / 2 ^ 23"] at [of 8578 "4392261 / 2 ^ 22"]
      at [of 12867 "823549 / 2 ^ 19"] at [of 17157 "4392261 / 2 ^ 21"] at [of 21446 "10980653 / 2 ^ 22"]
    by (simp add: float_angles_def)
qed

subsection \<open>The user logic of \<open>float\<close>\<close>

text \<open>
  The registers, and what the arithmetic units were given. The block floating point unit gets
  the two buffers (their concatenation, cut to its width) without the half that arrives.
\<close>

record float_hw =
  doubleBuffer1 :: u64
  doubleBuffer2 :: u64
  multOps :: "(u64 \<times> u64) list"
  sqrtOps :: "u64 list"
  sincosOps :: "u16 list"
  msfpeOps :: "(u64 \<times> u64) list"
  floatWriteCounter :: u32

definition float_hw_reset :: float_hw where
  "float_hw_reset = \<lparr>doubleBuffer1 = 0, doubleBuffer2 = 0, multOps = [], sqrtOps = [],
     sincosOps = [], msfpeOps = [], floatWriteCounter = 0\<rparr>"

definition float_put :: "ioaddr \<times> u32 \<Rightarrow> float_hw \<Rightarrow> float_hw" where
  "float_put w h = (case w of (a, d) \<Rightarrow>
     let off = drop_bit 2 a in
     if off = 0 then h\<lparr>doubleBuffer1 := ucast d\<rparr>
     else if off = 1 then h\<lparr>doubleBuffer1 := doubleBuffer1 h OR push_bit 32 (ucast d)\<rparr>
     else if off = 2 then h\<lparr>doubleBuffer2 := ucast d\<rparr>
     else if off = 3
     then (let b2 = doubleBuffer2 h OR push_bit 32 (ucast d)
           in h\<lparr>multOps := multOps h @ [(doubleBuffer1 h, b2)], sqrtOps := sqrtOps h @ [b2],
                msfpeOps := msfpeOps h @ [(doubleBuffer2 h, doubleBuffer1 h)]\<rparr>)
     else if off = 4 then h\<lparr>sincosOps := sincosOps h @ [ucast d]\<rparr>
     else h\<lparr>floatWriteCounter := floatWriteCounter h + 1\<rparr>)"

definition float_writes :: "(ioaddr \<times> u32) list" where
  "float_writes = [(0, ucast float_av), (4, ucast (drop_bit 32 float_av)), (8, ucast float_bv),
     (12, ucast (drop_bit 32 float_bv)), (16, 38603)] @ map (Pair 16) [0, 4289, 8578, 12867, 17157, 21446]"

lemma float_hw_takes:
  "multOps (fold float_put float_writes float_hw_reset) = [(float_av, float_bv)]"
  "sqrtOps (fold float_put float_writes float_hw_reset) = [float_bv]"
  "sincosOps (fold float_put float_writes float_hw_reset) = [38603, 0, 4289, 8578, 12867, 17157, 21446]"
  by (simp_all add: float_writes_def float_put_def float_hw_reset_def Let_def word64_halves)

text \<open>The writes of \<open>simple\<close>.\<close>

definition simple_writes :: "(ioaddr \<times> u32) list" where
  "simple_writes = [(4, 0xdeadbeef), (0, 0xcafef00d), (12, 0)] @ replicate 1024 (8, 0xcccccaaf)"

lemmas port_words = user_word_def CONFIG_BUFFER_SIZE_def

context config_port
begin

lemma float_ask_runs:
  assumes "room n s" "float_to_fixed_3i angle = Some f"
    and "\<And>x s'. room n s' \<Longrightarrow> view s' = put (16, f) (view s) \<Longrightarrow> Q (x, s')"
  shows "yields (float_ask uw ur angle s) Q"
  unfolding float_ask_def assms(2) bind.bind_lunit
proof (simp only: yields_bind, rule yields_write [OF assms(1)])
  show "user_word 16" by (simp add: port_words)
  fix s1 assume s1: "room n s1" "view s1 = put (ucast (16 :: u32), f) (view s)"
  show "yields (ur 16 s1) (\<lambda>r. yields (case r of (sincos, s) \<Rightarrow> Some (sin_cos sincos, s)) Q)"
    using s1 assms(3) by (intro yields_read [OF s1(1)]) (simp_all add: port_words)
qed

lemma float_rows:
  assumes "room n s"
    and "\<And>ys s'. room n s' \<Longrightarrow>
      view s' = fold put (map (Pair 16) [0, 4289, 8578, 12867, 17157, 21446]) (view s) \<Longrightarrow> Q (ys, s')"
  shows "yields (gather (float_ask uw ur) float_angles s) Q"
proof -
  have f: "map (the \<circ> float_to_fixed_3i) float_angles = [0, 4289, 8578, 12867, 17157, 21446]"
    unfolding map_map [symmetric] float_args(2) by simp
  have some: "float_to_fixed_3i x = Some (the (float_to_fixed_3i x))" if "x \<in> set float_angles" for x
  proof -
    have "float_to_fixed_3i x \<in> set (map float_to_fixed_3i float_angles)" using that by simp
    then show ?thesis unfolding float_args(2) by auto
  qed
  let ?ws = "\<lambda>x. [(16 :: ioaddr, the (float_to_fixed_3i x))]"
  have "concat (map ?ws float_angles) = map (Pair 16) (map (the \<circ> float_to_fixed_3i) float_angles)"
    by (simp add: float_angles_def)
  then have ws: "concat (map ?ws float_angles) = map (Pair 16) [0, 4289, 8578, 12867, 17157, 21446]"
    unfolding f .
  show ?thesis
  proof (rule yields_gather [OF assms(1), where ws = ?ws])
    fix x s and P :: "(rat \<times> rat) \<times> 's \<Rightarrow> bool"
    assume "x \<in> set float_angles" "room n s"
      and "\<And>y s'. room n s' \<Longrightarrow> view s' = fold put (?ws x) (view s) \<Longrightarrow> P (y, s')"
    then show "yields (float_ask uw ur x s) P" using some by (intro float_ask_runs) simp_all
  next
    fix ys s' assume "room n s'" "view s' = fold put (concat (map ?ws float_angles)) (view s)"
    then show "Q (ys, s')" unfolding ws by (rule assms(2))
  qed
qed

lemma float_main_runs:
  assumes "room (Suc n) s"
  shows "yields (float_main rw uw ur s)
    (\<lambda>(out, s'). room n s' \<and> magic out = 0xc001d00d \<and> view s' = fold put float_writes (view s))"
  unfolding float_main_def
  apply (simp only: yields_bind float_args(1) yields_Some)
  apply (rule yields_config, rule assms, simp add: port_words, simp only: prod.case yields_bind yields_Some)
  apply ((rule yields_write yields_read, assumption, simp add: port_words, (simp only: prod.case yields_bind yields_Some)?)+)
  apply (rule float_rows, assumption)
  apply (simp add: float_writes_def)
  done

text \<open>What \<open>simple\<close> prints, and the state it leaves.\<close>

lemma simple_main_runs:
  assumes "room (Suc n) s" and ioctl: "\<And>s. ioctl 1 0 s = s"
  shows "yields (simple_main rw uw ur ioctl s) (\<lambda>(out, s'). room n s' \<and>
    view s' = fold put simple_writes (view s) \<and>
    (\<exists>rs r. out = 0xc001d00d # rs @ [r]
      \<and> list_all2 (\<lambda>a x. may (fold put (take 3 simple_writes) (view s)) a x) [0, 4, 8, 12, 16, 20, 24, 28] rs
      \<and> may (view s') 4 r))"
proof -
  have as: "map (\<lambda>i. of_nat i * 4) [0..<8] = [0 :: u32, 4, 8, 12, 16, 20, 24, 28]"
    by (simp add: upt_rec)
  show ?thesis
    unfolding simple_main_def as ioctl
    apply (simp only: yields_bind yields_Some)
    apply (rule yields_config, rule assms, simp add: port_words, simp only: prod.case yields_bind yields_Some)
    apply ((rule yields_write yields_read, assumption, simp add: port_words, (simp only: prod.case yields_bind yields_Some)?)+)
    apply (rule yields_reads, assumption, simp add: port_words, simp only: prod.case yields_bind yields_Some)
    apply (rule yields_writes, assumption, simp add: port_words list_all_iff, simp only: prod.case yields_bind yields_Some)
    apply (rule yields_read, assumption, simp add: port_words, simp only: prod.case yields_bind yields_Some)
    apply (rule yields_reads, assumption, simp add: port_words list_all_iff, simp only: prod.case yields_bind yields_Some)
    apply (simp add: simple_writes_def map_replicate list_all2_Cons1)
    done
qed

end

end
