(* ===== verification/ExampleStripes.thy ===== *)
theory ExampleStripes
  imports ExampleRuns
begin

text \<open>
  \<^verbatim>\<open>examples/sortreduce\<close>: the stripes of keys the program sends, and what the user logic
  makes of its writes: the words for the scratchpad, the commands to the loader and to the
  writer of the output.
\<close>

lemma sortreduce_sizes:
  "bufferwords = 2 ^ 22" "istripe = 1024" "stripecnt = 256" "stripe_keys = 8192" "stripes_each = 256"
  by (simp_all add: bufferwords_def istripe_def stripecnt_def stripe_keys_def stripes_each_def
      buffermb_def outstripemb_def)

subsection \<open>The stripes\<close>

text \<open>A stripe: its keys have 24 bits, but for one end marker, in the middle.\<close>

definition stripe_ok :: "u32 list \<Rightarrow> bool" where
  "stripe_ok xs \<longleftrightarrow> length xs = stripe_keys \<and>
     (\<forall>i < length xs. if i = stripe_keys div 2 then xs ! i = 0xffffffff else unat (xs ! i) < 2 ^ 24)"

lemma stripe_buffer_ok: "stripe_ok (stripe_buffer rand k)"
proof -
  have "unat (x mod 2 ^ 24 :: u32) < 2 ^ 24" for x
    by (simp add: unat_mod)
  then show ?thesis
    by (simp add: stripe_ok_def stripe_buffer_def nth_list_update sortreduce_sizes del: upt_rec_numeral)
qed

definition sortreduce_stripes :: "(nat \<Rightarrow> u32) \<Rightarrow> u32 list list" where
  "sortreduce_stripes rand = concat (map (\<lambda>b. map (\<lambda>st. stripe_buffer rand ((b * stripes_each + st) * stripe_keys))
     [0..<stripes_each]) [0..<16])"

definition key_words :: "u32 \<Rightarrow> u32 list" where
  "key_words x = [if x = 0xffffffff then 0xffffffff else 1, x]"

definition stripe_words :: "(nat \<Rightarrow> u32) \<Rightarrow> u32 list" where
  "stripe_words rand = concat (map (\<lambda>xs. concat (map key_words xs)) (sortreduce_stripes rand))"

lemma length_concat_same: "(\<And>x. x \<in> set xs \<Longrightarrow> length (f x) = n) \<Longrightarrow> length (concat (map f xs)) = n * length xs"
  by (induction xs) simp_all

lemma stripes_count: "length (sortreduce_stripes rand) = 4096"
  unfolding sortreduce_stripes_def
  by (subst length_concat_same [where n = 256]) (simp_all add: sortreduce_sizes)

lemma stripes_ok: "xs \<in> set (sortreduce_stripes rand) \<Longrightarrow> stripe_ok xs"
  by (auto simp: sortreduce_stripes_def stripe_buffer_ok)

text \<open>Two words for every key: the stripes fill the scratchpad exactly.\<close>

lemma stripe_words_fill: "length (stripe_words rand) = 16 * unat bufferwords"
proof -
  have k: "length (concat (map key_words xs)) = 2 * length xs" for xs
    by (rule length_concat_same) (simp add: key_words_def)
  have "length (concat (map key_words xs)) = 16384" if "xs \<in> set (sortreduce_stripes rand)" for xs
    using stripes_ok [OF that] by (simp add: k stripe_ok_def sortreduce_sizes)
  then show ?thesis
    unfolding stripe_words_def
    by (subst length_concat_same [where n = 16384]) (simp_all add: stripes_count sortreduce_sizes)
qed

subsection \<open>The user logic\<close>

record sr_hw =
  inputArgs :: "u32 list"
  srCommands :: "(u8 \<times> u32 \<times> u32 \<times> u32) list"
  srOutCommands :: "(u32 \<times> u32 \<times> u32) list"
  dramWords :: "u32 list"
  dramWriteOff :: u32

definition sr_reset :: sr_hw where
  "sr_reset = \<lparr>inputArgs = replicate 3 0, srCommands = [], srOutCommands = [], dramWords = [], dramWriteOff = 0\<rparr>"

definition sr_put :: "ioaddr \<times> u32 \<Rightarrow> sr_hw \<Rightarrow> sr_hw" where
  "sr_put w h = (case w of (a, d) \<Rightarrow>
     let off = drop_bit 2 a in
     if off < 3 then h\<lparr>inputArgs := (inputArgs h)[unat off := d]\<rparr>
     else if off = 3
     then h\<lparr>srCommands := srCommands h @ [(ucast (inputArgs h ! 0), inputArgs h ! 1, inputArgs h ! 2, d)]\<rparr>
     else if off = 4 then h\<lparr>srOutCommands := srOutCommands h @ [(inputArgs h ! 0, inputArgs h ! 1, d)]\<rparr>
     else if off = 5 then h\<lparr>dramWords := dramWords h @ [d]\<rparr>
     else if off = 6 then h\<lparr>dramWriteOff := d\<rparr>
     else h)"

lemma sr_put_words: "fold sr_put (map (Pair 20) ws) h = h\<lparr>dramWords := dramWords h @ ws\<rparr>"
  by (induction ws arbitrary: h) (simp_all add: sr_put_def Let_def)

definition load_writes :: "(nat \<Rightarrow> u32) \<Rightarrow> (ioaddr \<times> u32) list" where
  "load_writes rand = map (Pair 20) (stripe_words rand)"

definition sortreduce_writes :: "(nat \<Rightarrow> u32) \<Rightarrow> (ioaddr \<times> u32) list" where
  "sortreduce_writes rand =
     [(24, 0), (0, bufferwords), (4, bufferwords * 2), (16, istripe * 16)] @ load_writes rand
     @ map (\<lambda>(a, d). (ucast a, d)) sortreduce_cmds"

text \<open>One round of the last loop gives one command.\<close>

definition sr_round :: "nat \<Rightarrow> (ioaddr \<times> u32) list" where
  "sr_round b = [(0, of_nat b), (4, (bufferwords div 16) * of_nat b),
     (8, (bufferwords div 16) * of_nat (b + 1)), (12, istripe)]"

definition sr_range :: "nat \<Rightarrow> u8 \<times> u32 \<times> u32 \<times> u32" where
  "sr_range b = (of_nat b, 2 ^ 18 * of_nat b, 2 ^ 18 * of_nat (b + 1), 1024)"

lemma ucast_of_nat_8: "(ucast (of_nat b :: u32) :: u8) = of_nat b"
  by (simp add: word_unat_eq_iff unsigned_ucast_eq unsigned_of_nat take_bit_take_bit)

lemma sr_put_round:
  assumes "length (inputArgs h) = 3"
  shows "srCommands (fold sr_put (sr_round b) h) = srCommands h @ [sr_range b]"
    "length (inputArgs (fold sr_put (sr_round b) h)) = 3"
    "srOutCommands (fold sr_put (sr_round b) h) = srOutCommands h"
    "dramWords (fold sr_put (sr_round b) h) = dramWords h"
    "dramWriteOff (fold sr_put (sr_round b) h) = dramWriteOff h"
  using assms
  by (simp_all add: sr_round_def sr_put_def Let_def sr_range_def ucast_of_nat_8 sortreduce_sizes
      word_less_nat_alt nth_list_update)

lemma sr_put_rounds:
  assumes "length (inputArgs h) = 3"
  shows "srCommands (fold sr_put (concat (map sr_round bs)) h) = srCommands h @ map sr_range bs
    \<and> srOutCommands (fold sr_put (concat (map sr_round bs)) h) = srOutCommands h
    \<and> dramWords (fold sr_put (concat (map sr_round bs)) h) = dramWords h
    \<and> dramWriteOff (fold sr_put (concat (map sr_round bs)) h) = dramWriteOff h"
  using assms
proof (induction bs arbitrary: h)
  case Nil
  then show ?case by simp
next
  case (Cons b bs)
  note r = sr_put_round [OF Cons.prems, of b]
  show ?case using Cons.IH [OF r(2)] r by simp
qed

lemma cmds_rounds: "map (\<lambda>(a, d). (ucast a :: ioaddr, d)) sortreduce_cmds = concat (map sr_round [0..<16])"
  by (simp add: sortreduce_cmds_def sr_round_def [abs_def] map_concat comp_def)

lemma sr_hw_takes:
  fixes rand
  defines "h \<equiv> fold sr_put (sortreduce_writes rand) sr_reset"
  shows "srCommands h = map sr_range [0..<16]" "srOutCommands h = [(2 ^ 22, 2 ^ 23, 16384)]"
    "dramWords h = stripe_words rand" "dramWriteOff h = 0"
proof -
  let ?h1 = "fold sr_put [(24, 0), (0, bufferwords), (4, bufferwords * 2), (16, istripe * 16)] sr_reset"
  let ?h2 = "?h1\<lparr>dramWords := dramWords ?h1 @ stripe_words rand\<rparr>"
  have h: "h = fold sr_put (concat (map sr_round [0..<16])) ?h2"
    unfolding h_def sortreduce_writes_def cmds_rounds load_writes_def fold_append comp_def sr_put_words ..
  have h1: "length (inputArgs ?h1) = 3" "srCommands ?h1 = []" "srOutCommands ?h1 = [(2 ^ 22, 2 ^ 23, 16384)]"
    "dramWords ?h1 = []" "dramWriteOff ?h1 = 0"
    by (simp_all add: sr_put_def sr_reset_def Let_def sortreduce_sizes numeral_3_eq_3)
  show "srCommands h = map sr_range [0..<16]" "srOutCommands h = [(2 ^ 22, 2 ^ 23, 16384)]"
    "dramWords h = stripe_words rand" "dramWriteOff h = 0"
    unfolding h using sr_put_rounds [of ?h2 "[0..<16]"] h1 by (simp_all del: fold.simps upt_rec_numeral)
qed

subsection \<open>Over a port\<close>

lemma concat_nested: "concat (map f (concat xss)) = concat (map (\<lambda>xs. concat (map f xs)) xss)"
  by (induction xss) simp_all

lemma concat_twice: "concat (concat xss) = concat (map concat xss)"
  by (induction xss) simp_all

lemma load_writes_nested:
  "load_writes rand = concat (map (\<lambda>b. concat (map (\<lambda>st. concat (map (\<lambda>x. map (Pair 20) (key_words x))
     (stripe_buffer rand ((b * stripes_each + st) * stripe_keys)))) [0..<stripes_each])) [0..<16])"
  by (simp add: load_writes_def stripe_words_def sortreduce_stripes_def concat_nested concat_twice map_concat comp_def
      del: upt_rec_numeral)

context config_port
begin

lemma send_key_runs:
  assumes "room n s"
    and "\<And>s'. room n s' \<Longrightarrow> view s' = fold put (map (Pair 20) (key_words x)) (view s) \<Longrightarrow> Q s'"
  shows "yields (send_key uw x s) Q"
proof -
  let ?t = "if x = 0xffffffff then 0xffffffff else 1 :: u32"
  have "send_key uw x s = do { s \<leftarrow> uw 20 ?t s; uw 20 x s }"
    by (simp add: send_key_def)
  moreover have "yields (uw 20 ?t s) (\<lambda>s. yields (uw 20 x s) Q)"
  proof (rule yields_write [OF assms(1)])
    show u: "user_word 20" by (simp add: port_words)
    fix s1 assume s1: "room n s1" "view s1 = put (ucast (20 :: u32), ?t) (view s)"
    show "yields (uw 20 x s1) Q"
      using s1 by (intro yields_write [OF s1(1) u] assms(2)) (simp_all add: key_words_def)
  qed
  ultimately show ?thesis by simp
qed

lemma sortreduce_load_runs:
  assumes "room n s"
    and "\<And>s'. room n s' \<Longrightarrow> view s' = fold put (load_writes rand) (view s) \<Longrightarrow> Q s'"
  shows "yields (sortreduce_load uw rand s) Q"
  unfolding sortreduce_load_def
proof (rule yields_each [OF assms(1)])
  fix b s P
  assume r: "room n s" and p: "\<And>s'. room n s' \<Longrightarrow> view s' = fold put
    (concat (map (\<lambda>st. concat (map (\<lambda>x. map (Pair 20) (key_words x))
      (stripe_buffer rand ((b * stripes_each + st) * stripe_keys)))) [0..<stripes_each])) (view s) \<Longrightarrow> P s'"
  show "yields (each (\<lambda>st. each (send_key uw) (stripe_buffer rand ((b * stripes_each + st) * stripe_keys)))
      [0..<stripes_each] s) P"
  proof (rule yields_each [OF r _ p])
    fix st s P'
    assume r: "room n s" and p: "\<And>s'. room n s' \<Longrightarrow> view s' = fold put
      (concat (map (\<lambda>x. map (Pair 20) (key_words x))
        (stripe_buffer rand ((b * stripes_each + st) * stripe_keys)))) (view s) \<Longrightarrow> P' s'"
    show "yields (each (send_key uw) (stripe_buffer rand ((b * stripes_each + st) * stripe_keys)) s) P'"
      by (rule yields_each [OF r _ p]) (rule send_key_runs)
  qed
next
  fix s' assume "room n s'" and "view s' = fold put (concat (map (\<lambda>b. concat (map (\<lambda>st.
    concat (map (\<lambda>x. map (Pair 20) (key_words x)) (stripe_buffer rand ((b * stripes_each + st) * stripe_keys))))
    [0..<stripes_each])) [0..<16])) (view s)"
  then show "Q s'" by (intro assms(2)) (simp_all only: load_writes_nested)
qed

lemma sortreduce_setup_runs:
  assumes "room n s"
  shows "yields (sortreduce_setup uw rand s)
    (\<lambda>s'. room n s' \<and> view s' = fold put (sortreduce_writes rand) (view s))"
  unfolding sortreduce_setup_def
  apply (simp only: yields_bind)
  apply (rule yields_write, rule assms, simp add: port_words)
  apply (rule yields_write, assumption, simp add: port_words)+
  apply (rule sortreduce_load_runs, assumption)
  apply (rule yields_writes, assumption, simp add: port_words list_all_iff sortreduce_cmds_def)
  apply (simp add: sortreduce_writes_def)
  done

end

end
