(* ===== verification/ExampleBuffers.thy ===== *)
theory ExampleBuffers
  imports ExampleRuns
begin

text \<open>
  The example programs that use the DMA buffer, and \<^verbatim>\<open>examples/dramtest\<close>: the commands they
  give, and what the check of \<^verbatim>\<open>examples/streaming\<close> finds.
\<close>

subsection \<open>The buffer\<close>

lemma fill_words_get: "load32 (fill_words n m) (4 * j) = (if j < n then of_nat j else load32 m (4 * j))"
proof (induction n)
  case 0
  then show ?case by (simp add: fill_words_def)
next
  case (Suc n)
  have "fill_words (Suc n) m = store32 (fill_words n m) (4 * n) (of_nat n)"
    by (simp add: fill_words_def)
  then show ?case using Suc by (cases "j = n") (auto simp: load32_store32_other)
qed

definition streaming_expected :: "nat \<Rightarrow> u32" where
  "streaming_expected i = (if i mod 8 = 0 then 0xdeadbeef else of_nat i)"

lemma streaming_check_count:
  "streaming_check m = length (filter (\<lambda>i. load32 m (4 * (i + 1024)) \<noteq> streaming_expected i) [0..<1024])"
proof -
  let ?P = "\<lambda>i. load32 m (4 * (i + 1024)) \<noteq> streaming_expected i"
  have "fold (\<lambda>i n. if ?P i then n + 1 else n) xs k = length (filter ?P xs) + k" for xs and k :: nat
    by (induction xs arbitrary: k) simp_all
  moreover have "streaming_check m = fold (\<lambda>i n. if ?P i then n + 1 else n) [0..<1024] 0"
    unfolding streaming_check_def
    by (rule fold_cong) (auto simp: streaming_expected_def Let_def simp del: upt_rec_numeral)
  ultimately show ?thesis by simp
qed

lemma streaming_check_zero:
  "streaming_check m = 0 \<longleftrightarrow> (\<forall>i < 1024. load32 m (4 * (i + 1024)) = streaming_expected i)"
  unfolding streaming_check_count length_0_conv filter_empty_conv by auto

text \<open>A buffer that the hardware has not touched fails everywhere.\<close>

lemma streaming_check_untouched: "streaming_check (streaming_fill m) = 1024"
proof -
  have "load32 (streaming_fill m) (4 * (i + 1024)) \<noteq> streaming_expected i" if "i < 1024" for i
  proof -
    have v: "load32 (streaming_fill m) (4 * (i + 1024)) = of_nat (i + 1024)"
      using that unfolding streaming_fill_def fill_words_get by simp
    have u: "unat (of_nat (i + 1024) :: u32) = i + 1024" by (rule unat_of_nat_small) (use that in simp)
    have "unat (of_nat i :: u32) = i" by (rule unat_of_nat_small) (use that in simp)
    then have "unat (of_nat (i + 1024) :: u32) \<noteq> unat (of_nat i :: u32)" unfolding u by simp
    then have "of_nat (i + 1024) \<noteq> (of_nat i :: u32)" by metis
    moreover have "unat (of_nat (i + 1024) :: u32) \<noteq> unat (0xdeadbeef :: u32)" unfolding u using that by simp
    then have "of_nat (i + 1024) \<noteq> (0xdeadbeef :: u32)" by metis
    ultimately show ?thesis unfolding v streaming_expected_def by simp
  qed
  then have "filter (\<lambda>i. load32 (streaming_fill m) (4 * (i + 1024)) \<noteq> streaming_expected i) [0..<1024] = [0..<1024]"
    by (intro filter_True) simp
  then show ?thesis by (simp add: streaming_check_count del: upt_rec_numeral)
qed

subsection \<open>Commands\<close>

text \<open>The read request of \<open>dramtest\<close>, as the hardware splits it: offset and number of words.\<close>

lemma dramtest_cmd_fields:
  "(ucast (drop_bit 16 (dramtest_cmd r)) :: u16) = ucast r" "(ucast (dramtest_cmd r) :: u16) = 32"
proof -
  have "0xffff = (mask 16 :: u32)" "32 = (2 ^ 5 :: u32)" "32 = (2 ^ 5 :: u16)" by (simp_all add: mask_eq_exp_minus_1)
  then have c: "dramtest_cmd r = push_bit 16 (take_bit 16 r) OR 2 ^ 5" "32 = (2 ^ 5 :: u16)"
    by (simp_all only: dramtest_cmd_def Let_def take_bit_eq_mask) simp
  show "(ucast (drop_bit 16 (dramtest_cmd r)) :: u16) = ucast r"
    unfolding c(1) by (rule bit_word_eqI)
      (simp add: bit_unsigned_iff bit_drop_bit_eq bit_or_iff bit_push_bit_iff bit_take_bit_iff bit_exp_iff del: power_numeral)
  show "(ucast (dramtest_cmd r) :: u16) = 32"
    unfolding c by (rule bit_word_eqI)
      (auto simp: bit_unsigned_iff bit_or_iff bit_push_bit_iff bit_take_bit_iff bit_exp_iff simp del: power_numeral)
qed

definition dramtest_writes :: "(nat \<Rightarrow> u32) \<Rightarrow> (ioaddr \<times> u32) list" where
  "dramtest_writes rand = map (\<lambda>i. (12, dramtest_cmd (rand i))) [0..<1024]"

definition streaming_writes :: "(ioaddr \<times> u32) list" where
  "streaming_writes = [(4, 4), (0, 0), (4, 5), (0, 1), (4, 6), (0, 2), (4, 7), (0, 3)]"

lemma streaming_cmds_writes: "map (\<lambda>(a, d). (ucast a, d)) streaming_cmds = streaming_writes"
  by (simp add: streaming_cmds_def streaming_writes_def pagecnt_def upt_rec)

definition dmatest_writes :: "(ioaddr \<times> u32) list" where
  "dmatest_writes = replicate dmatest_count (0, 8) @ replicate dmatest_count (4, 8)"

context config_port
begin

lemma dramtest_send_runs:
  assumes "room n s"
  shows "yields (dramtest_send uw rand s)
    (\<lambda>s'. room n s' \<and> view s' = fold put (dramtest_writes rand) (view s))"
  unfolding dramtest_send_def
proof (rule yields_each [OF assms, where ws = "\<lambda>i. [(12, dramtest_cmd (rand i))]"])
  fix i s P
  assume "room n s" "\<And>s'. room n s' \<Longrightarrow> view s' = fold put [(12, dramtest_cmd (rand i))] (view s) \<Longrightarrow> P s'"
  then show "yields (uw 12 (dramtest_cmd (rand i)) s) P"
    by (intro yields_write) (simp_all add: port_words)
qed (simp add: dramtest_writes_def del: upt_rec_numeral)

lemma same_writes:
  assumes "room n s" "user_word a"
    and "\<And>s'. room n s' \<Longrightarrow> view s' = fold put (replicate (length xs) (ucast a, d)) (view s) \<Longrightarrow> Q s'"
  shows "yields (each (\<lambda>i. uw a d) xs s) Q"
proof (rule yields_each [OF assms(1), where ws = "\<lambda>_. [(ucast a, d)]"])
  fix i s P
  assume "room n s" "\<And>s'. room n s' \<Longrightarrow> view s' = fold put [(ucast a, d)] (view s) \<Longrightarrow> P s'"
  then show "yields (uw a d s) P" by (intro yields_write [OF _ assms(2)]) simp_all
next
  have "concat (map (\<lambda>_. [(ucast a :: ioaddr, d)]) xs) = replicate (length xs) (ucast a, d)"
    by (induction xs) simp_all
  moreover fix s' assume "room n s'" "view s' = fold put (concat (map (\<lambda>_. [(ucast a, d)]) xs)) (view s)"
  ultimately show "Q s'" by (intro assms(3)) simp_all
qed

end

text \<open>A port whose state holds the DMA buffer: changing it does not touch the link.\<close>

locale dma_config_port = config_port +
  fixes upd :: "(mem \<Rightarrow> mem) \<Rightarrow> 'a \<Rightarrow> 'a"
  assumes upd_room: "room n s \<Longrightarrow> room n (upd f s)"
    and upd_view: "view (upd f s) = view s"
begin

lemma streaming_start_runs:
  assumes "room (Suc (Suc n)) s"
  shows "yields (streaming_start rw uw ur upd s) (\<lambda>(xs, s'). room n s'
    \<and> view s' = fold put streaming_writes (view s) \<and> length xs = 8 \<and> hd xs = 0xc001d00d)"
proof -
  have as: "map (\<lambda>i. (2 + of_nat i) * 4) [0..<4] = [8 :: u32, 12, 16, 20]"
    by (simp add: upt_rec)
  show ?thesis
    unfolding streaming_start_def as
    apply (simp only: yields_bind yields_Some)
    apply (rule yields_config, rule assms, simp add: port_words, simp only: prod.case yields_bind yields_Some)
    apply (rule yields_config, assumption, simp add: port_words, simp only: prod.case yields_bind yields_Some)
    apply (rule yields_reads, assumption, simp add: port_words, simp only: prod.case yields_bind yields_Some)
    apply (rule yields_read, assumption, simp add: port_words, simp only: prod.case yields_bind yields_Some)
    apply (rule yields_read, assumption, simp add: port_words, simp only: prod.case yields_bind yields_Some)
    apply (rule yields_writes, erule upd_room, simp add: port_words streaming_cmds_def pagecnt_def upt_rec)
    apply (simp only: prod.case yields_bind yields_Some)
    apply (auto simp: upd_view streaming_cmds_writes dest: list_all2_lengthD)
    done
qed

lemma dmatest_words_run:
  assumes "room n s"
    and "\<And>ws s'. room n s' \<Longrightarrow> view s' = view s \<Longrightarrow> Q (ws, s')"
  shows "yields (gather (\<lambda>i s. Some (load32 (buf s) (4 * i), upd (\<lambda>m. store32 m (4 * i) (of_nat i)) s)) is s) Q"
proof (rule yields_gather [OF assms(1), where ws = "\<lambda>_. []"])
  fix x s and P :: "u32 \<times> 'a \<Rightarrow> bool"
  assume "room n s" and p: "\<And>y s'. room n s' \<Longrightarrow> view s' = fold put [] (view s) \<Longrightarrow> P (y, s')"
  then show "yields (Some (load32 (buf s) (4 * x), upd (\<lambda>m. store32 m (4 * x) (of_nat x)) s)) P"
    by (simp add: upd_room upd_view)
next
  have e: "concat (map (\<lambda>_. []) is) = ([] :: (ioaddr \<times> u32) list)" by (induction "is") simp_all
  fix ys s' assume "room n s'" "view s' = fold put (concat (map (\<lambda>_. []) is)) (view s)"
  then show "Q (ys, s')" unfolding e by (intro assms(2)) simp_all
qed

lemma dmatest_main_runs:
  assumes "room (Suc (Suc n)) s"
  shows "yields (dmatest_main rw uw ur buf upd s)
    (\<lambda>(xs, s'). room n s' \<and> view s' = fold put dmatest_writes (view s))"
  unfolding dmatest_main_def
  apply (simp only: yields_bind yields_Some)
  apply (rule yields_config, rule assms, simp add: port_words, simp only: prod.case yields_bind yields_Some)
  apply (rule yields_config, assumption, simp add: port_words, simp only: prod.case yields_bind yields_Some)
  apply (rule same_writes, erule upd_room, simp add: port_words)
  apply (rule yields_reads, assumption, simp add: port_words, simp only: prod.case yields_bind yields_Some)
  apply (rule dmatest_words_run, assumption, simp only: prod.case yields_bind yields_Some)
  apply (rule same_writes, assumption, simp add: port_words)
  apply (rule yields_reads, assumption, simp add: port_words, simp only: prod.case yields_bind yields_Some)
  apply (simp add: upd_view dmatest_writes_def)
  done

end

end
