(* ===== verification/ExampleDevice.thy ===== *)
theory ExampleDevice
  imports ExampleStripes ExampleBuffers PcieDev SimLink
begin

text \<open>
  The example programs over the two links: \<open>simple\<close> over the simulation, whose registers are
  its own user logic, the others over the device, from \<open>Init_Pcie\<close> on.
\<close>

subsection \<open>Simulation\<close>

text \<open>Here the configuration space is never used up.\<close>

interpretation sim_config: config_port "userWriteWord_sim hw_cycle sim_rings"
  "userReadWord_sim hw_cycle sim_rings" "readWord_sim hw_cycle sim_rings" "\<lambda>_. link_quiet"
  link_regs regs_write "\<lambda>r a x. x = regs_read r a"
proof unfold_locales
  fix w and a :: u32
  assume "link_quiet w" "a < CONFIG_BUFFER_SIZE"
  then show "\<exists>x w'. readWord_sim hw_cycle sim_rings a w = Some (x, w') \<and> link_quiet w' \<and>
      link_regs w' = link_regs w \<and> (drop_bit 2 a = 0 \<longrightarrow> x = 0xc001d00d)"
    using sim_config_read by blast
qed (assumption | rule sim_port.write_law sim_port.read_law)+

lemma simple_addrs:
  "drop_bit 2 (0 :: ioaddr) = 0" "drop_bit 2 (4 :: ioaddr) = 1" "drop_bit 2 (8 :: ioaddr) = 2"
  "drop_bit 2 (12 :: ioaddr) = 3" "drop_bit 2 (16 :: ioaddr) = 4" "drop_bit 2 (20 :: ioaddr) = 5"
  "drop_bit 2 (24 :: ioaddr) = 6" "drop_bit 2 (28 :: ioaddr) = 7"
  by (simp_all add: drop_bit_eq_div)

lemma regs_write_at:
  "regs_write (0, d) (b0, b1, n) = (d, b1, n)" "regs_write (4, d) (b0, b1, n) = (b0, d, n)"
  "regs_write (8, d) (b0, b1, n) = (b0, b1, n + 1)" "regs_write (12, d) (b0, b1, n) = (b0, b1, n + 1)"
  by (simp_all only: regs_write_def prod.case simple_addrs) simp_all

lemma regs_write_counts: "(regs_write (8, d) ^^ k) (b0, b1, n) = (b0, b1, n + of_nat k)"
  by (induction k) (simp_all add: regs_write_at ac_simps)

lemma simple_regs_after:
  "fold regs_write simple_writes (b0, b1, n) = (0xcafef00d, 0xdeadbeef, n + 1025)"
  "fold regs_write (take 3 simple_writes) (b0, b1, n) = (0xcafef00d, 0xdeadbeef, n + 1)"
  by (simp_all add: simple_writes_def regs_write_at regs_write_counts)

lemma regs_read_at:
  "regs_read (b0, b1, n) 0 = b0" "regs_read (b0, b1, n) 4 = b1" "regs_read (b0, b1, n) 8 = 0"
  "regs_read (b0, b1, n) 12 = 0" "regs_read (b0, b1, n) 16 = 0" "regs_read (b0, b1, n) 20 = 0"
  "regs_read (b0, b1, n) 24 = 0" "regs_read (b0, b1, n) 28 = 0"
  by (simp_all only: regs_read_def prod.case simple_addrs) simp_all

lemma simple_on_link:
  assumes q: "link_quiet w" and r: "link_regs w = (b0, b1, n)"
  shows "\<exists>w'. simple_main (readWord_sim hw_cycle sim_rings) (userWriteWord_sim hw_cycle sim_rings)
      (userReadWord_sim hw_cycle sim_rings) Ioctl_sim w
    = Some ([0xc001d00d, 0xcafef00d, 0xdeadbeef, 0, 0, 0, 0, 0, 0, 0xdeadbeef], w')
    \<and> link_quiet w' \<and> link_regs w' = (0xcafef00d, 0xdeadbeef, n + 1025)"
proof -
  have "\<And>s. Ioctl_sim 1 0 s = s" by (simp add: Ioctl_sim_def)
  from yieldsE [OF sim_config.simple_main_runs [where ioctl = Ioctl_sim, OF q this]]
  obtain out w' rs x where run: "simple_main (readWord_sim hw_cycle sim_rings)
      (userWriteWord_sim hw_cycle sim_rings) (userReadWord_sim hw_cycle sim_rings) Ioctl_sim w = Some (out, w')"
    and w': "link_quiet w'" "link_regs w' = fold regs_write simple_writes (link_regs w)"
    and out: "out = 0xc001d00d # rs @ [x]" "x = regs_read (link_regs w') 4"
    and rs: "list_all2 (\<lambda>a x. x = regs_read (fold regs_write (take 3 simple_writes) (link_regs w)) a)
      [0, 4, 8, 12, 16, 20, 24, 28] rs"
    by auto
  have "link_regs w' = (0xcafef00d, 0xdeadbeef, n + 1025)" using w'(2) r simple_regs_after(1) by simp
  moreover have "rs = [0xcafef00d, 0xdeadbeef, 0, 0, 0, 0, 0, 0]"
    using rs unfolding r simple_regs_after(2) by (auto simp: list_all2_Cons1 regs_read_at)
  ultimately show ?thesis using run w'(1) out by (simp add: regs_read_at)
qed

subsection \<open>Device\<close>

interpretation pcie_config: config_port "userWriteWord dev_read dev_write" "userReadWord dev_read"
  "readWord dev_read" "pcie_room :: nat \<Rightarrow> bdbm \<times> 'u pcidev \<Rightarrow> bool"
  "\<lambda>s. dev_written (snd s)" "\<lambda>w l. l @ [w]" "\<lambda>_ _ _. True"
  by unfold_locales (simp_all add: pcie_room_write pcie_room_read pcie_room_config pcie_room_less del: split_paired_Ex)

text \<open>The DMA buffer as a part of the state of the user logic: \<open>u\<close> changes it.\<close>

definition pcie_dma_upd ::
  "((mem \<Rightarrow> mem) \<Rightarrow> 'u \<Rightarrow> 'u) \<Rightarrow> (mem \<Rightarrow> mem) \<Rightarrow> bdbm \<times> 'u pcidev \<Rightarrow> bdbm \<times> 'u pcidev" where
  "pcie_dma_upd u f s = (case s of (p, d) \<Rightarrow> (p, d\<lparr>user := u f (user d)\<rparr>))"

interpretation pcie_dma: dma_config_port "userWriteWord dev_read dev_write" "userReadWord dev_read"
  "readWord dev_read" "pcie_room :: nat \<Rightarrow> bdbm \<times> 'u pcidev \<Rightarrow> bool"
  "\<lambda>s. dev_written (snd s)" "\<lambda>w l. l @ [w]" "\<lambda>_ _ _. True" "pcie_dma_upd u"
proof unfold_locales
  fix n f and s :: "bdbm \<times> 'u pcidev"
  assume "pcie_room n s"
  then show "pcie_room n (pcie_dma_upd u f s)" by (cases s) (simp add: pcie_dma_upd_def)
qed (simp add: pcie_dma_upd_def dev_written_def split: prod.splits)

text \<open>A fresh device, after \<open>Init_Pcie\<close>.\<close>

lemma fresh_room:
  assumes "userWriteQ d = []" "userTaken d = []" "dev_live d"
  shows "pcie_room (Suc (Suc 0)) (Init_Pcie dev_write d)" "pcie_room (Suc 0) (Init_Pcie dev_write d)"
    "pcie_room 0 (Init_Pcie dev_write d)" "dev_written (snd (Init_Pcie dev_write d)) = []"
proof -
  note r = Init_Pcie_room [OF assms(1,3)]
  show "pcie_room (Suc (Suc 0)) (Init_Pcie dev_write d)" "pcie_room (Suc 0) (Init_Pcie dev_write d)"
    "pcie_room 0 (Init_Pcie dev_write d)"
    by (rule pcie_room_mono [OF r(1)]; simp)+
  show "dev_written (snd (Init_Pcie dev_write d)) = []" using r(2) assms by (simp add: dev_written_def)
qed

lemma float_on_device:
  assumes "userWriteQ d = []" "userTaken d = []" "dev_live d"
  shows "\<exists>out s'. float_main (readWord dev_read) (userWriteWord dev_read dev_write) (userReadWord dev_read)
      (Init_Pcie dev_write d) = Some (out, s') \<and> magic out = 0xc001d00d \<and> dev_written (snd s') = float_writes"
  using yieldsE [OF pcie_config.float_main_runs [OF fresh_room(2) [OF assms]]] fresh_room(4) [OF assms]
  by (auto simp: fold_snoc)

lemma sortreduce_on_device:
  assumes "userWriteQ d = []" "userTaken d = []" "dev_live d"
  shows "\<exists>s'. sortreduce_setup (userWriteWord dev_read dev_write) rand (Init_Pcie dev_write d) = Some s'
    \<and> dev_written (snd s') = sortreduce_writes rand"
  using yieldsE [OF pcie_config.sortreduce_setup_runs [OF fresh_room(3) [OF assms], of rand]] fresh_room(4) [OF assms]
  by (auto simp: fold_snoc)

lemma dramtest_on_device:
  assumes "userWriteQ d = []" "userTaken d = []" "dev_live d"
  shows "\<exists>s'. dramtest_send (userWriteWord dev_read dev_write) rand (Init_Pcie dev_write d) = Some s'
    \<and> dev_written (snd s') = dramtest_writes rand"
  using yieldsE [OF pcie_config.dramtest_send_runs [OF fresh_room(3) [OF assms], of rand]] fresh_room(4) [OF assms]
  by (auto simp: fold_snoc)

lemma streaming_on_device:
  assumes "userWriteQ d = []" "userTaken d = []" "dev_live d"
  shows "\<exists>xs s'. streaming_start (readWord dev_read) (userWriteWord dev_read dev_write) (userReadWord dev_read)
      (pcie_dma_upd u) (Init_Pcie dev_write d) = Some (xs, s')
    \<and> hd xs = 0xc001d00d \<and> dev_written (snd s') = streaming_writes"
  using yieldsE [OF pcie_dma.streaming_start_runs [OF fresh_room(1) [OF assms], of u]] fresh_room(4) [OF assms]
  by (auto simp: fold_snoc)

lemma dmatest_on_device:
  assumes "userWriteQ d = []" "userTaken d = []" "dev_live d"
  shows "\<exists>xs s'. dmatest_main (readWord dev_read) (userWriteWord dev_read dev_write) (userReadWord dev_read)
      buf (pcie_dma_upd u) (Init_Pcie dev_write d) = Some (xs, s') \<and> dev_written (snd s') = dmatest_writes"
  using yieldsE [OF pcie_dma.dmatest_main_runs [OF fresh_room(1) [OF assms], of buf u]] fresh_room(4) [OF assms]
  by (auto simp: fold_snoc)

subsection \<open>Reads of the configuration space\<close>

text \<open>
  Any interleaving of user accesses with reads of the configuration space: \<open>Config a\<close> is
  \<open>readWord a\<close>.
\<close>

datatype hostop = Config u32 | User pio

fun run_host ::
  "(u32 \<Rightarrow> 's \<Rightarrow> (u32 \<times> 's) option) \<Rightarrow> (u32 \<Rightarrow> u32 \<Rightarrow> 's \<Rightarrow> 's option) \<Rightarrow> (u32 \<Rightarrow> 's \<Rightarrow> (u32 \<times> 's) option)
    \<Rightarrow> hostop list \<Rightarrow> 's \<Rightarrow> (u32 list \<times> 's) option" where
  "run_host rw uw ur [] s = Some ([], s)"
| "run_host rw uw ur (Config a # ops) s =
     do { (x, s) \<leftarrow> rw a s; (xs, s) \<leftarrow> run_host rw uw ur ops s; Some (x # xs, s) }"
| "run_host rw uw ur (User op # ops) s =
     do { (ys, s) \<leftarrow> run_pio uw ur [op] s; (xs, s) \<leftarrow> run_host rw uw ur ops s; Some (ys @ xs, s) }"

primrec hostop_ok :: "hostop \<Rightarrow> bool" where
  "hostop_ok (Config a) \<longleftrightarrow> a < CONFIG_BUFFER_SIZE"
| "hostop_ok (User op) \<longleftrightarrow> user_word (pio_addr op)"

definition config_reads :: "hostop list \<Rightarrow> nat" where
  "config_reads ops = length (filter (\<lambda>op. case op of Config a \<Rightarrow> True | User p \<Rightarrow> False) ops)"

lemma config_reads_simps [simp]:
  "config_reads [] = 0" "config_reads (Config a # ops) = Suc (config_reads ops)"
  "config_reads (User op # ops) = config_reads ops"
  by (simp_all add: config_reads_def)

context config_port
begin

lemma run_host_returns:
  assumes "room (n + config_reads ops) s" "list_all hostop_ok ops"
  shows "yields (run_host rw uw ur ops s) (\<lambda>(xs, s'). room n s')"
  using assms
proof (induction ops arbitrary: s)
  case Nil
  then show ?case by simp
next
  case (Cons op ops)
  show ?case
  proof (cases op)
    case (Config a)
    have "yields (rw a s) (\<lambda>(x, s1). yields (run_host rw uw ur ops s1) (\<lambda>(xs, s'). room n s'))"
      using Cons.prems Config by (intro yields_config [where n = "n + config_reads ops"]) (simp_all add: Cons.IH)
    then show ?thesis unfolding Config by (simp add: case_prod_unfold)
  next
    case (User p)
    obtain ys s1 where s1: "run_pio uw ur [p] s = Some (ys, s1)" "room (n + config_reads ops) s1"
      using user.run_returns [of "n + config_reads ops" s "[p]"] Cons.prems User by auto
    then show ?thesis using Cons.IH [OF s1(2)] Cons.prems User
      by (simp add: case_prod_unfold del: run_pio.simps)
  qed
qed

end

lemma device_config_reads:
  assumes "userWriteQ d = []" "dev_live d" "list_all hostop_ok ops" "config_reads ops \<le> 511"
  shows "\<exists>xs s. run_host (readWord dev_read) (userWriteWord dev_read dev_write) (userReadWord dev_read) ops
    (Init_Pcie dev_write d) = Some (xs, s)"
proof -
  have "pcie_room (0 + config_reads ops) (Init_Pcie dev_write d)"
    using pcie_room_mono [OF Init_Pcie_room(1) [OF assms(1,2)]] assms(4) by simp
  from yieldsE [OF pcie_config.run_host_returns [OF this assms(3)]] show ?thesis by auto
qed

end
