(* ===== verification/ExampleWaits.thy ===== *)
theory ExampleWaits
  imports Examples
begin

text \<open>
  The loops of the example programs that wait for the hardware, over a port whose hardware
  comes to an end: \<open>todo\<close> bounds the accesses it still needs, every read leaves fewer of them,
  and once nothing is left a read of \<open>a\<close> answers what \<open>fin a\<close> allows.
\<close>

locale finishing_port = read_port +
  fixes todo :: "'a \<Rightarrow> nat"
    and fin :: "ioaddr \<Rightarrow> u32 \<Rightarrow> bool"
  assumes todo_read: "room n s \<Longrightarrow> user_word a \<Longrightarrow> ur a s = Some (x, s') \<Longrightarrow>
      todo s' \<le> todo s - 1 \<and> (todo s = 0 \<longrightarrow> fin (ucast a) x)"
    and todo_config: "room (Suc n) s \<Longrightarrow> a < CONFIG_BUFFER_SIZE \<Longrightarrow> rw a s = Some (x, s') \<Longrightarrow> todo s' \<le> todo s"
begin

lemma yields_todo:
  assumes "room n s" "user_word a"
    and "\<And>x s'. room n s' \<Longrightarrow> view s' = view s \<Longrightarrow> todo s' \<le> todo s - 1 \<Longrightarrow>
      (todo s = 0 \<Longrightarrow> fin (ucast a) x) \<Longrightarrow> Q (x, s')"
  shows "yields (ur a s) Q"
proof -
  obtain x s' where r: "ur a s = Some (x, s')" "room n s'" "view s' = view s"
    using read_returns [OF assms(1,2)] by blast
  with todo_read [OF assms(1,2) r(1)] have "Q (x, s')" by (intro assms(3)) simp_all
  with r(1) show ?thesis by simp
qed

lemma yields_todo_config:
  assumes "room (Suc n) s" "a < CONFIG_BUFFER_SIZE"
    and "\<And>x s'. room n s' \<Longrightarrow> view s' = view s \<Longrightarrow> todo s' \<le> todo s \<Longrightarrow> Q (x, s')"
  shows "yields (rw a s) Q"
proof -
  obtain x s' where r: "rw a s = Some (x, s')" "room n s'" "view s' = view s"
    using config_returns [OF assms(1,2)] by blast
  with todo_config [OF assms(1,2) r(1)] have "Q (x, s')" by (intro assms(3)) simp_all
  with r(1) show ?thesis by simp
qed

lemma room_mono: "room n s \<Longrightarrow> k \<le> n \<Longrightarrow> room k s"
  by (induction n) (auto simp: le_Suc_eq intro: reads_less)

subsection \<open>\<open>dramtest\<close>\<close>

lemma dramtest_wait_returns:
  assumes "room n s" "\<And>x. fin 32 x \<Longrightarrow> x \<noteq> 0"
  shows "yields (dramtest_wait ur s) (\<lambda>(cycles, s'). cycles \<noteq> 0 \<and> room n s' \<and> view s' = view s)"
proof -
  have u: "user_word 32" "ucast (32 :: u32) = (32 :: ioaddr)" by (simp_all add: user_word_def)
  have body: "(case r of None \<Rightarrow> None | Some (cycles, s) \<Rightarrow> ur 32 s) = Option.bind r (\<lambda>(cycles, s). ur 32 s)"
    for r :: "(u32 \<times> 'a) option"
    by (cases r) simp_all
  obtain x0 s0 where s0: "ur 32 s = Some (x0, s0)" "room n s0" "view s0 = view s"
    using read_returns [OF assms(1) u(1)] by blast
  show ?thesis
    unfolding dramtest_wait_def s0(1) body
  proof (rule yields_while [where P = "\<lambda>(c, s'). room n s' \<and> view s' = view s" and m = "\<lambda>(c, s). todo s"])
    fix r :: "u32 \<times> 'a" assume p: "case r of (c, s') \<Rightarrow> room n s' \<and> view s' = view s"
    obtain c s1 where r: "r = (c, s1)" by (cases r)
    have "yields (ur 32 s1) (\<lambda>(c', s2). (room n s2 \<and> view s2 = view s) \<and> (c' = 0 \<longrightarrow> todo s2 < todo s1))"
      using p r assms(2) by (intro yields_todo [OF _ u(1)]) (fastforce simp: u(2))+
    then show "yields (case r of (cycles, s) \<Rightarrow> ur 32 s) (\<lambda>r'. (case r' of (c, s') \<Rightarrow> room n s' \<and> view s' = view s)
        \<and> ((case r' of (cycles, s) \<Rightarrow> cycles = 0) \<longrightarrow>
           (case r' of (c, s) \<Rightarrow> todo s) < (case r of (c, s) \<Rightarrow> todo s)))"
      unfolding r by (simp add: case_prod_unfold)
  qed (use s0 in auto)
qed

subsection \<open>\<open>sortreduce\<close>\<close>

lemma stripe_poll_returns:
  assumes "room n s" "\<And>x. fin 0 x \<Longrightarrow> x \<noteq> 0" "\<And>x. fin 4 x \<Longrightarrow> k < x"
  shows "yields (stripe_poll ur (e, g, s)) (\<lambda>(e', g', s'). room n s' \<and> view s' = view s
    \<and> (e' = 0 \<or> g' \<le> k \<longrightarrow> todo s' < todo s))"
proof -
  have u: "user_word 0" "user_word 4" "ucast (4 :: u32) = (4 :: ioaddr)" by (simp_all add: user_word_def)
  show ?thesis
    unfolding stripe_poll_def prod.case yields_bind
  proof (rule yields_todo [OF assms(1) u(1)], unfold prod.case yields_bind)
    fix e2 s2
    assume s2: "room n s2" "view s2 = view s" "todo s2 \<le> todo s - 1" "todo s = 0 \<Longrightarrow> fin (ucast (0 :: u32)) e2"
    show "yields (ur 4 s2) (\<lambda>r. yields (case r of (g, s) \<Rightarrow> Some (e2, g, s)) (\<lambda>(e', g', s'). room n s' \<and> view s' = view s
        \<and> (e' = 0 \<or> g' \<le> k \<longrightarrow> todo s' < todo s)))"
    proof (rule yields_todo [OF s2(1) u(2)])
      fix g3 s3
      assume s3: "room n s3" "view s3 = view s2" "todo s3 \<le> todo s2 - 1" "todo s2 = 0 \<Longrightarrow> fin (ucast (4 :: u32)) g3"
      have "e2 \<noteq> 0 \<and> k < g3" if "todo s = 0"
        using that s2(3,4) s3(4) assms(2) [of e2] assms(3) [of g3] u(3) by simp
      then show "yields (case (g3, s3) of (g, s) \<Rightarrow> Some (e2, g, s)) (\<lambda>(e', g', s'). room n s' \<and> view s' = view s
          \<and> (e' = 0 \<or> g' \<le> k \<longrightarrow> todo s' < todo s))"
        using s2 s3 by (cases "todo s = 0") (auto simp: not_le)
    qed
  qed
qed

lemma stripe_wait_returns:
  assumes "room n s" "\<And>x. fin 0 x \<Longrightarrow> x \<noteq> 0" "\<And>x. fin 4 x \<Longrightarrow> k < x"
  shows "yields (stripe_wait ur k (e, g, s))
    (\<lambda>(e', g', s'). e' \<noteq> 0 \<and> k < g' \<and> room n s' \<and> view s' = view s)"
  unfolding stripe_wait_def
proof (rule yields_while [where P = "\<lambda>(e :: u32, g :: u32, s'). room n s' \<and> view s' = view s" and m = "\<lambda>(e, g, s). todo s"])
  fix r :: "u32 \<times> u32 \<times> 'a" assume p: "case r of (e, g, s') \<Rightarrow> room n s' \<and> view s' = view s"
  obtain e1 g1 s1 where r: "r = (e1, g1, s1)" by (cases r)
  show "yields (stripe_poll ur r) (\<lambda>r'. (case r' of (e, g, s') \<Rightarrow> room n s' \<and> view s' = view s)
      \<and> ((case r' of (elapsed, g, s) \<Rightarrow> elapsed = 0 \<or> g \<le> k) \<longrightarrow>
         (case r' of (e, g, s) \<Rightarrow> todo s) < (case r of (e, g, s) \<Rightarrow> todo s)))"
    using p unfolding r by (intro yields_mono [OF stripe_poll_returns [where k = k, OF _ assms(2,3)]]) auto
qed (use assms(1) in auto)

end

text \<open>What \<open>sortreduce\<close> prints: the counts of finished stripes, each larger than the one before.\<close>

definition rising :: "(u32 \<times> u32) list \<Rightarrow> u32 \<Rightarrow> bool" where
  "rising out g \<longleftrightarrow> sorted_wrt (<) (map snd out) \<and> (\<forall>(e, h) \<in> set out. e \<noteq> 0 \<and> h \<le> g)
    \<and> (if out = [] then g = 0 else snd (last out) = g)"

lemma rising_snoc: "rising out g \<Longrightarrow> e \<noteq> 0 \<Longrightarrow> g < h \<Longrightarrow> rising (out @ [(e, h)]) h"
  by (fastforce simp: rising_def sorted_wrt_append)

context finishing_port
begin

lemma stripe_round_returns:
  assumes "room n s" "rising out g" "\<And>x. fin 0 x \<Longrightarrow> x \<noteq> 0" "\<And>x. fin 4 x \<Longrightarrow> g < x"
  shows "yields (stripe_round ur (e, g, out, s))
    (\<lambda>(e', g', out', s'). g < g' \<and> rising out' g' \<and> room n s' \<and> view s' = view s)"
  unfolding stripe_round_def prod.case yields_bind
proof (rule yields_read [OF assms(1)], simp add: user_word_def, unfold prod.case yields_bind)
  fix g2 s2 assume s2: "room n s2" "view s2 = view s"
  show "yields (stripe_wait ur g (e, g2, s2)) (\<lambda>r. yields (case r of (e, g, s) \<Rightarrow> Some (e, g, out @ [(e, g)], s))
      (\<lambda>(e', g', out', s'). g < g' \<and> rising out' g' \<and> room n s' \<and> view s' = view s))"
    using s2(2) rising_snoc [OF assms(2)]
    by (intro yields_mono [OF stripe_wait_returns [OF s2(1) assms(3,4)]]) auto
qed

lemma sortreduce_wait_returns:
  assumes "room n s" "\<And>x. fin 0 x \<Longrightarrow> x \<noteq> 0" "\<And>x. fin 4 x \<Longrightarrow> stripecnt \<le> x"
  shows "yields (sortreduce_wait ur s)
    (\<lambda>(out, s'). (\<exists>g. rising out g \<and> stripecnt \<le> g) \<and> room n s' \<and> view s' = view s)"
proof -
  have cases: "(case w of None \<Rightarrow> None | Some r \<Rightarrow> do { (elapsed, donestripes, out, s) \<leftarrow> r; Some (out, s) })
      = Option.bind (case w of None \<Rightarrow> None | Some r \<Rightarrow> r) (\<lambda>(elapsed, donestripes, out, s). Some (out, s))"
    for w :: "((u32 \<times> u32 \<times> (u32 \<times> u32) list \<times> 'a) option) option"
    by (cases w) simp_all
  let ?P = "\<lambda>(e :: u32, g, out, s'). rising out g \<and> room n s' \<and> view s' = view s"
  show ?thesis
    unfolding sortreduce_wait_def cases yields_bind
  proof (rule yields_while [where P = ?P and m = "\<lambda>(e, g, out, s). 256 - unat g"])
    fix r assume p: "?P r" and b: "case r of (elapsed, donestripes, out, s) \<Rightarrow> donestripes < stripecnt"
    obtain e1 g1 out s1 where r: "r = (e1, g1, out, s1)" by (cases r)
    have ret: "yields (stripe_round ur (e1, g1, out, s1))
        (\<lambda>(e', g', out', s'). g1 < g' \<and> rising out' g' \<and> room n s' \<and> view s' = view s1)"
      using p b r by (intro stripe_round_returns assms(2)) (auto dest!: assms(3))
    show "yields (stripe_round ur r)
        (\<lambda>r'. ?P r' \<and> ((case r' of (elapsed, donestripes, out, s) \<Rightarrow> donestripes < stripecnt) \<longrightarrow>
          (case r' of (e, g, out, s) \<Rightarrow> 256 - unat g) < (case r of (e, g, out, s) \<Rightarrow> 256 - unat g)))"
      using p unfolding r by (intro yields_mono [OF ret]) (auto simp: stripecnt_def buffermb_def outstripemb_def word_less_nat_alt)
  next
    show "?P (0, 0, [], s)" using assms(1) by (simp add: rising_def)
  qed (auto simp: not_less)
qed

subsection \<open>\<open>streaming\<close>\<close>

text \<open>
  The loop polls at most \<open>todo\<close> times and one more; each full 10000 of the polls use up one read of
  the configuration space.
\<close>

lemma streaming_poll_returns:
  assumes "room (n + (N div 10000 - k div 10000)) s" "k + todo s \<le> N" "\<And>x. fin 4 x \<Longrightarrow> pagecnt \<le> x"
  shows "yields (streaming_poll rw ur (pages, k, s)) (\<lambda>(pages', k', s'). k' + todo s' \<le> N
    \<and> room (n + (N div 10000 - k' div 10000)) s' \<and> view s' = view s \<and> (pages' < pagecnt \<longrightarrow> todo s' < todo s))"
    (is "yields _ ?Q")
  unfolding streaming_poll_def prod.case yields_bind
proof (rule yields_todo [OF assms(1)], simp add: user_word_def, unfold prod.case)
  have u: "(4 :: u32) < CONFIG_BUFFER_SIZE" "ucast (4 :: u32) = (4 :: ioaddr)" by (simp_all add: CONFIG_BUFFER_SIZE_def)
  fix x s2
  assume s2: "room (n + (N div 10000 - k div 10000)) s2" "view s2 = view s" "todo s2 \<le> todo s - 1"
    and f: "todo s = 0 \<Longrightarrow> fin (ucast (4 :: u32)) x"
  have t: "todo s2 < todo s \<and> k + 1 + todo s2 \<le> N" if "\<not> x \<ge> pagecnt"
    using that f assms(2) assms(3) [of x] s2(3) u(2) by (cases "todo s = 0") auto
  have d: "(k + 1) div 10000 = (if (k + 1) mod 10000 = 0 then Suc (k div 10000) else k div 10000)"
    by (simp add: div_Suc)
  have "yields (rw 4 s2) (\<lambda>(debug, s). ?Q (x, k + 1, s))" if "\<not> x \<ge> pagecnt" "(k + 1) mod 10000 = 0"
  proof -
    have "(k + 1) div 10000 \<le> N div 10000" using t [OF that(1)] by (intro div_le_mono) simp
    then have n: "n + (N div 10000 - k div 10000) = Suc (n + (N div 10000 - (k + 1) div 10000))"
      using d that(2) by simp linarith
    show ?thesis using t [OF that(1)] s2(2) by (intro yields_todo_config [OF s2(1) [unfolded n] u(1)]) auto
  qed
  then show "yields (if pagecnt \<le> x then Some (x, k, s2)
      else if (k + 1) mod 10000 = 0 then rw 4 s2 \<bind> (\<lambda>(debug, s). Some (x, k + 1, s)) else Some (x, k + 1, s2)) ?Q"
    using t d s2 assms(2) by (auto simp: case_prod_unfold)
qed

lemma streaming_wait_returns:
  assumes "room (n + todo s div 10000) s" "\<And>x. fin 4 x \<Longrightarrow> pagecnt \<le> x"
  shows "yields (streaming_wait rw ur s) (\<lambda>s'. room n s' \<and> view s' = view s)"
proof -
  have cases: "(case w of None \<Rightarrow> None | Some r \<Rightarrow> do { (pages, sleepcnt, s) \<leftarrow> r; Some s })
      = Option.bind (case w of None \<Rightarrow> None | Some r \<Rightarrow> r) (\<lambda>(pages, sleepcnt, s). Some s)"
    for w :: "((u32 \<times> nat \<times> 'a) option) option"
    by (cases w) simp_all
  let ?P = "\<lambda>(pages :: u32, k :: nat, s'). k + todo s' \<le> todo s
    \<and> room (n + (todo s div 10000 - k div 10000)) s' \<and> view s' = view s"
  show ?thesis
    unfolding streaming_wait_def cases yields_bind
  proof (rule yields_while [where P = ?P and m = "\<lambda>(pages, k, s). todo s"])
    fix r assume p: "?P r"
    obtain pg k s1 where r: "r = (pg, k, s1)" by (cases r)
    show "yields (streaming_poll rw ur r)
        (\<lambda>r'. ?P r' \<and> ((case r' of (pages, sleepcnt, s) \<Rightarrow> pages < pagecnt) \<longrightarrow>
          (case r' of (pages, k, s) \<Rightarrow> todo s) < (case r of (pages, k, s) \<Rightarrow> todo s)))"
      using p unfolding r by (intro yields_mono [OF streaming_poll_returns]) (auto intro: assms(2))
  next
    fix r assume "?P r"
    then show "yields (case r of (pages, sleepcnt, s) \<Rightarrow> Some s) (\<lambda>s'. room n s' \<and> view s' = view s)"
      by (cases r) (auto intro: room_mono)
  qed (use assms(1) in simp)
qed

end

end
