(* ===== verification/DeviceWaits.thy ===== *)
theory DeviceWaits
  imports ExampleDevice ExampleWaits PcieLeak
begin

text \<open>
  The loops of the examples that wait, over the device: with user logic that finishes they end,
  and whole programs return; the loop of \<open>streaming\<close> never ends when that takes too long.
\<close>

subsection \<open>User logic that finishes\<close>

text \<open>
  \<open>R ws u\<close> says that the user logic can be in the state \<open>u\<close> after it took the writes \<open>ws\<close>: it holds
  of the device now and is kept by writes, by the logic's own moves and by what the program
  does to the DMA buffer (\<open>upd\<close>). Once the logic has taken all writes \<open>W\<close> of a program it needs
  at most \<open>c\<close> more accesses of the host, \<open>need u\<close> of them in the state \<open>u\<close>. Nothing is asked of
  the states before.
\<close>

definition dev_finishes ::
  "((mem \<Rightarrow> mem) \<Rightarrow> 'u \<Rightarrow> 'u) \<Rightarrow> ((ioaddr \<times> u32) list \<Rightarrow> 'u \<Rightarrow> bool) \<Rightarrow> (ioaddr \<times> u32) list \<Rightarrow> ('u \<Rightarrow> nat) \<Rightarrow> nat
    \<Rightarrow> ('u \<Rightarrow> ioaddr \<Rightarrow> u32) \<Rightarrow> 'u pcidev \<Rightarrow> bool" where
  "dev_finishes upd R W need c get d \<longleftrightarrow> dev_live d \<and> user_get d = get \<and> R (userTaken d) (user d)
    \<and> (\<forall>ws w u. R ws u \<longrightarrow> R (ws @ [w]) (user_put d w u)) \<and> (\<forall>ws t u. R ws u \<longrightarrow> R ws (user_run d t u))
    \<and> (\<forall>ws f u. R ws u \<longrightarrow> R ws (upd f u))
    \<and> (\<forall>t u. R W u \<longrightarrow> need u \<le> c \<and> need (user_run d t u) \<le> need u - 1)"

text \<open>What is left to do when all writes have been made.\<close>

definition dev_todo :: "('u \<Rightarrow> nat) \<Rightarrow> nat \<Rightarrow> 'u pcidev \<Rightarrow> nat" where
  "dev_todo need c d = (if userWriteQ d = [] then need (user d) else length (userWriteQ d) * (c + 1))"

lemma finishes_same_logic:
  "user_takes d' = user_takes d \<Longrightarrow> user_get d' = user_get d \<Longrightarrow> user_run d' = user_run d \<Longrightarrow> user_put d' = user_put d
    \<Longrightarrow> R (userTaken d') (user d') \<Longrightarrow> dev_finishes upd R W need c get d \<Longrightarrow> dev_finishes upd R W need c get d'"
  by (simp add: dev_finishes_def dev_live_def)

lemma logic_takes_writes:
  assumes "\<And>ws w u. R ws u \<Longrightarrow> R (ws @ [w]) (put w u)"
  shows "R ws u \<Longrightarrow> R (ws @ xs) (fold put xs u)"
proof (induction xs arbitrary: ws u)
  case (Cons x xs)
  then show ?case using assms [of ws u x] Cons.IH [of "ws @ [x]"] by simp
qed simp

lemma finishes_advance:
  assumes "dev_finishes upd R W need c get d"
  shows "dev_finishes upd R W need c get (dev_advance d)"
proof (rule finishes_same_logic [OF _ _ _ _ _ assms])
  have "R ws u \<Longrightarrow> R (ws @ [w]) (user_put d w u)" for ws w u
    using assms unfolding dev_finishes_def by blast
  then have "R ws u \<Longrightarrow> R (ws @ xs) (fold (user_put d) xs u)" for ws u xs
    by (rule logic_takes_writes)
  then show "R (userTaken (dev_advance d)) (user (dev_advance d))"
    using assms by (simp add: dev_finishes_def dev_advance_def Let_def)
qed (simp_all add: dev_advance_def Let_def)

lemma finishes_user: "dev_finishes upd R W need c get d \<Longrightarrow> dev_finishes upd R W need c get (d\<lparr>user := upd f (user d)\<rparr>)"
  by (rule finishes_same_logic [of _ d]) (simp_all add: dev_finishes_def)

lemma finishes_access:
  assumes "dev_finishes upd R W need c get d"
  shows "dev_finishes upd R W need c get (snd (dev_read d i))" "dev_finishes upd R W need c get (dev_write d i v)"
  using finishes_advance [OF assms]
  by (auto simp: dev_finishes_def dev_live_def dev_read_def dev_write_def Let_def)

lemma todo_advance:
  assumes f: "dev_finishes upd R W need c get d" and w: "dev_written d = W"
  shows "dev_todo need c (dev_advance d) \<le> dev_todo need c d - 1"
proof -
  have done_W: "R W (user (dev_advance d))" if "userWriteQ (dev_advance d) = []"
  proof -
    have "userTaken (dev_advance d) = W"
      using w advance_views(2) [of d] that by (simp add: dev_written_def)
    then show ?thesis using finishes_advance [OF f] by (simp add: dev_finishes_def)
  qed
  show ?thesis
  proof (cases "userWriteQ d")
    case Nil
    then have "R W (user d)" using f w by (simp add: dev_finishes_def dev_written_def)
    then show ?thesis using f Nil by (simp add: dev_todo_def dev_advance_def dev_finishes_def Let_def)
  next
    case (Cons x xs)
    let ?n = "min (user_takes d (dtick d)) (length (userWriteQ d))"
    have n: "0 < ?n" using Cons f by (simp add: dev_finishes_def dev_live_def)
    have "length (userWriteQ (dev_advance d)) \<le> length xs"
      using n Cons by (simp add: dev_advance_def Let_def)
    then have "length (userWriteQ (dev_advance d)) * (c + 1) \<le> length xs * (c + 1)" by (rule mult_le_mono1)
    moreover have "need (user (dev_advance d)) \<le> c" if "userWriteQ (dev_advance d) = []"
      using done_W [OF that] f by (simp add: dev_finishes_def)
    ultimately show ?thesis using Cons by (cases "userWriteQ (dev_advance d) = []") (auto simp: dev_todo_def)
  qed
qed

lemma todo_read: "dev_todo need c (snd (dev_read d i)) = dev_todo need c (dev_advance d)"
  by (simp add: dev_todo_def dev_read_def Let_def)

lemma finished_read:
  assumes "dev_finishes upd R W need c get d" "dev_written d = W" "dev_todo need c d = 0" "user_index i"
  shows "\<exists>u. R W u \<and> need u = 0 \<and> fst (dev_read d i) = get u (bar_addr i - io_userspace_offset)"
proof -
  have q: "userWriteQ d = []" using assms(3) by (simp add: dev_todo_def split: if_splits)
  then have q1: "userWriteQ (dev_advance d) = []" by (simp add: dev_advance_def Let_def)
  have "userTaken (dev_advance d) = W" using assms(2) advance_views(2) [of d] q1 by (simp add: dev_written_def)
  then have "R W (user (dev_advance d))" using finishes_advance [OF assms(1)] by (simp add: dev_finishes_def)
  moreover have "need (user (dev_advance d)) = 0"
    using todo_advance [OF assms(1,2)] assms(3) q1 by (simp add: dev_todo_def)
  moreover have "user_get d = get" using assms(1) by (simp add: dev_finishes_def)
  ultimately show ?thesis using dev_read_user(2) [OF assms(4), of d] by blast
qed

subsection \<open>The library over it\<close>

definition finishing_room ::
  "((mem \<Rightarrow> mem) \<Rightarrow> 'u \<Rightarrow> 'u) \<Rightarrow> ((ioaddr \<times> u32) list \<Rightarrow> 'u \<Rightarrow> bool) \<Rightarrow> (ioaddr \<times> u32) list \<Rightarrow> ('u \<Rightarrow> nat) \<Rightarrow> nat
    \<Rightarrow> ('u \<Rightarrow> ioaddr \<Rightarrow> u32) \<Rightarrow> nat \<Rightarrow> bdbm \<times> 'u pcidev \<Rightarrow> bool" where
  "finishing_room upd R W need c get n s \<longleftrightarrow> pcie_room n s \<and> dev_finishes upd R W need c get (snd s)"

text \<open>Behind the program's last write.\<close>

definition waiting_room ::
  "((mem \<Rightarrow> mem) \<Rightarrow> 'u \<Rightarrow> 'u) \<Rightarrow> ((ioaddr \<times> u32) list \<Rightarrow> 'u \<Rightarrow> bool) \<Rightarrow> (ioaddr \<times> u32) list \<Rightarrow> ('u \<Rightarrow> nat) \<Rightarrow> nat
    \<Rightarrow> ('u \<Rightarrow> ioaddr \<Rightarrow> u32) \<Rightarrow> nat \<Rightarrow> bdbm \<times> 'u pcidev \<Rightarrow> bool" where
  "waiting_room upd R W need c get n s \<longleftrightarrow> finishing_room upd R W need c get n s \<and> dev_written (snd s) = W"

definition may_finish ::
  "((ioaddr \<times> u32) list \<Rightarrow> 'u \<Rightarrow> bool) \<Rightarrow> (ioaddr \<times> u32) list \<Rightarrow> ('u \<Rightarrow> nat) \<Rightarrow> ('u \<Rightarrow> ioaddr \<Rightarrow> u32) \<Rightarrow> ioaddr \<Rightarrow> u32 \<Rightarrow> bool" where
  "may_finish R W need get a x \<longleftrightarrow> (\<exists>u. R W u \<and> need u = 0 \<and> x = get u a)"

text \<open>A read looks at the device once or twice.\<close>

lemma readWord_device:
  assumes r: "pcie_room n s" and a: "in_bar0 (drop_bit 2 a)" and s': "readWord dev_read a s = Some (x, s')"
  shows "\<exists>d1. (d1 = snd s \<or> d1 = snd (dev_read (snd s) remit_idx)) \<and> (x, snd s') = dev_read d1 (drop_bit 2 a)"
proof -
  obtain p d where s: "s = (p, d)" by (cases s)
  obtain k where k: "dev_live.write_window (p, d)" "dev_live.read_lag k (p, d)" "k + n < 512"
    using r by (auto simp: pcie_room_def s)
  then show ?thesis using dev_live.readWord_lag [OF k(1,2) _ a] s' by (auto simp: s)
qed

lemma readWord_finishes:
  assumes r: "finishing_room upd R W need c get n s" and a: "in_bar0 (drop_bit 2 a)"
    and s': "readWord dev_read a s = Some (x, s')"
  shows "dev_finishes upd R W need c get (snd s')"
    "dev_written (snd s) = W \<Longrightarrow> dev_todo need c (snd s') \<le> dev_todo need c (snd s) - 1"
    "dev_written (snd s) = W \<Longrightarrow> user_index (drop_bit 2 a) \<Longrightarrow> dev_todo need c (snd s) = 0 \<Longrightarrow>
      may_finish R W need get (bar_addr (drop_bit 2 a) - io_userspace_offset) x"
proof -
  let ?d = "snd s"
  have f: "dev_finishes upd R W need c get ?d" "pcie_room n s" using r by (simp_all add: finishing_room_def)
  obtain d1 where d1: "d1 = ?d \<or> d1 = snd (dev_read ?d remit_idx)" "(x, snd s') = dev_read d1 (drop_bit 2 a)"
    using readWord_device [OF f(2) a s'] by blast
  have f1: "dev_finishes upd R W need c get d1" using d1(1) f(1) finishes_access(1) by auto
  have t1: "dev_todo need c d1 \<le> dev_todo need c ?d" "dev_written d1 = W" if "dev_written ?d = W"
    using d1(1) todo_read [of need c ?d remit_idx] todo_advance [OF f(1) that] that by auto
  have d': "snd s' = snd (dev_read d1 (drop_bit 2 a))" "x = fst (dev_read d1 (drop_bit 2 a))"
    by (simp_all flip: d1(2))
  show "dev_finishes upd R W need c get (snd s')" unfolding d'(1) by (rule finishes_access(1) [OF f1])
  show "dev_todo need c (snd s') \<le> dev_todo need c ?d - 1" if "dev_written ?d = W"
    using todo_advance [OF f1 t1(2) [OF that]] t1(1) [OF that] unfolding d'(1) todo_read by simp
  show "may_finish R W need get (bar_addr (drop_bit 2 a) - io_userspace_offset) x"
    if "dev_written ?d = W" "user_index (drop_bit 2 a)" "dev_todo need c ?d = 0"
    using finished_read [OF f1 t1(2) [OF that(1)] _ that(2)] t1(1) [OF that(1)] that(3) d'(2)
    by (auto simp: may_finish_def)
qed

lemma writeWord_finishes:
  assumes "userWriteWord dev_read dev_write a v s = Some s'" "dev_finishes upd R W need c get (snd s)"
  shows "dev_finishes upd R W need c get (snd s')"
proof -
  have w: "writeWord dev_read dev_write (a + CONFIG_BUFFER_SIZE) v (fst s, snd s) = Some (fst s', snd s')"
    using assms(1) by (simp add: userWriteWord_def)
  obtain d1 i where "dev_finishes upd R W need c get d1" "snd s' = dev_write d1 i v"
    using writeWord_device [OF w, of "\<lambda>_. dev_finishes upd R W need c get"] assms(2) finishes_access(1) by blast
  then show ?thesis using finishes_access(2) by simp
qed

text \<open>The program's own writes, and what it does to the DMA buffer.\<close>

interpretation pcie_setup: dma_config_port "userWriteWord dev_read dev_write" "userReadWord dev_read"
  "readWord dev_read" "finishing_room upd R W need c get" "\<lambda>s. dev_written (snd s)" "\<lambda>w l. l @ [w]" "\<lambda>_ _ _. True"
  "pcie_dma_upd upd" for upd :: "(mem \<Rightarrow> mem) \<Rightarrow> 'u \<Rightarrow> 'u" and R W need c get
proof unfold_locales
  fix n a v and s :: "bdbm \<times> 'u pcidev"
  assume r: "finishing_room upd R W need c get n s" and "user_word a"
  then obtain s' where s': "userWriteWord dev_read dev_write a v s = Some s'" "pcie_room n s'"
    "dev_written (snd s') = dev_written (snd s) @ [(ucast a, v)]"
    using pcie_room_write [of n s a v] unfolding finishing_room_def by blast
  moreover have "finishing_room upd R W need c get n s'"
    using writeWord_finishes [OF s'(1)] s'(2) r by (simp add: finishing_room_def)
  ultimately show "\<exists>s'. userWriteWord dev_read dev_write a v s = Some s' \<and> finishing_room upd R W need c get n s' \<and>
      dev_written (snd s') = dev_written (snd s) @ [(ucast a, v)]" by blast
next
  fix n a and s :: "bdbm \<times> 'u pcidev"
  assume r: "finishing_room upd R W need c get n s" and a: "user_word a"
  then obtain x s' where s': "userReadWord dev_read a s = Some (x, s')" "pcie_room n s'"
    "dev_written (snd s') = dev_written (snd s)"
    using pcie_room_read [of n s a] by (auto simp: finishing_room_def)
  have "in_bar0 (drop_bit 2 (a + CONFIG_BUFFER_SIZE))" using user_word_index(1) [OF a] by (simp add: user_index_def)
  then have "dev_finishes upd R W need c get (snd s')"
    using readWord_finishes(1) [OF r _ s'(1) [unfolded userReadWord_def]] by simp
  then show "\<exists>x s'. userReadWord dev_read a s = Some (x, s') \<and> finishing_room upd R W need c get n s' \<and>
      dev_written (snd s') = dev_written (snd s) \<and> True"
    using s' by (auto simp: finishing_room_def)
next
  fix n a and s :: "bdbm \<times> 'u pcidev"
  assume r: "finishing_room upd R W need c get (Suc n) s" and a: "a < CONFIG_BUFFER_SIZE"
  then obtain x s' where s': "readWord dev_read a s = Some (x, s')" "pcie_room n s'"
    "dev_written (snd s') = dev_written (snd s)" "drop_bit 2 a = 0 \<longrightarrow> x = 0xc001d00d"
    using pcie_room_config [of n s a] by (auto simp: finishing_room_def)
  then show "\<exists>x s'. readWord dev_read a s = Some (x, s') \<and> finishing_room upd R W need c get n s' \<and>
      dev_written (snd s') = dev_written (snd s) \<and> (drop_bit 2 a = 0 \<longrightarrow> x = 0xc001d00d)"
    using readWord_finishes(1) [OF r config_access(1) [OF a] s'(1)] by (auto simp: finishing_room_def)
next
  fix n f and s :: "bdbm \<times> 'u pcidev"
  assume "finishing_room upd R W need c get n s"
  then show "finishing_room upd R W need c get n (pcie_dma_upd upd f s)"
    by (cases s) (simp add: pcie_dma_upd_def finishing_room_def finishes_user)
qed (auto simp: finishing_room_def pcie_dma_upd_def dev_written_def intro: pcie_room_less split: prod.splits)

text \<open>Its waiting loops.\<close>

interpretation pcie_waits: finishing_port "userReadWord dev_read" "readWord dev_read" "waiting_room upd R W need c get"
  "\<lambda>s. dev_written (snd s)" "\<lambda>_ _ _. True" "\<lambda>s. dev_todo need c (snd s)" "may_finish R W need get"
  for upd :: "(mem \<Rightarrow> mem) \<Rightarrow> 'u \<Rightarrow> 'u" and R W need c get
proof unfold_locales
  fix n a and s :: "bdbm \<times> 'u pcidev"
  assume "waiting_room upd R W need c get n s" "user_word a"
  then show "\<exists>x s'. userReadWord dev_read a s = Some (x, s') \<and> waiting_room upd R W need c get n s' \<and>
      dev_written (snd s') = dev_written (snd s) \<and> True"
    using pcie_setup.read_returns [of upd R W need c get n s a] by (auto simp: waiting_room_def)
next
  fix n a and s :: "bdbm \<times> 'u pcidev"
  assume "waiting_room upd R W need c get (Suc n) s" "a < CONFIG_BUFFER_SIZE"
  then show "\<exists>x s'. readWord dev_read a s = Some (x, s') \<and> waiting_room upd R W need c get n s' \<and>
      dev_written (snd s') = dev_written (snd s) \<and> (drop_bit 2 a = 0 \<longrightarrow> x = 0xc001d00d)"
    using pcie_setup.config_returns [of upd R W need c get n s a] by (auto simp: waiting_room_def)
next
  fix n a x and s s' :: "bdbm \<times> 'u pcidev"
  assume w: "waiting_room upd R W need c get n s" and a: "user_word a" and r: "userReadWord dev_read a s = Some (x, s')"
  note ui = user_word_index [OF a]
  have i: "in_bar0 (drop_bit 2 (a + CONFIG_BUFFER_SIZE))" using ui(1) by (simp add: user_index_def)
  note f = readWord_finishes(2,3) [OF _ i r [unfolded userReadWord_def]]
  show "dev_todo need c (snd s') \<le> dev_todo need c (snd s) - 1 \<and>
      (dev_todo need c (snd s) = 0 \<longrightarrow> may_finish R W need get (ucast a) x)"
    using w f ui by (auto simp: waiting_room_def)
next
  fix n a x and s s' :: "bdbm \<times> 'u pcidev"
  assume "waiting_room upd R W need c get (Suc n) s" "a < CONFIG_BUFFER_SIZE" "readWord dev_read a s = Some (x, s')"
  then show "dev_todo need c (snd s') \<le> dev_todo need c (snd s)"
    using readWord_finishes(2) [OF _ config_access(1)] unfolding waiting_room_def by (meson diff_le_self le_trans)
qed (auto simp: waiting_room_def intro: pcie_setup.reads_less)

lemma todo_written:
  assumes "waiting_room upd R W need c get n s"
  shows "dev_todo need c (snd s) \<le> length W * (c + 1) + c"
proof -
  let ?d = "snd s"
  have f: "dev_finishes upd R W need c get ?d" "dev_written ?d = W"
    using assms by (simp_all add: waiting_room_def finishing_room_def)
  have "length (userWriteQ ?d) * (c + 1) \<le> length W * (c + 1)"
    by (rule mult_le_mono1) (simp add: dev_written_def flip: f(2))
  moreover have "need (user ?d) \<le> c" if "userWriteQ ?d = []"
    using f that by (simp add: dev_finishes_def dev_written_def)
  ultimately show ?thesis by (auto simp: dev_todo_def)
qed

lemma fresh_finishing_room:
  assumes "userWriteQ d = []" "dev_finishes upd R W need c get d" "n \<le> 511"
  shows "finishing_room upd R W need c get n (Init_Pcie dev_write d)"
proof -
  have l: "dev_live d" using assms(2) by (simp add: dev_finishes_def)
  show ?thesis
    using pcie_room_mono [OF Init_Pcie_room(1) [OF assms(1) l] assms(3)] finishes_access(2) [OF assms(2)]
    by (simp add: finishing_room_def Init_Pcie_def)
qed

lemma fresh_written:
  assumes "userWriteQ d = []" "userTaken d = []" "dev_finishes upd R W need c get d"
  shows "dev_written (snd (Init_Pcie dev_write d)) = []"
  using Init_Pcie_room(2) [OF assms(1)] assms by (simp add: dev_finishes_def dev_written_def)

subsection \<open>Whole programs\<close>

lemma dramtest_ends:
  assumes d: "userWriteQ d = []" "userTaken d = []" "dev_finishes upd R (dramtest_writes rand) need c get d"
    and get: "\<And>u. R (dramtest_writes rand) u \<Longrightarrow> need u = 0 \<Longrightarrow> get u 32 \<noteq> 0"
  shows "\<exists>cycles s'. dramtest_main (userWriteWord dev_read dev_write) (userReadWord dev_read) rand
      (Init_Pcie dev_write d) = Some (cycles, s') \<and> cycles \<noteq> 0 \<and> dev_written (snd s') = dramtest_writes rand"
proof -
  let ?W = "dramtest_writes rand"
  have r: "finishing_room upd R ?W need c get 0 (Init_Pcie dev_write d)" "dev_written (snd (Init_Pcie dev_write d)) = []"
    by (rule fresh_finishing_room [OF d(1,3)], simp) (rule fresh_written [OF d(1-3)])
  obtain s1 where s1: "dramtest_send (userWriteWord dev_read dev_write) rand (Init_Pcie dev_write d) = Some s1"
    "waiting_room upd R ?W need c get 0 s1" "dev_written (snd s1) = ?W"
    using yieldsE [OF pcie_setup.dramtest_send_runs [OF r(1), of rand]] r(2) by (auto simp: fold_snoc waiting_room_def)
  have "x \<noteq> 0" if "may_finish R ?W need get 32 x" for x using that get by (auto simp: may_finish_def)
  from yieldsE [OF pcie_waits.dramtest_wait_returns [OF s1(2) this]] s1
  show ?thesis by (auto simp: dramtest_main_def)
qed

lemma sortreduce_ends:
  assumes d: "userWriteQ d = []" "userTaken d = []" "dev_finishes upd R (sortreduce_writes rand) need c get d"
    and get: "\<And>u. R (sortreduce_writes rand) u \<Longrightarrow> need u = 0 \<Longrightarrow> get u 0 \<noteq> 0 \<and> stripecnt \<le> get u 4"
  shows "\<exists>out g s'. sortreduce_main (userWriteWord dev_read dev_write) (userReadWord dev_read) rand
      (Init_Pcie dev_write d) = Some (out, s') \<and> rising out g \<and> stripecnt \<le> g
      \<and> dev_written (snd s') = sortreduce_writes rand"
proof -
  let ?W = "sortreduce_writes rand"
  have r: "finishing_room upd R ?W need c get 0 (Init_Pcie dev_write d)" "dev_written (snd (Init_Pcie dev_write d)) = []"
    by (rule fresh_finishing_room [OF d(1,3)], simp) (rule fresh_written [OF d(1-3)])
  obtain s1 where s1: "sortreduce_setup (userWriteWord dev_read dev_write) rand (Init_Pcie dev_write d) = Some s1"
    "waiting_room upd R ?W need c get 0 s1" "dev_written (snd s1) = ?W"
    using yieldsE [OF pcie_setup.sortreduce_setup_runs [OF r(1), of rand]] r(2) by (auto simp: fold_snoc waiting_room_def)
  have f: "x \<noteq> 0" if "may_finish R ?W need get 0 x" for x using that get by (auto simp: may_finish_def)
  have "stripecnt \<le> x" if "may_finish R ?W need get 4 x" for x using that get by (auto simp: may_finish_def)
  from yieldsE [OF pcie_waits.sortreduce_wait_returns [OF s1(2) f this]] s1
  show ?thesis by (auto simp: sortreduce_main_def)
qed

text \<open>
  \<open>streaming\<close> reads the configuration space twice before it waits, once for every 10000 polls, and
  once behind the loop.
\<close>

lemma streaming_ends:
  assumes d: "userWriteQ d = []" "userTaken d = []" "dev_finishes upd R streaming_writes need c get d" "c \<le> 565000"
    and get: "\<And>u. R streaming_writes u \<Longrightarrow> need u = 0 \<Longrightarrow> pagecnt \<le> get u 4"
  shows "\<exists>xs n debug s'. streaming_main (readWord dev_read) (userWriteWord dev_read dev_write) (userReadWord dev_read)
      buf (pcie_dma_upd upd) (Init_Pcie dev_write d) = Some (xs, n, debug, s') \<and> dev_written (snd s') = streaming_writes"
proof -
  let ?room = "waiting_room upd R streaming_writes need c get"
  have r: "finishing_room upd R streaming_writes need c get (Suc (Suc 509)) (Init_Pcie dev_write d)"
    "dev_written (snd (Init_Pcie dev_write d)) = []"
    by (rule fresh_finishing_room [OF d(1,3)], simp) (rule fresh_written [OF d(1-3)])
  obtain xs s1 where s1: "streaming_start (readWord dev_read) (userWriteWord dev_read dev_write) (userReadWord dev_read)
      (pcie_dma_upd upd) (Init_Pcie dev_write d) = Some (xs, s1)"
    "?room 509 s1" "dev_written (snd s1) = streaming_writes"
    using yieldsE [OF pcie_setup.streaming_start_runs [OF r(1)]] r(2) by (auto simp: fold_snoc waiting_room_def)
  have "dev_todo need c (snd s1) \<le> 9 * 565000 + 8"
    using todo_written [OF s1(2)] d(4) by (simp add: streaming_writes_def)
  then have "dev_todo need c (snd s1) div 10000 \<le> (9 * 565000 + 8) div 10000" by (rule div_le_mono)
  then have room: "?room (1 + dev_todo need c (snd s1) div 10000) s1"
    using pcie_waits.room_mono [OF s1(2)] by simp
  have "pagecnt \<le> x" if "may_finish R streaming_writes need get 4 x" for x using that get by (auto simp: may_finish_def)
  from yieldsE [OF pcie_waits.streaming_wait_returns [OF room this]]
  obtain s2 where s2: "streaming_wait (readWord dev_read) (userReadWord dev_read) s1 = Some s2"
    "?room (Suc 0) s2" "dev_written (snd s2) = dev_written (snd s1)" by auto
  have "yields (streaming_main (readWord dev_read) (userWriteWord dev_read dev_write) (userReadWord dev_read)
      buf (pcie_dma_upd upd) (Init_Pcie dev_write d)) (\<lambda>(xs, n, debug, s'). dev_written (snd s') = streaming_writes)"
    unfolding streaming_main_def s1(1) s2(1)
    apply (simp only: yields_bind yields_Some prod.case s2(1))
    apply (rule pcie_waits.yields_read, rule s2, simp add: port_words, simp only: prod.case yields_bind yields_Some)
    apply (rule pcie_waits.yields_read, assumption, simp add: port_words, simp only: prod.case yields_bind yields_Some)
    apply (rule pcie_waits.yields_config, assumption, simp add: port_words, simp add: s2(3) s1(3))
    done
  from yieldsE [OF this] show ?thesis by auto
qed

end
