(* ===== verification/SlowStreaming.thy ===== *)
theory SlowStreaming
  imports DeviceWaits
begin

text \<open>
  \<open>streaming\<close> with hardware that needs long: its loop reads the debug code, which is in the
  configuration space, at every 10000th poll, and the window of the reads is full before the
  pages are done. \<open>unless m Q\<close> says of a call that it does not return, or \<open>Q\<close> holds of what it
  returns.
\<close>

definition unless :: "'a option \<Rightarrow> ('a \<Rightarrow> bool) \<Rightarrow> bool" where
  "unless m Q \<longleftrightarrow> (case m of None \<Rightarrow> True | Some r \<Rightarrow> Q r)"

lemma unless_simps [simp]: "unless None Q" "unless (Some r) Q = Q r"
  by (simp_all add: unless_def)

lemma unless_bind [simp]: "unless (Option.bind m f) Q = unless m (\<lambda>r. unless (f r) Q)"
  by (cases m) simp_all

lemma unless_mono: "unless m P \<Longrightarrow> (\<And>r. P r \<Longrightarrow> Q r) \<Longrightarrow> unless m Q"
  by (cases m) simp_all

lemma unless_never: "unless m (\<lambda>_. False) \<longleftrightarrow> m = None"
  by (cases m) simp_all

text \<open>User logic that stays \<open>busy\<close>, whatever it is given, for \<open>n\<close> accesses after access \<open>t0\<close>.\<close>

definition dev_busy :: "('u \<Rightarrow> bool) \<Rightarrow> nat \<Rightarrow> 'u pcidev \<Rightarrow> bool" where
  "dev_busy busy n d \<longleftrightarrow> busy (user d) \<and> (\<forall>u. busy u \<longrightarrow> user_get d u 4 < pagecnt)
    \<and> (\<forall>w u. busy u \<longrightarrow> busy (user_put d w u)) \<and> (\<forall>t u. t < n \<longrightarrow> busy u \<longrightarrow> busy (user_run d t u))"

lemma busy_fold: "busy u \<Longrightarrow> (\<forall>w u. busy u \<longrightarrow> busy (put w u)) \<Longrightarrow> busy (fold put ws u)"
  by (induction ws arbitrary: u) auto

lemma busy_advance: "dev_busy busy n d \<Longrightarrow> dtick d < n \<Longrightarrow> dev_busy busy n (dev_advance d)"
proof -
  let ?ws = "take (min (user_takes d (dtick d)) (length (userWriteQ d))) (userWriteQ d)"
  assume b: "dev_busy busy n d" "dtick d < n"
  then have "busy (user_run d (dtick d) (fold (user_put d) ?ws (user d)))"
    using busy_fold [of busy "user d" "user_put d" ?ws] unfolding dev_busy_def by blast
  moreover have u: "user (dev_advance d) = user_run d (dtick d) (fold (user_put d) ?ws (user d))"
    "user_get (dev_advance d) = user_get d" "user_put (dev_advance d) = user_put d"
    "user_run (dev_advance d) = user_run d" by (simp_all add: dev_advance_def Let_def)
  ultimately show ?thesis using b(1) unfolding dev_busy_def u by blast
qed

lemma busy_access:
  assumes "dev_busy busy n d" "dtick d < n"
  shows "dev_busy busy n (snd (dev_read d i))" "dev_busy busy n (dev_write d i v)"
  using busy_advance [OF assms] by (auto simp: dev_busy_def dev_read_def dev_write_def Let_def)

lemma tick_access [simp]: "dtick (snd (dev_read d i)) = dtick d + 1" "dtick (dev_write d i v) = dtick d + 1"
  by (auto simp: dev_read_def dev_write_def dev_advance_def Let_def)

lemma busy_pages:
  assumes "dev_busy busy n d" "dtick d < n" "user_index i" "bar_addr i - io_userspace_offset = 4"
  shows "fst (dev_read d i) < pagecnt"
proof -
  note b = busy_advance [OF assms(1,2)]
  have "user_get (dev_advance d) = user_get d" by (simp add: dev_advance_def Let_def)
  then show ?thesis using b assms(4) by (simp add: dev_read_user(2) [OF assms(3)] dev_busy_def)
qed

text \<open>
  The state after at most \<open>t\<close> accesses from access \<open>t0\<close> on, at least \<open>j\<close> of them reads of the
  configuration space.
\<close>

definition slow :: "('u \<Rightarrow> bool) \<Rightarrow> nat \<Rightarrow> nat \<Rightarrow> nat \<Rightarrow> nat \<Rightarrow> bdbm \<times> 'u pcidev \<Rightarrow> bool" where
  "slow busy n t0 t j s \<longleftrightarrow> dev.write_window s \<and> (\<exists>k. dev.read_lag k s \<and> j \<le> k)
    \<and> dev_busy busy n (snd s) \<and> dtick (snd s) \<le> t0 + t \<and> dev_queued (snd s) \<le> t"

lemma slow_lag: "slow busy n t0 t j s \<Longrightarrow> j \<le> 513"
  by (auto simp: slow_def dev.read_lag_def)

lemma slow_readWord:
  assumes s: "slow busy n t0 t j s" and n: "t0 + t + 2 \<le> n" and i: "in_bar0 (drop_bit 2 a)"
  shows "unless (readWord dev_read a s) (\<lambda>(x, s').
      slow busy n t0 (t + 2) (if user_index (drop_bit 2 a) then j else j + 1) s'
      \<and> (user_index (drop_bit 2 a) \<and> bar_addr (drop_bit 2 a) - io_userspace_offset = 4 \<longrightarrow> x < pagecnt))"
proof -
  let ?i = "drop_bit 2 a"
  obtain p d where pd: "s = (p, d)" by (cases s)
  obtain k where w: "dev.write_window (p, d)" and k: "dev.read_lag k (p, d)" "j \<le> k"
    and b: "dev_busy busy n d" and t: "dtick d \<le> t0 + t" "dev_queued d \<le> t"
    using s by (auto simp: slow_def pd)
  show ?thesis
  proof (cases "readWord dev_read a (p, d)")
    case None
    then show ?thesis by (simp add: pd)
  next
    case (Some r)
    then have "dev.read_done k ?i (p, d) (Some r)"
      using dev.readWord_cases [OF k(1) i] by simp
    from dev.read_done_keeps [OF w k(1) i this]
    obtain x p' d' d1 where r: "r = (x, p', d')"
      and lag: "dev.read_lag (if user_index ?i then k else k + 1) (p', d')" "dev.write_window (p', d')"
      and d1: "d1 = d \<or> d1 = snd (dev_read d remit_idx)" and x: "(x, d') = dev_read d1 ?i"
      by (auto simp del: split_paired_Ex)
    have b1: "dev_busy busy n d1" "dtick d1 \<le> t0 + t + 1" "dev_queued d1 \<le> t"
      using d1 b t n by (auto intro: busy_access)
    have x': "x = fst (dev_read d1 ?i)" "d' = snd (dev_read d1 ?i)" by (simp_all flip: x)
    have "dev_busy busy n d'" "dtick d' \<le> t0 + (t + 2)" "dev_queued d' \<le> t + 2"
      using b1 n unfolding x'(2) by (auto intro: busy_access)
    moreover have "\<exists>k'. dev.read_lag k' (p', d') \<and> (if user_index ?i then j else j + 1) \<le> k'"
      using lag(1) k(2) by (intro exI [of _ "if user_index ?i then k else k + 1"]) simp
    ultimately have "slow busy n t0 (t + 2) (if user_index ?i then j else j + 1) (p', d')"
      using lag(2) by (simp add: slow_def)
    then show ?thesis using Some r busy_pages [OF b1(1)] b1(2) n unfolding x'(1) pd by simp
  qed
qed

lemma slow_read:
  assumes "slow busy n t0 t j s" "t0 + t + 2 \<le> n" "user_word a"
    and "\<And>x s'. slow busy n t0 (t + 2) j s' \<Longrightarrow> (a = 4 \<Longrightarrow> x < pagecnt) \<Longrightarrow> Q (x, s')"
  shows "unless (userReadWord dev_read a s) Q"
proof -
  note ui = user_word_index [OF assms(3)]
  have "in_bar0 (drop_bit 2 (a + CONFIG_BUFFER_SIZE))" using ui(1) by (simp add: user_index_def)
  from slow_readWord [OF assms(1,2) this] ui
  have r: "unless (userReadWord dev_read a s) (\<lambda>(x, s'). slow busy n t0 (t + 2) j s' \<and> (ucast a = (4 :: ioaddr) \<longrightarrow> x < pagecnt))"
    by (simp add: userReadWord_def)
  show ?thesis by (rule unless_mono [OF r]) (use assms(4) in \<open>auto split: prod.splits\<close>)
qed

lemma slow_config:
  assumes "slow busy n t0 t j s" "t0 + t + 2 \<le> n" "a < CONFIG_BUFFER_SIZE"
    and "\<And>x s'. slow busy n t0 (t + 2) (j + 1) s' \<Longrightarrow> Q (x, s')"
  shows "unless (readWord dev_read a s) Q"
proof -
  note i = config_index_addr(1,3) [OF config_index(1) [OF assms(3)]]
  show ?thesis using slow_readWord [OF assms(1,2) i(1)] i(2) assms(4)
    by (auto intro: unless_mono)
qed

lemma slow_write:
  assumes s: "slow busy n t0 t j s" and n: "t0 + t + 2 \<le> n" "t < 256" and a: "user_word a"
    and Q: "\<And>s'. slow busy n t0 (t + 2) j s' \<Longrightarrow> Q s'"
  shows "unless (userWriteWord dev_read dev_write a v s) Q"
proof (cases "userWriteWord dev_read dev_write a v s")
  case None
  then show ?thesis by simp
next
  case (Some s')
  let ?i = "drop_bit 2 (a + CONFIG_BUFFER_SIZE)"
  note ui = user_word_index [OF a]
  obtain p d where pd: "s = (p, d)" by (cases s)
  obtain p' d' where pd': "s' = (p', d')" by (cases s')
  have run: "writeWord dev_read dev_write (a + CONFIG_BUFFER_SIZE) v (p, d) = Some (p', d')"
    using Some by (simp add: userWriteWord_def pd pd')
  have w: "dev.write_window (p, d)" and b: "dev_busy busy n d" and t: "dtick d \<le> t0 + t" "dev_queued d \<le> t"
    using s by (auto simp: slow_def pd)
  obtain k where k: "dev.read_lag k (p, d)" "j \<le> k" using s by (auto simp: slow_def pd)
  note keep = dev.writeWord_keeps_window [OF w ui(1) run]
  have "d' = dev_write d ?i v \<or> d' = dev_write (snd (dev_read d wemit_idx)) ?i v"
  proof (cases "io_wbudget p > 0")
    case True
    then show ?thesis using run by (auto simp: writeWord_def split: if_splits)
  next
    case False
    let ?d = "snd (dev_read d wemit_idx)"
    have q: "dev_queued ?d < 256" using t n by simp
    have "io_wreq p = dev_issued d" using w False by (simp add: dev.write_window_def word_gt_0)
    then have "io_wreq p - fst (dev_read d wemit_idx) = of_nat (dev_queued ?d)"
      using dev.wemit_value [of d] dev.issued_rd [of d] by simp
    moreover have "unat (of_nat (dev_queued ?d) :: u32) = dev_queued ?d" using q by (intro unat_of_nat_small) simp
    ultimately have "\<not> (io_wreq p - fst (dev_read d wemit_idx) \<ge> IO_QUEUE_SIZE div 2)"
      using q by (simp add: IO_QUEUE_SIZE_def word_le_nat_alt)
    then have "while_option (\<lambda>(e, d). io_wreq p - e \<ge> IO_QUEUE_SIZE div 2) (\<lambda>(e, d). dev_read d wemit_idx)
        (dev_read d wemit_idx) = Some (dev_read d wemit_idx)"
      by (intro poll_at_once) (simp add: case_prod_unfold)
    then show ?thesis using run False
      by (auto simp: writeWord_def case_prod_unfold split: if_splits)
  qed
  then obtain d1 where d1: "d1 = d \<or> d1 = snd (dev_read d wemit_idx)" "d' = dev_write d1 ?i v" by blast
  have b1: "dev_busy busy n d1" "dtick d1 \<le> t0 + t + 1" "dev_queued d1 \<le> t"
    using d1(1) b t n by (auto intro: busy_access)
  have "dev_busy busy n d'" "dtick d' \<le> t0 + (t + 2)" using b1 n unfolding d1(2) by (auto intro: busy_access)
  moreover have "dev_queued d' \<le> t + 2" using dev.queued_wr [of ?i d1 v] ui(1) b1(3) by (simp add: d1(2))
  moreover have "dev.read_lag k (p', d')" using k(1) keep by (simp add: dev.read_lag_def)
  ultimately have "slow busy n t0 (t + 2) j s'" using keep k(2) pd' by (auto simp: slow_def)
  then show ?thesis using Some Q by simp
qed

text \<open>The calls before the loop: 2 reads of the configuration space, 6 others and 8 writes.\<close>

lemma slow_reads:
  assumes "slow busy n t0 t j s" "t0 + t + 2 * length as \<le> n" "list_all user_word as"
    and "\<And>xs s'. slow busy n t0 (t + 2 * length as) j s' \<Longrightarrow> Q (xs, s')"
  shows "unless (gather (userReadWord dev_read) as s) Q"
  using assms
proof (induction as arbitrary: s t Q)
  case Nil
  then show ?case by simp
next
  case (Cons a as)
  show ?case
    unfolding gather.simps unless_bind
  proof (rule slow_read [OF Cons.prems(1)])
    fix x s1 assume s1: "slow busy n t0 (t + 2) j s1"
    have "unless (gather (userReadWord dev_read) as s1) (\<lambda>r. Q (x # fst r, snd r))"
      using Cons.prems by (intro Cons.IH [OF s1]) (simp_all add: algebra_simps)
    then show "unless (case (x, s1) of (y, s) \<Rightarrow> do { (ys, s) \<leftarrow> gather (userReadWord dev_read) as s; Some (y # ys, s) }) Q"
      by (simp add: case_prod_unfold)
  qed (use Cons.prems in simp_all)
qed

lemma slow_writes:
  assumes "slow busy n t0 t j s" "t0 + t + 2 * length ws \<le> n" "t + 2 * length ws \<le> 256" "list_all (user_word \<circ> fst) ws"
    and "\<And>s'. slow busy n t0 (t + 2 * length ws) j s' \<Longrightarrow> Q s'"
  shows "unless (each (\<lambda>(a, d). userWriteWord dev_read dev_write a d) ws s) Q"
  using assms
proof (induction ws arbitrary: s t Q)
  case Nil
  then show ?case by simp
next
  case (Cons w ws)
  obtain a v where w: "w = (a, v)" by (cases w)
  show ?case
    unfolding each.simps unless_bind w prod.case
  proof (rule slow_write [OF Cons.prems(1)])
    fix s1 assume s1: "slow busy n t0 (t + 2) j s1"
    show "unless (each (\<lambda>(a, d). userWriteWord dev_read dev_write a d) ws s1) Q"
      using Cons.prems by (intro Cons.IH [OF s1]) (simp_all add: algebra_simps)
  qed (use Cons.prems w in simp_all)
qed

definition dma_keeps :: "('u \<Rightarrow> bool) \<Rightarrow> ((mem \<Rightarrow> mem) \<Rightarrow> 'u \<Rightarrow> 'u) \<Rightarrow> bool" where
  "dma_keeps busy upd \<longleftrightarrow> (\<forall>f u. busy u \<longrightarrow> busy (upd f u))"

lemma slow_dma:
  assumes "slow busy n t0 t j s" "dma_keeps busy upd"
  shows "slow busy n t0 t j (pcie_dma_upd upd f s)"
  using assms by (cases s) (simp add: slow_def dma_keeps_def pcie_dma_upd_def dev.write_window_def dev.read_lag_def
      dev_busy_def dev_views)

lemma slow_start:
  assumes s: "slow busy n t0 0 0 s" and n: "t0 + 32 \<le> n" and u: "dma_keeps busy upd"
  shows "unless (streaming_start (readWord dev_read) (userWriteWord dev_read dev_write) (userReadWord dev_read)
    (pcie_dma_upd upd) s) (\<lambda>(xs, s'). slow busy n t0 32 0 s')"
proof -
  have as: "map (\<lambda>i. (2 + of_nat i) * 4) [0..<4] = [8 :: u32, 12, 16, 20]" by (simp add: upt_rec)
  have c: "length streaming_cmds = 8" "list_all (user_word \<circ> fst) streaming_cmds"
    by (simp_all add: streaming_cmds_def pagecnt_def upt_rec port_words)
  have weak: "slow busy n t0 t j s' \<Longrightarrow> slow busy n t0 t 0 s'" for t j s' by (auto simp: slow_def)
  show ?thesis
    unfolding streaming_start_def as
    apply (simp only: unless_bind unless_simps)
    apply (rule slow_config [OF s], use n in simp, simp add: port_words, simp only: prod.case unless_bind unless_simps)
    apply (rule slow_config, assumption, use n in simp, simp add: port_words, simp only: prod.case unless_bind unless_simps)
    apply (rule slow_reads, assumption, use n in simp, simp add: port_words, simp only: prod.case unless_bind unless_simps)
    apply (rule slow_read, assumption, use n in simp, simp add: port_words, simp only: prod.case unless_bind unless_simps)
    apply (rule slow_read, assumption, use n in simp, simp add: port_words, simp only: prod.case unless_bind unless_simps)
    apply (rule slow_writes, erule slow_dma [OF _ u], use n c in simp, use c in simp, rule c)
    apply (simp only: unless_simps prod.case c)
    apply (rule weak [where j = "Suc (Suc 0)"], simp)
    done
qed

text \<open>
  The loop: \<open>k\<close> polls are at most \<open>2 * k\<close> accesses and two more for each read of the configuration
  space, of which there cannot be more than 513.
\<close>

lemma slow_poll:
  assumes "slow busy n t0 (32 + 2 * k + 2 * (k div 10000)) (k div 10000) s"
    and "t0 + 32 + 2 * (k + 1) + 2 * ((k + 1) div 10000) \<le> n"
  shows "unless (streaming_poll (readWord dev_read) (userReadWord dev_read) (pages, k, s)) (\<lambda>(pages', k', s').
    pages' < pagecnt \<and> k' = k + 1 \<and> slow busy n t0 (32 + 2 * k' + 2 * (k' div 10000)) (k' div 10000) s')"
  unfolding streaming_poll_def prod.case unless_bind
proof (rule slow_read [OF assms(1)], unfold prod.case)
  have d: "(k + 1) div 10000 = (if (k + 1) mod 10000 = 0 then Suc (k div 10000) else k div 10000)"
    by (simp add: div_Suc)
  show "t0 + (32 + 2 * k + 2 * (k div 10000)) + 2 \<le> n" using assms(2) d by (simp split: if_splits)
  show "user_word 4" by (simp add: port_words)
  fix x s1
  assume s1: "slow busy n t0 (32 + 2 * k + 2 * (k div 10000) + 2) (k div 10000) s1" and "4 = (4 :: u32) \<Longrightarrow> x < pagecnt"
  then have x: "x < pagecnt" by simp
  let ?Q = "\<lambda>(pages', k', s'). pages' < pagecnt \<and> k' = k + 1
    \<and> slow busy n t0 (32 + 2 * k' + 2 * (k' div 10000)) (k' div 10000) s'"
  have "unless (readWord dev_read 4 s1) (\<lambda>(debug, s'). ?Q (x, k + 1, s'))" if m: "(k + 1) mod 10000 = 0"
    using assms(2) d m x by (intro slow_config [OF s1]) (simp_all add: CONFIG_BUFFER_SIZE_def)
  moreover have "?Q (x, k + 1, s1)" if m: "(k + 1) mod 10000 \<noteq> 0"
    using s1 d m x by (simp add: add.assoc)
  ultimately show "unless (if pagecnt \<le> x then Some (x, k, s1)
      else if (k + 1) mod 10000 = 0 then readWord dev_read 4 s1 \<bind> (\<lambda>(debug, s). Some (x, k + 1, s))
      else Some (x, k + 1, s1)) ?Q"
    using x by (simp add: case_prod_unfold not_le)
qed

lemma slow_wait:
  assumes "slow busy n t0 32 0 s" "t0 + 10400000 \<le> n"
  shows "streaming_wait (readWord dev_read) (userReadWord dev_read) s = None"
proof -
  let ?ok = "\<lambda>(pages, k, s). pages < pagecnt \<and> slow busy n t0 (32 + 2 * k + 2 * (k div 10000)) (k div 10000) s"
  let ?P = "\<lambda>r. unless r ?ok" and ?b = "\<lambda>r. case r of None \<Rightarrow> False | Some (pages :: u32, sleepcnt :: nat, s) \<Rightarrow> pages < pagecnt"
  let ?m = "\<lambda>r. case r of None \<Rightarrow> 0 | Some (pages :: u32, k, s :: bdbm \<times> 'a pcidev) \<Rightarrow> 5150000 - k"
  have "\<exists>t. while_option ?b (\<lambda>r. Option.bind r (streaming_poll (readWord dev_read) (userReadWord dev_read)))
      (Some (0, 0, s)) = Some t \<and> ?P t \<and> \<not> ?b t"
  proof (rule poll_returns [where f = ?m])
    show "?P (Some (0, 0, s))" using assms(1) by (simp add: pagecnt_def)
  next
    fix r assume p: "?P r" and b: "?b r"
    then obtain pg k s1 where r: "r = Some (pg, k, s1)" by (auto split: option.splits)
    have s1: "slow busy n t0 (32 + 2 * k + 2 * (k div 10000)) (k div 10000) s1" using p r by simp
    have k: "k < 5140000" using slow_lag [OF s1] by simp
    then have "(k + 1) div 10000 \<le> 514" by simp
    then have "t0 + 32 + 2 * (k + 1) + 2 * ((k + 1) div 10000) \<le> n" using k assms(2) by simp
    from slow_poll [OF s1 this, of pg] show "?P (Option.bind r (streaming_poll (readWord dev_read) (userReadWord dev_read)))
        \<and> ?m (Option.bind r (streaming_poll (readWord dev_read) (userReadWord dev_read))) < ?m r"
      using k unfolding r by (auto simp: unless_def split: option.splits)
  qed
  then obtain t where t: "while_option ?b (\<lambda>r. Option.bind r (streaming_poll (readWord dev_read) (userReadWord dev_read)))
      (Some (0, 0, s)) = Some t" "?P t" "\<not> ?b t" by blast
  then have "t = None" by (cases t) (auto split: prod.splits)
  then show ?thesis using t(1) by (simp add: streaming_wait_def)
qed

lemma streaming_never_ends:
  assumes d: "userWriteQ d = []" and b: "dev_busy busy n d" and n: "dtick d + 10400001 \<le> n" and u: "dma_keeps busy upd"
  shows "streaming_main (readWord dev_read) (userWriteWord dev_read dev_write) (userReadWord dev_read)
    buf (pcie_dma_upd upd) (Init_Pcie dev_write d) = None"
proof -
  have s: "slow busy n (dtick d + 1) 0 0 (Init_Pcie dev_write d)"
    using init_views [OF d] busy_access(2) [OF b, of 0 0] n
    by (auto simp: slow_def Init_Pcie_def dev.write_window_def dev.read_lag_def intro!: exI [of _ 0])
  have "unless (streaming_start (readWord dev_read) (userWriteWord dev_read dev_write) (userReadWord dev_read)
    (pcie_dma_upd upd) (Init_Pcie dev_write d))
    (\<lambda>(xs, s'). streaming_wait (readWord dev_read) (userReadWord dev_read) s' = None)"
    using n by (rule_tac unless_mono [OF slow_start [OF s _ u]]) (auto intro: slow_wait)
  then show ?thesis
    by (cases "streaming_start (readWord dev_read) (userWriteWord dev_read dev_write) (userReadWord dev_read)
      (pcie_dma_upd upd) (Init_Pcie dev_write d)") (auto simp: streaming_main_def)
qed

end
