(* ===== verification/BsimDma.thy ===== *)
theory BsimDma
  imports PcieBdpi
begin

text \<open>
  DMA in the simulation: the rule \<open>receiveDmaRead\<close> and the methods of \<^verbatim>\<open>src/PcieCtrl_bsim.bsv\<close> by
  which the user logic moves 128-bit words to and from the buffer of the host. A method whose
  guard is false, and an access outside the segment, are \<open>None\<close>; a rule fires only when the
  FIFO it enqueues to has room.
\<close>

type_synonym dmaword = "128 word"

record dmactl =
  dma_bdpi :: bdpi
  dmaWriteWordCount :: "10 word"
  dmaWriteWordAddr :: u32
  dmaWriteWordOff :: u32
  dmaReadWordCount :: "10 word"
  dmaReadWordQ :: "dmaword list"
  dmaReadBuffer :: dmaword
  dmaReadBufferOff :: u8

definition dma_reset :: "bdpi \<Rightarrow> dmactl" where
  "dma_reset b = \<lparr>dma_bdpi = b, dmaWriteWordCount = 0, dmaWriteWordAddr = 0, dmaWriteWordOff = 0,
     dmaReadWordCount = 0, dmaReadWordQ = [], dmaReadBuffer = 0, dmaReadBufferOff = 0\<rparr>"

definition dmaWriteReq :: "u32 \<Rightarrow> 10 word \<Rightarrow> dmactl \<times> mem \<Rightarrow> (dmactl \<times> mem) option" where
  "dmaWriteReq addr words s = (case s of (d, m) \<Rightarrow>
     if dmaWriteWordCount d = 0
     then Some (d\<lparr>dmaWriteWordCount := words, dmaWriteWordAddr := addr, dmaWriteWordOff := 0\<rparr>, m)
     else None)"

definition dmaWriteData :: "dmaword \<Rightarrow> dmactl \<times> mem \<Rightarrow> (dmactl \<times> mem) option" where
  "dmaWriteData data s = (case s of (d, m) \<Rightarrow>
     if dmaWriteWordCount d > 0
     then (case bdpiDmaWriteData True (dmaWriteWordAddr d + dmaWriteWordOff d) (ucast data) (ucast (drop_bit 64 data))
             (dma_bdpi d) m of
             None \<Rightarrow> None
           | Some (r, b, m) \<Rightarrow>
               Some (d\<lparr>dma_bdpi := b, dmaWriteWordOff := dmaWriteWordOff d + 16,
                       dmaWriteWordCount := dmaWriteWordCount d - 1\<rparr>, m))
     else None)"

definition dmaReadReq :: "u32 \<Rightarrow> 10 word \<Rightarrow> dmactl \<times> mem \<Rightarrow> (dmactl \<times> mem) option" where
  "dmaReadReq addr words s = (case s of (d, m) \<Rightarrow>
     if dmaReadWordCount d = 0
     then (let (r, b, m) = bdpiDmaReadReq True addr (ucast words) (dma_bdpi d) m
           in Some (d\<lparr>dmaReadWordCount := words, dma_bdpi := b\<rparr>, m))
     else None)"

text \<open>\<open>{d, dmaReadBuffer[127:32]}\<close>\<close>

definition shift_in :: "u32 \<Rightarrow> dmaword \<Rightarrow> dmaword" where
  "shift_in x buf = push_bit 96 (ucast x) OR drop_bit 32 buf"

definition receiveDmaRead :: "dmactl \<times> mem \<Rightarrow> (dmactl \<times> mem) option" where
  "receiveDmaRead s = (case s of (d, m) \<Rightarrow>
     if dmaReadWordCount d > 0 \<and> length (dmaReadWordQ d) < 16 then
       (let (isready, b, m) = bdpiDmaReadReady True (dma_bdpi d) m in
        if isready then
          (case bdpiDmaReadData b m of
             None \<Rightarrow> None
           | Some (x, b) \<Rightarrow>
               if dmaReadBufferOff d \<ge> 3
               then Some (d\<lparr>dma_bdpi := b, dmaReadWordCount := dmaReadWordCount d - 1,
                      dmaReadWordQ := dmaReadWordQ d @ [shift_in x (dmaReadBuffer d)], dmaReadBufferOff := 0\<rparr>, m)
               else Some (d\<lparr>dma_bdpi := b, dmaReadBuffer := shift_in x (dmaReadBuffer d),
                      dmaReadBufferOff := dmaReadBufferOff d + 1\<rparr>, m))
        else Some (d\<lparr>dma_bdpi := b\<rparr>, m))
     else Some (d, m))"

definition dmaReadWord :: "dmactl \<times> mem \<Rightarrow> (dmaword \<times> dmactl \<times> mem) option" where
  "dmaReadWord s = (case s of (d, m) \<Rightarrow>
     (case dmaReadWordQ d of [] \<Rightarrow> None | x # xs \<Rightarrow> Some (x, d\<lparr>dmaReadWordQ := xs\<rparr>, m)))"

definition assertInterrupt :: "dmactl \<times> mem \<Rightarrow> (dmactl \<times> mem) option" where
  "assertInterrupt s = (case s of (d, m) \<Rightarrow>
     (let (r, b, m) = bdpiInterruptReady True (dma_bdpi d) m in
      if r then (let (b, m) = bdpiAssertInterrupt True b m in Some (d\<lparr>dma_bdpi := b\<rparr>, m)) else None))"

subsection \<open>User logic that uses them\<close>

text \<open>A burst of writes, and cycles in which the user logic takes a word whenever \<open>t\<close> says so.\<close>

fun dma_write_all :: "dmaword list \<Rightarrow> dmactl \<times> mem \<Rightarrow> (dmactl \<times> mem) option" where
  "dma_write_all [] s = Some s"
| "dma_write_all (w # ws) s = (case dmaWriteData w s of None \<Rightarrow> None | Some s \<Rightarrow> dma_write_all ws s)"

definition dma_write_burst :: "u32 \<Rightarrow> dmaword list \<Rightarrow> dmactl \<times> mem \<Rightarrow> (dmactl \<times> mem) option" where
  "dma_write_burst addr ws s =
     (case dmaWriteReq addr (of_nat (length ws)) s of None \<Rightarrow> None | Some s \<Rightarrow> dma_write_all ws s)"

definition dma_take :: "bool \<Rightarrow> dmaword list \<times> dmactl \<times> mem \<Rightarrow> dmaword list \<times> dmactl \<times> mem" where
  "dma_take t r = (case r of (out, s) \<Rightarrow>
     if t then (case dmaReadWord s of None \<Rightarrow> (out, s) | Some (x, s) \<Rightarrow> (out @ [x], s)) else (out, s))"

fun dma_cycles :: "bool list \<Rightarrow> dmaword list \<times> dmactl \<times> mem \<Rightarrow> (dmaword list \<times> dmactl \<times> mem) option" where
  "dma_cycles [] r = Some r"
| "dma_cycles (t # ts) r =
     (case dma_take t r of (out, s) \<Rightarrow>
        (case receiveDmaRead s of None \<Rightarrow> None | Some s \<Rightarrow> dma_cycles ts (out, s)))"

text \<open>The 128-bit word at byte \<open>a\<close>, as the host reads it.\<close>

definition load128 :: "mem \<Rightarrow> nat \<Rightarrow> dmaword" where
  "load128 m a = ucast (load64 m a) OR push_bit 64 (ucast (load64 m (a + 8)))"

definition store128 :: "mem \<Rightarrow> nat \<Rightarrow> dmaword \<Rightarrow> mem" where
  "store128 m a w = store64 (store64 m a (ucast w)) (a + 8) (ucast (drop_bit 64 w))"

lemma load128_store128 [simp]: "load128 (store128 m a w) a = w"
proof -
  have "ucast (ucast w :: u64) OR push_bit 64 (ucast (ucast (drop_bit 64 w) :: u64)) = w"
  proof (rule bit_word_eqI)
    fix n assume "n < LENGTH(128)"
    then show "bit (ucast (ucast w :: u64) OR push_bit 64 (ucast (ucast (drop_bit 64 w) :: u64)) :: dmaword) n = bit w n"
      by (cases "n < 64") (auto simp: bit_or_iff bit_push_bit_iff bit_unsigned_iff bit_drop_bit_eq not_less)
  qed
  then show ?thesis by (simp add: load128_def store128_def load64_store64_other)
qed

lemma load128_store128_other: "a + 16 \<le> b \<or> b + 16 \<le> a \<Longrightarrow> load128 (store128 m a w) b = load128 m b"
  by (auto simp: load128_def store128_def load64_store64_other)

lemma store128_other: "b < a \<or> a + 16 \<le> b \<Longrightarrow> store128 m a w b = m b"
  by (auto simp: store128_def store64_other)

text \<open>Four 32-bit words shifted in, the lowest first, are the 128-bit word, whatever was in the buffer.\<close>

lemma shift_in_four:
  "shift_in (load32 m (a + 12)) (shift_in (load32 m (a + 8)) (shift_in (load32 m (a + 4)) (shift_in (load32 m a) b)))
    = load128 m a"
proof (rule bit_word_eqI)
  fix n assume "n < LENGTH(128)"
  then consider "n < 32" | "32 \<le> n" "n < 64" | "64 \<le> n" "n < 96" | "96 \<le> n" "n < 128" by fastforce
  then show "bit (shift_in (load32 m (a + 12)) (shift_in (load32 m (a + 8)) (shift_in (load32 m (a + 4))
      (shift_in (load32 m a) b)))) n = bit (load128 m a) n"
    by cases (auto simp: shift_in_def load128_def load64_def bit_or_iff bit_push_bit_iff bit_unsigned_iff
        bit_drop_bit_eq add.assoc dest: bit_imp_le_length)
qed

subsection \<open>Writing\<close>

text \<open>A controller at work on a segment that is set up; \<open>dma_range a n\<close>: \<open>n\<close> words at \<open>a\<close> are in the buffer.\<close>

definition dma_up :: "dmactl \<times> mem \<Rightarrow> bool" where
  "dma_up s \<longleftrightarrow> (case s of (d, m) \<Rightarrow> bdpi_inv (dma_bdpi d) m \<and> shm_ready (dma_bdpi d))"

definition dma_idle :: "dmactl \<Rightarrow> bool" where
  "dma_idle d \<longleftrightarrow> dmaWriteWordCount d = 0 \<and> dmaReadWordCount d = 0 \<and> dmaReadWordQ d = [] \<and> dmaReadBufferOff d = 0"

definition dma_range :: "nat \<Rightarrow> nat \<Rightarrow> bool" where
  "dma_range a n \<longleftrightarrow> a mod 8 = 0 \<and> a + 16 * n \<le> DMA_BUFFER_SIZE \<and> n < 2 ^ 10"

fun store_dma :: "nat \<Rightarrow> dmaword list \<Rightarrow> mem \<Rightarrow> mem" where
  "store_dma a [] m = m"
| "store_dma a (w # ws) m = store_dma (a + 16) ws (store128 m a w)"

lemma store_dma_other: "b < a \<or> a + 16 * length ws \<le> b \<Longrightarrow> store_dma a ws m b = m b"
  by (induction ws arbitrary: a m) (auto simp: store128_other)

lemma load128_store_dma_below: "b + 16 \<le> a \<Longrightarrow> load128 (store_dma a ws m) b = load128 m b"
  by (induction ws arbitrary: a m) (auto simp: load128_store128_other)

lemma load128_store_dma: "i < length ws \<Longrightarrow> load128 (store_dma a ws m) (a + 16 * i) = ws ! i"
proof (induction ws arbitrary: a m i)
  case Nil
  then show ?case by simp
next
  case (Cons w ws)
  show ?case
  proof (cases i)
    case 0
    then show ?thesis by (simp add: load128_store_dma_below)
  next
    case (Suc j)
    then show ?thesis using Cons.IH [of j "a + 16" "store128 m a w"] Cons.prems by (simp add: algebra_simps)
  qed
qed

lemma dma_up_store:
  assumes "dma_up (d, m)" "dma_range a (length ws)"
  shows "dma_up (d, store_dma a ws m)" "k < 3 \<Longrightarrow> fifo_list (shm_fifo k) (store_dma a ws m) = fifo_list (shm_fifo k) m"
proof -
  have up: "bdpi_inv (dma_bdpi d) m" "shm_ready (dma_bdpi d)" using assms(1) by (simp_all add: dma_up_def)
  have out: "store_dma a ws m b = m b" if "DMA_BUFFER_SIZE \<le> b" for b
    using that assms(2) by (intro store_dma_other) (simp add: dma_range_def)
  note inv = shm_inv_dma [OF bdpi_invD(5) [OF up] out]
  show "k < 3 \<Longrightarrow> fifo_list (shm_fifo k) (store_dma a ws m) = fifo_list (shm_fifo k) m" by (rule inv(2))
  show "dma_up (d, store_dma a ws m)" using bdpi_inv_mem [OF up(1) inv(1)] up(2) by (simp add: dma_up_def)
qed

lemma dmaWriteData_stores:
  assumes "dma_up (d, m)" "dmaWriteWordCount d > 0" "unat (dmaWriteWordAddr d + dmaWriteWordOff d) = a" "dma_range a 1"
  shows "dmaWriteData w (d, m) =
    Some (d\<lparr>dmaWriteWordOff := dmaWriteWordOff d + 16, dmaWriteWordCount := dmaWriteWordCount d - 1\<rparr>, store128 m a w)"
proof -
  have up: "shm_ready (dma_bdpi d)" using assms(1) by (simp add: dma_up_def)
  have at: "dma_at (dmaWriteWordAddr d + dmaWriteWordOff d) = a"
    using assms(3,4) by (simp add: dma_at_def dma_range_def mod_0_imp_dvd)
  have "dma_at (dmaWriteWordAddr d + dmaWriteWordOff d) + 16 \<le> SHM_SIZE"
    unfolding at using assms(4) by (simp add: dma_range_def SHM_SIZE_def)
  from bdpiDmaWriteData_eq [OF shmReady_again [OF up] this]
  show ?thesis using assms(2) by (simp add: dmaWriteData_def at store128_def)
qed

lemma dma_write_all_stores:
  assumes "dma_up (d, m)" "unat (dmaWriteWordCount d) = length ws"
    and "unat (dmaWriteWordAddr d + dmaWriteWordOff d) = a" "dma_range a (length ws)"
  shows "\<exists>off. dma_write_all ws (d, m) =
    Some (d\<lparr>dmaWriteWordOff := off, dmaWriteWordCount := 0\<rparr>, store_dma a ws m)"
  using assms
proof (induction ws arbitrary: a d m)
  case Nil
  then have "dmaWriteWordCount d = 0" by (simp add: unat_eq_0)
  then show ?case by (intro exI [of _ "dmaWriteWordOff d"]) simp
next
  case (Cons w ws)
  have pos: "dmaWriteWordCount d > 0" using Cons.prems(2) by (cases "dmaWriteWordCount d = 0") (simp_all add: word_gt_0)
  have r: "dma_range a 1" "dma_range a (length [w])" using Cons.prems(4) by (simp_all add: dma_range_def)
  let ?d = "d\<lparr>dmaWriteWordOff := dmaWriteWordOff d + 16, dmaWriteWordCount := dmaWriteWordCount d - 1\<rparr>"
  note step = dmaWriteData_stores [OF Cons.prems(1) pos Cons.prems(3) r(1), of w]
  have "dma_up (d, store_dma a [w] m)" by (rule dma_up_store(1) [OF Cons.prems(1) r(2)])
  then have up: "dma_up (?d, store128 m a w)" by (simp add: dma_up_def)
  have c: "unat (dmaWriteWordCount ?d) = length ws" using Cons.prems(2) pos by (auto simp: unat_minus_one)
  have "unat (dmaWriteWordAddr d + dmaWriteWordOff d + 16) = a + 16"
    using Cons.prems(3,4) by (subst unat_add_lem [THEN iffD1]) (simp_all add: dma_range_def DMA_BUFFER_SIZE_def)
  then have a: "unat (dmaWriteWordAddr ?d + dmaWriteWordOff ?d) = a + 16" by (simp add: add.assoc)
  have r': "dma_range (a + 16) (length ws)" using Cons.prems(4) by (simp add: dma_range_def) presburger
  from Cons.IH [OF up c a r'] show ?case using step by auto
qed

lemma dma_write_burst_stores:
  assumes "dma_up (d, m)" "dmaWriteWordCount d = 0" "dma_range (unat addr) (length ws)"
  shows "\<exists>off. dma_write_burst addr ws (d, m) = Some (d\<lparr>dmaWriteWordAddr := addr, dmaWriteWordOff := off, dmaWriteWordCount := 0\<rparr>,
    store_dma (unat addr) ws m)"
proof -
  let ?d = "d\<lparr>dmaWriteWordCount := of_nat (length ws), dmaWriteWordAddr := addr, dmaWriteWordOff := 0\<rparr>"
  have req: "dmaWriteReq addr (of_nat (length ws)) (d, m) = Some (?d, m)" using assms(2) by (simp add: dmaWriteReq_def)
  have "unat (dmaWriteWordCount ?d) = length ws"
    using assms(3) by (simp add: dma_range_def unat_of_nat_small)
  then have "\<exists>off. dma_write_all ws (?d, m) = Some (?d\<lparr>dmaWriteWordOff := off, dmaWriteWordCount := 0\<rparr>, store_dma (unat addr) ws m)"
    using assms by (intro dma_write_all_stores) (simp_all add: dma_up_def)
  then show ?thesis unfolding dma_write_burst_def req by auto
qed

subsection \<open>Reading\<close>

text \<open>
  A read of \<open>n\<close> words at \<open>a\<close> of which \<open>w\<close> 32-bit words have come: those not yet a whole word are
  in the buffer, the whole words have been taken (\<open>out\<close>) or wait in the FIFO.
\<close>

definition dma_read_at :: "nat \<Rightarrow> nat \<Rightarrow> nat \<Rightarrow> dmaword list \<times> dmactl \<times> mem \<Rightarrow> bool" where
  "dma_read_at a n w r \<longleftrightarrow> (case r of (out, d, m) \<Rightarrow> dma_up (d, m) \<and> dma_range a n \<and> w \<le> 4 * n
    \<and> unat (dmaReadStartAddr (dma_bdpi d)) = a \<and> unat (dmaReadWordsOffset (dma_bdpi d)) = w
    \<and> unat (dmaReadWordsRemain (dma_bdpi d)) = 4 * n - w
    \<and> unat (dmaReadWordCount d) = n - w div 4 \<and> unat (dmaReadBufferOff d) = w mod 4
    \<and> out @ dmaReadWordQ d = map (\<lambda>i. load128 m (a + 16 * i)) [0..<w div 4] \<and> length (dmaReadWordQ d) \<le> 16
    \<and> (\<exists>b. dmaReadBuffer d = fold shift_in (map (\<lambda>j. load32 m (a + 4 * j)) [4 * (w div 4)..<w]) b))"

lemma dma_read_starts:
  assumes "dma_up (d, m)" "dma_idle d" "dma_range (unat addr) n"
  shows "\<exists>d'. dmaReadReq addr (of_nat n) (d, m) = Some (d', m) \<and> dma_read_at (unat addr) n 0 ([], d', m)
    \<and> dmaReadWordQ d' = []"
proof -
  have up: "bdpi_inv (dma_bdpi d) m" "shm_ready (dma_bdpi d)" using assms(1) by (simp_all add: dma_up_def)
  have n: "unat (of_nat n :: 10 word) = n" using assms(3) by (simp add: dma_range_def unat_of_nat_small)
  then have c: "unat (ucast (of_nat n :: 10 word) :: u32) = n" using assms(3) by (subst unat_ucast_small) (simp_all add: dma_range_def)
  have "unat (ucast (of_nat n :: 10 word) * 4 :: u32) = n * 4"
    using c assms(3) by (subst unat_mult_lem [THEN iffD1]) (simp_all add: dma_range_def)
  then show ?thesis
    using assms up n
    by (simp add: dmaReadReq_def bdpiDmaReadReq_def shmReady_again dma_idle_def dma_read_at_def dma_up_def bdpi_inv_def)
qed

lemma dma_take_keeps:
  assumes "dma_read_at a n w (out, d, m)"
  shows "\<exists>out' q. dma_take t (out, d, m) = (out', d\<lparr>dmaReadWordQ := q\<rparr>, m)
    \<and> dma_read_at a n w (out', d\<lparr>dmaReadWordQ := q\<rparr>, m) \<and> (if t then q = tl (dmaReadWordQ d) else q = dmaReadWordQ d)"
proof (cases "t \<and> dmaReadWordQ d \<noteq> []")
  case True
  then obtain x xs where q: "dmaReadWordQ d = x # xs" by (cases "dmaReadWordQ d") auto
  then have "dma_take t (out, d, m) = (out @ [x], d\<lparr>dmaReadWordQ := xs\<rparr>, m)"
    using True by (simp add: dma_take_def dmaReadWord_def)
  then show ?thesis using assms q True by (auto simp: dma_read_at_def dma_up_def)
next
  case False
  then have "dma_take t (out, d, m) = (out, d\<lparr>dmaReadWordQ := dmaReadWordQ d\<rparr>, m)"
    by (auto simp: dma_take_def dmaReadWord_def)
  moreover have "dma_read_at a n w (out, d\<lparr>dmaReadWordQ := dmaReadWordQ d\<rparr>, m)" using assms by simp
  moreover have "t \<Longrightarrow> dmaReadWordQ d = tl (dmaReadWordQ d)" using False by simp
  ultimately show ?thesis by (intro exI [of _ out] exI [of _ "dmaReadWordQ d"]) auto
qed

lemma dma_read_data:
  assumes "dma_read_at a n w (out, d, m)" "w < 4 * n"
  shows "bdpiDmaReadReady True (dma_bdpi d) m = (True, dma_bdpi d, m)"
    "bdpiDmaReadData (dma_bdpi d) m = Some (load32 m (a + 4 * w), (dma_bdpi d)
      \<lparr>dmaReadWordsRemain := dmaReadWordsRemain (dma_bdpi d) - 1, dmaReadWordsOffset := dmaReadWordsOffset (dma_bdpi d) + 1\<rparr>)"
proof -
  let ?b = "dma_bdpi d"
  have r: "dma_up (d, m)" "dma_range a n" "unat (dmaReadStartAddr ?b) = a" "unat (dmaReadWordsOffset ?b) = w"
    "unat (dmaReadWordsRemain ?b) = 4 * n - w" using assms(1) by (simp_all add: dma_read_at_def)
  have up: "bdpi_inv ?b m" "shm_ready ?b" using r(1) by (simp_all add: dma_up_def)
  have "dmaReadWordsRemain ?b > 0" using r(5) assms(2) by (auto simp: word_gt_0)
  then show "bdpiDmaReadReady True ?b m = (True, ?b, m)" using up by (simp add: bdpiDmaReadReady_def shmReady_again)
  have bound: "a + 4 * w + 4 \<le> DMA_BUFFER_SIZE" "a mod 8 = 0" using r(2) assms(2) by (simp_all add: dma_range_def)
  have "unat (drop_bit 2 (dmaReadStartAddr ?b) + dmaReadWordsOffset ?b) = a div 4 + w"
    using r(3,4) bound by (subst unat_add_lem [THEN iffD1]) (simp_all add: unat_drop_bit DMA_BUFFER_SIZE_def)
  moreover have "4 * (a div 4 + w) = a + 4 * w" using bound(2) by presburger
  ultimately have i: "4 * unat (drop_bit 2 (dmaReadStartAddr ?b) + dmaReadWordsOffset ?b) = a + 4 * w" by simp
  show "bdpiDmaReadData ?b m = Some (load32 m (a + 4 * w), ?b
      \<lparr>dmaReadWordsRemain := dmaReadWordsRemain ?b - 1, dmaReadWordsOffset := dmaReadWordsOffset ?b + 1\<rparr>)"
    using bdpi_invD(1) [OF up] bound(1) unfolding bdpiDmaReadData_def i Let_def by (simp add: SHM_SIZE_def)
qed

text \<open>The rule receives one 32-bit word, unless the FIFO is full or everything is there.\<close>

lemma receive_last_part:
  assumes "w mod 4 = 3"
  shows "shift_in (load32 m (a + 4 * w)) (fold shift_in (map (\<lambda>j. load32 m (a + 4 * j)) [4 * (w div 4)..<w]) b)
    = load128 m (a + 16 * (w div 4))"
proof -
  define k where "k = w div 4"
  have w: "w = 4 * k + 3" using assms k_def by presburger
  have "[4 * k..<4 * k + 3] = [4 * k, 4 * k + 1, 4 * k + 2]" by (simp add: upt_rec)
  then have "shift_in (load32 m (a + 4 * w)) (fold shift_in (map (\<lambda>j. load32 m (a + 4 * j)) [4 * k..<w]) b)
      = load128 m (a + 16 * k)"
    using shift_in_four [of m "a + 16 * k" b] unfolding w by (simp add: ac_simps)
  then show ?thesis by (simp add: k_def)
qed

definition bdpi_next :: "bdpi \<Rightarrow> bdpi" where
  "bdpi_next b = b\<lparr>dmaReadWordsRemain := dmaReadWordsRemain b - 1, dmaReadWordsOffset := dmaReadWordsOffset b + 1\<rparr>"

lemma dma_read_next:
  assumes r: "dma_read_at a n w (out, d, m)" and w: "w < 4 * n"
  shows "dmaReadWordCount d > 0" "unat (dmaReadWordsOffset (bdpi_next (dma_bdpi d))) = w + 1"
    "unat (dmaReadWordsRemain (bdpi_next (dma_bdpi d))) = 4 * n - (w + 1)"
    "dma_up (d\<lparr>dma_bdpi := bdpi_next (dma_bdpi d)\<rparr>, m)"
    "dmaReadStartAddr (bdpi_next (dma_bdpi d)) = dmaReadStartAddr (dma_bdpi d)"
proof -
  let ?b = "dma_bdpi d"
  have f: "dma_up (d, m)" "dma_range a n" "unat (dmaReadWordsOffset ?b) = w"
    "unat (dmaReadWordsRemain ?b) = 4 * n - w" "unat (dmaReadWordCount d) = n - w div 4"
    using r by (simp_all add: dma_read_at_def)
  have "w div 4 < n" using w by (intro less_mult_imp_div_less) simp
  then have "0 < n - w div 4" by simp
  then show "dmaReadWordCount d > 0" using f(5) by (auto simp: word_gt_0)
  show "unat (dmaReadWordsOffset (bdpi_next ?b)) = w + 1"
  proof -
    have "unat (dmaReadWordsOffset ?b) + 1 < 2 ^ LENGTH(32)" using f(2,3) w by (simp add: dma_range_def)
    from unat_add_one_small [OF this] show ?thesis using f(3) by (simp add: bdpi_next_def)
  qed
  have "dmaReadWordsRemain ?b \<noteq> 0" using f(4) w by auto
  then show "unat (dmaReadWordsRemain (bdpi_next ?b)) = 4 * n - (w + 1)"
    using f(4) by (simp add: unat_minus_one bdpi_next_def)
  show "dma_up (d\<lparr>dma_bdpi := bdpi_next ?b\<rparr>, m)" using f(1) by (simp add: dma_up_def bdpi_inv_def bdpi_next_def)
qed (simp add: bdpi_next_def)

lemma receive_whole:
  assumes r: "dma_read_at a n w (out, d, m)" and w: "w < 4 * n" "w mod 4 = 3" and q: "length (dmaReadWordQ d) < 16"
  shows "\<exists>x d'. receiveDmaRead (d, m) = Some (d', m) \<and> dmaReadWordQ d' = dmaReadWordQ d @ [x]
    \<and> dma_read_at a n (w + 1) (out, d', m)"
proof -
  note nx = dma_read_next [OF r w(1)] and rd = dma_read_data [OF r w(1), folded bdpi_next_def]
  have f: "dma_range a n" "unat (dmaReadStartAddr (dma_bdpi d)) = a" "unat (dmaReadWordCount d) = n - w div 4"
    "unat (dmaReadBufferOff d) = w mod 4" "out @ dmaReadWordQ d = map (\<lambda>i. load128 m (a + 16 * i)) [0..<w div 4]"
    using r by (simp_all add: dma_read_at_def)
  obtain b where buf: "dmaReadBuffer d = fold shift_in (map (\<lambda>j. load32 m (a + 4 * j)) [4 * (w div 4)..<w]) b"
    using r by (auto simp: dma_read_at_def)
  let ?x = "shift_in (load32 m (a + 4 * w)) (dmaReadBuffer d)"
  let ?d = "d\<lparr>dma_bdpi := bdpi_next (dma_bdpi d), dmaReadWordCount := dmaReadWordCount d - 1,
    dmaReadWordQ := dmaReadWordQ d @ [?x], dmaReadBufferOff := 0\<rparr>"
  have "dmaReadBufferOff d \<ge> 3" using f(4) w(2) by (simp add: word_le_nat_alt)
  then have run: "receiveDmaRead (d, m) = Some (?d, m)" using q nx(1) rd by (simp add: receiveDmaRead_def)
  have d1: "(w + 1) div 4 = w div 4 + 1" "(w + 1) mod 4 = 0" using w(2) by presburger+
  have "unat (dmaReadWordCount d - 1) = n - (w + 1) div 4" using nx(1) f(3) d1 by (auto simp: unat_minus_one word_gt_0)
  moreover have "out @ dmaReadWordQ ?d = map (\<lambda>i. load128 m (a + 16 * i)) [0..<(w + 1) div 4]"
    using f(5) d1(1) receive_last_part [OF w(2), of m a b] by (simp add: buf)
  moreover have "w < 4 + 4 * (w div 4)" by presburger
  ultimately have "dma_read_at a n (w + 1) (out, ?d, m)"
    using f(1,2) nx d1 w(1) q by (simp add: dma_read_at_def dma_up_def)
  then show ?thesis using run by auto
qed

lemma receive_part:
  assumes r: "dma_read_at a n w (out, d, m)" and w: "w < 4 * n" "w mod 4 \<noteq> 3" and q: "length (dmaReadWordQ d) < 16"
  shows "\<exists>d'. receiveDmaRead (d, m) = Some (d', m) \<and> dmaReadWordQ d' = dmaReadWordQ d
    \<and> dma_read_at a n (w + 1) (out, d', m)"
proof -
  note nx = dma_read_next [OF r w(1)] and rd = dma_read_data [OF r w(1), folded bdpi_next_def]
  have off: "unat (dmaReadBufferOff d) = w mod 4" using r by (simp add: dma_read_at_def)
  obtain b where buf: "dmaReadBuffer d = fold shift_in (map (\<lambda>j. load32 m (a + 4 * j)) [4 * (w div 4)..<w]) b"
    using r by (auto simp: dma_read_at_def)
  let ?d = "d\<lparr>dma_bdpi := bdpi_next (dma_bdpi d), dmaReadBuffer := shift_in (load32 m (a + 4 * w)) (dmaReadBuffer d),
    dmaReadBufferOff := dmaReadBufferOff d + 1\<rparr>"
  have w3: "w mod 4 < 3" using w(2) by presburger
  then have "\<not> dmaReadBufferOff d \<ge> 3" using off by (simp add: word_le_nat_alt)
  then have run: "receiveDmaRead (d, m) = Some (?d, m)" using q nx(1) rd by (simp add: receiveDmaRead_def)
  have d1: "(w + 1) div 4 = w div 4" "(w + 1) mod 4 = w mod 4 + 1" using w3 by presburger+
  have "unat (dmaReadBufferOff d + 1) = w mod 4 + 1" using off w3 by (subst unat_add_one_small) simp_all
  moreover have "dmaReadBuffer ?d = fold shift_in (map (\<lambda>j. load32 m (a + 4 * j)) [4 * ((w + 1) div 4)..<w + 1]) b"
    using d1(1) by (simp add: buf)
  ultimately have "dma_read_at a n (w + 1) (out, ?d, m)"
    using r nx d1 w(1) unfolding dma_read_at_def by (auto simp: dma_up_def)
  then show ?thesis using run by auto
qed

lemma receive_step:
  assumes r: "dma_read_at a n w (out, d, m)"
  shows "\<exists>d'. receiveDmaRead (d, m) = Some (d', m)
    \<and> dma_read_at a n (if w < 4 * n \<and> length (dmaReadWordQ d) < 16 then w + 1 else w) (out, d', m)
    \<and> length (dmaReadWordQ d') \<le> length (dmaReadWordQ d) + 1
    \<and> (w = 4 * n \<longrightarrow> dmaReadWordQ d' = dmaReadWordQ d)"
proof (cases "w < 4 * n \<and> length (dmaReadWordQ d) < 16")
  case False
  have "w = 4 * n \<Longrightarrow> dmaReadWordCount d = 0" using r by (simp add: dma_read_at_def unat_eq_0)
  moreover have "w \<le> 4 * n" using r by (simp add: dma_read_at_def)
  ultimately have "receiveDmaRead (d, m) = Some (d, m)" using False by (auto simp: receiveDmaRead_def)
  then show ?thesis using r False by auto
next
  case True
  then obtain d' where "receiveDmaRead (d, m) = Some (d', m)" "dma_read_at a n (w + 1) (out, d', m)"
    "length (dmaReadWordQ d') \<le> length (dmaReadWordQ d) + 1"
    using receive_whole [OF r] receive_part [OF r] by (cases "w mod 4 = 3") fastforce+
  then show ?thesis using True by auto
qed

subsection \<open>Cycles\<close>

lemma dma_cycles_append:
  "dma_cycles (ts @ us) r = (case dma_cycles ts r of None \<Rightarrow> None | Some r \<Rightarrow> dma_cycles us r)"
  by (induction ts arbitrary: r) (auto split: prod.splits option.splits)

text \<open>Whenever the user logic takes words, it gets those of the buffer in order.\<close>

lemma dma_cycles_run:
  assumes "dma_read_at a n w (out, d, m)"
  shows "\<exists>out' d' w'. dma_cycles ts (out, d, m) = Some (out', d', m) \<and> dma_read_at a n w' (out', d', m)"
  using assms
proof (induction ts arbitrary: out d w)
  case Nil
  then show ?case by auto
next
  case (Cons t ts)
  obtain out1 q where t: "dma_take t (out, d, m) = (out1, d\<lparr>dmaReadWordQ := q\<rparr>, m)"
    "dma_read_at a n w (out1, d\<lparr>dmaReadWordQ := q\<rparr>, m)"
    using dma_take_keeps [OF Cons.prems, of t] by blast
  obtain d1 w1 where r: "receiveDmaRead (d\<lparr>dmaReadWordQ := q\<rparr>, m) = Some (d1, m)" "dma_read_at a n w1 (out1, d1, m)"
    using receive_step [OF t(2)] by blast
  from Cons.IH [OF r(2)] show ?case using t r by simp
qed

text \<open>If it takes every word at once, one 32-bit word comes in every cycle.\<close>

lemma dma_cycles_fast:
  assumes "dma_read_at a n w (out, d, m)" "length (dmaReadWordQ d) \<le> 1"
  shows "\<exists>out' d'. dma_cycles (replicate k True) (out, d, m) = Some (out', d', m)
    \<and> dma_read_at a n (min (w + k) (4 * n)) (out', d', m) \<and> length (dmaReadWordQ d') \<le> 1"
  using assms
proof (induction k arbitrary: out d w)
  case 0
  then show ?case by (auto simp: dma_read_at_def min_def)
next
  case (Suc k)
  let ?d = "d\<lparr>dmaReadWordQ := []\<rparr>"
  have "tl (dmaReadWordQ d) = []" using Suc.prems(2) by (cases "dmaReadWordQ d") simp_all
  then obtain out1 where t: "dma_take True (out, d, m) = (out1, ?d, m)" "dma_read_at a n w (out1, ?d, m)"
    using dma_take_keeps [OF Suc.prems(1), of True] by auto
  obtain d1 where r: "receiveDmaRead (?d, m) = Some (d1, m)" "length (dmaReadWordQ d1) \<le> 1"
    "dma_read_at a n (if w < 4 * n then w + 1 else w) (out1, d1, m)"
    using receive_step [OF t(2)] by auto
  have "w \<le> 4 * n" using Suc.prems(1) by (simp add: dma_read_at_def)
  then have "min ((if w < 4 * n then w + 1 else w) + k) (4 * n) = min (w + Suc k) (4 * n)" by auto
  then show ?case using Suc.IH [OF r(3,2)] t r by simp
qed

lemma dma_reads_all:
  assumes r: "dma_read_at a n 0 ([], d, m)" and q: "dmaReadWordQ d = []"
  shows "\<exists>d'. dma_cycles (replicate (4 * n + 1) True) ([], d, m) =
    Some (map (\<lambda>i. load128 m (a + 16 * i)) [0..<n], d', m) \<and> dmaReadWordCount d' = 0 \<and> dmaReadWordQ d' = []"
proof -
  obtain out1 d1 where c: "dma_cycles (replicate (4 * n) True) ([], d, m) = Some (out1, d1, m)"
    "dma_read_at a n (4 * n) (out1, d1, m)" "length (dmaReadWordQ d1) \<le> 1"
    using dma_cycles_fast [OF r, of "4 * n"] q by auto
  let ?d = "d1\<lparr>dmaReadWordQ := []\<rparr>"
  have "tl (dmaReadWordQ d1) = []" using c(3) by (cases "dmaReadWordQ d1") simp_all
  then obtain out2 where t: "dma_take True (out1, d1, m) = (out2, ?d, m)" "dma_read_at a n (4 * n) (out2, ?d, m)"
    using dma_take_keeps [OF c(2), of True] by auto
  obtain d2 where s: "receiveDmaRead (?d, m) = Some (d2, m)" "dma_read_at a n (4 * n) (out2, d2, m)" "dmaReadWordQ d2 = []"
    using receive_step [OF t(2)] by auto
  have "replicate (4 * n + 1) True = replicate (4 * n) True @ [True]" by (simp add: replicate_append_same)
  then have "dma_cycles (replicate (4 * n + 1) True) ([], d, m) = Some (out2, d2, m)"
    using c(1) t(1) s(1) by (simp add: dma_cycles_append del: replicate.simps)
  moreover have "out2 = map (\<lambda>i. load128 m (a + 16 * i)) [0..<n]" "dmaReadWordCount d2 = 0"
    using s(2,3) by (simp_all add: dma_read_at_def unat_eq_0)
  ultimately show ?thesis using s(3) by auto
qed

lemma dma_read_prefix:
  assumes "dma_read_at a n w (out, d, m)"
  shows "out = take (length out) (map (\<lambda>i. load128 m (a + 16 * i)) [0..<n])"
proof -
  have f: "out @ dmaReadWordQ d = map (\<lambda>i. load128 m (a + 16 * i)) [0..<w div 4]" and "w \<le> 4 * n"
    using assms by (simp_all add: dma_read_at_def)
  then have "[0..<w div 4] = take (w div 4) [0..<n]" by simp
  then have "out @ dmaReadWordQ d = take (w div 4) (map (\<lambda>i. load128 m (a + 16 * i)) [0..<n])"
    using f by (simp add: take_map)
  moreover have "length out + length (dmaReadWordQ d) = w div 4" using arg_cong [OF f, of length] by simp
  then have "length out \<le> w div 4" by linarith
  moreover have "out = take (length out) (out @ dmaReadWordQ d)" by simp
  ultimately have "out = take (min (length out) (w div 4)) (map (\<lambda>i. load128 m (a + 16 * i)) [0..<n])"
    by (simp only: take_take)
  then show ?thesis using \<open>length out \<le> w div 4\<close> by (simp only: min_absorb1)
qed

text \<open>A burst written and read back.\<close>

lemma dma_burst_returns:
  assumes up: "dma_up (d, m)" and idle: "dma_idle d" and range: "dma_range (unat addr) (length ws)"
  shows "\<exists>d1 m1 d2. dma_write_burst addr ws (d, m) = Some (d1, m1)
    \<and> (\<forall>k<3. fifo_list (shm_fifo k) m1 = fifo_list (shm_fifo k) m)
    \<and> (\<forall>i<length ws. load128 m1 (unat addr + 16 * i) = ws ! i)
    \<and> dmaReadReq addr (of_nat (length ws)) (d1, m1) = Some (d2, m1)
    \<and> (\<forall>ts. \<exists>out d3. dma_cycles ts ([], d2, m1) = Some (out, d3, m1) \<and> out = take (length out) ws)
    \<and> (\<exists>d3. dma_cycles (replicate (4 * length ws + 1) True) ([], d2, m1) = Some (ws, d3, m1) \<and> dmaReadWordCount d3 = 0)"
proof -
  let ?a = "unat addr" and ?n = "length ws" and ?m = "store_dma (unat addr) ws m"
  obtain off where w: "dma_write_burst addr ws (d, m) =
      Some (d\<lparr>dmaWriteWordAddr := addr, dmaWriteWordOff := off, dmaWriteWordCount := 0\<rparr>, ?m)"
    using dma_write_burst_stores [OF up _ range] idle by (auto simp: dma_idle_def)
  let ?d = "d\<lparr>dmaWriteWordAddr := addr, dmaWriteWordOff := off, dmaWriteWordCount := 0\<rparr>"
  note m = dma_up_store [OF up range]
  have up1: "dma_up (?d, ?m)" using m(1) by (simp add: dma_up_def)
  have "dma_idle ?d" using idle by (simp add: dma_idle_def)
  from dma_read_starts [OF up1 this range] obtain d2 where d2: "dmaReadReq addr (of_nat ?n) (?d, ?m) = Some (d2, ?m)"
    "dma_read_at ?a ?n 0 ([], d2, ?m)" "dmaReadWordQ d2 = []" by blast
  have ws: "map (\<lambda>i. load128 ?m (?a + 16 * i)) [0..<?n] = ws"
    by (rule nth_equalityI) (simp_all add: load128_store_dma)
  have "\<exists>out d3. dma_cycles ts ([], d2, ?m) = Some (out, d3, ?m) \<and> out = take (length out) ws" for ts
  proof -
    obtain out d3 w' where r: "dma_cycles ts ([], d2, ?m) = Some (out, d3, ?m)" "dma_read_at ?a ?n w' (out, d3, ?m)"
      using dma_cycles_run [OF d2(2), of ts] by blast
    then show ?thesis using dma_read_prefix [OF r(2)] ws by auto
  qed
  moreover have "\<exists>d3. dma_cycles (replicate (4 * ?n + 1) True) ([], d2, ?m) = Some (ws, d3, ?m) \<and> dmaReadWordCount d3 = 0"
    using dma_reads_all [OF d2(2,3)] ws by auto
  ultimately show ?thesis using w m(2) d2(1) by (intro exI [of _ ?d] exI [of _ ?m] exI [of _ d2]) (simp add: load128_store_dma)
qed

end
