(* ===== verification/Instances.thy ===== *)
theory Instances
  imports DmaSplitter DmaCircularQueue DramDev ExampleDevice
begin

text \<open>
  The static instances of the libraries: \<open>m_pInstance\<close> and \<open>getInstance\<close> of the four classes under
  \<^verbatim>\<open>cpp/\<close> and \<^verbatim>\<open>dram/cpp/\<close>, in the build for the device. A process holds the instances, \<open>None\<close> for a
  null pointer, and the device. The constructors of the libraries above take the instance of
  \<open>BdbmPcie\<close> first, which makes it if it is not there.
\<close>

record 'd process =
  bdbm_inst :: "bdbm option"
  splitter_inst :: "splitter option"
  circq_inst :: "circq option"
  hostdma_inst :: "hostdma option"
  pdev :: 'd

definition process_start :: "'d \<Rightarrow> 'd process" where
  "process_start d = \<lparr>bdbm_inst = None, splitter_inst = None, circq_inst = None, hostdma_inst = None, pdev = d\<rparr>"

text \<open>The constructor of \<open>BdbmPcie\<close>, without its mutexes.\<close>

definition BdbmPcie_new :: "('d \<Rightarrow> u32 \<Rightarrow> u32 \<Rightarrow> 'd) \<Rightarrow> 'd \<Rightarrow> bdbm \<times> 'd" where
  "BdbmPcie_new wr d = Init_Pcie wr d"

definition BdbmPcie_getInstance :: "('d \<Rightarrow> u32 \<Rightarrow> u32 \<Rightarrow> 'd) \<Rightarrow> 'd process \<Rightarrow> 'd process" where
  "BdbmPcie_getInstance wr s =
     (case bdbm_inst s of
        Some p \<Rightarrow> s
      | None \<Rightarrow> (let (p, d) = BdbmPcie_new wr (pdev s) in s\<lparr>bdbm_inst := Some p, pdev := d\<rparr>))"

text \<open>A constructor that works on the instance of \<open>BdbmPcie\<close>.\<close>

definition on_bdbm ::
  "('d \<Rightarrow> u32 \<Rightarrow> u32 \<Rightarrow> 'd) \<Rightarrow> (bdbm \<times> 'd \<Rightarrow> ('x \<times> bdbm \<times> 'd) option) \<Rightarrow> 'd process \<Rightarrow> ('x \<times> 'd process) option" where
  "on_bdbm wr op s =
     (let s1 = BdbmPcie_getInstance wr s in
      case bdbm_inst s1 of
        None \<Rightarrow> None
      | Some p \<Rightarrow>
          (case op (p, pdev s1) of
             None \<Rightarrow> None
           | Some (x, p, d) \<Rightarrow> Some (x, s1\<lparr>bdbm_inst := Some p, pdev := d\<rparr>)))"

definition DMASplitter_getInstance ::
  "('d \<Rightarrow> u32 \<Rightarrow> u32 \<times> 'd) \<Rightarrow> ('d \<Rightarrow> u32 \<Rightarrow> u32 \<Rightarrow> 'd) \<Rightarrow> (nat \<Rightarrow> u32 \<Rightarrow> bdbm \<times> 'd \<Rightarrow> bdbm \<times> 'd)
    \<Rightarrow> 'd process \<Rightarrow> 'd process option" where
  "DMASplitter_getInstance rd wr fill s =
     (case splitter_inst s of
        Some q \<Rightarrow> Some s
      | None \<Rightarrow>
          (case on_bdbm wr (DMASplitter_init (writeWord rd wr) fill) s of
             None \<Rightarrow> None
           | Some (q, s) \<Rightarrow> Some (s\<lparr>splitter_inst := Some q\<rparr>)))"

definition DMACircularQueue_getInstance ::
  "('d \<Rightarrow> u32 \<Rightarrow> u32 \<times> 'd) \<Rightarrow> ('d \<Rightarrow> u32 \<Rightarrow> u32 \<Rightarrow> 'd) \<Rightarrow> 'd process \<Rightarrow> 'd process option" where
  "DMACircularQueue_getInstance rd wr s =
     (case circq_inst s of
        Some q \<Rightarrow> Some s
      | None \<Rightarrow>
          (case on_bdbm wr (DMACircularQueue_init (userWriteWord rd wr)) s of
             None \<Rightarrow> None
           | Some (q, s) \<Rightarrow> Some (s\<lparr>circq_inst := Some q\<rparr>)))"

definition DRAMHostDMA_GetInstance ::
  "('d \<Rightarrow> u32 \<Rightarrow> u32 \<times> 'd) \<Rightarrow> ('d \<Rightarrow> u32 \<Rightarrow> u32 \<Rightarrow> 'd) \<Rightarrow> 'd process \<Rightarrow> 'd process option" where
  "DRAMHostDMA_GetInstance rd wr s =
     (case hostdma_inst s of
        Some q \<Rightarrow> Some s
      | None \<Rightarrow>
          (case on_bdbm wr (DRAMHostDMA_init (userReadWord rd)) s of
             None \<Rightarrow> None
           | Some (q, s) \<Rightarrow> Some (s\<lparr>hostdma_inst := Some q\<rparr>)))"

subsection \<open>Any order of calls\<close>

datatype library = Pcie | Splitter | CircularQueue | HostDMA

primrec get_instance ::
  "('d \<Rightarrow> u32 \<Rightarrow> u32 \<times> 'd) \<Rightarrow> ('d \<Rightarrow> u32 \<Rightarrow> u32 \<Rightarrow> 'd) \<Rightarrow> (nat \<Rightarrow> u32 \<Rightarrow> bdbm \<times> 'd \<Rightarrow> bdbm \<times> 'd)
    \<Rightarrow> library \<Rightarrow> 'd process \<Rightarrow> 'd process option" where
  "get_instance rd wr fill Pcie s = Some (BdbmPcie_getInstance wr s)"
| "get_instance rd wr fill Splitter s = DMASplitter_getInstance rd wr fill s"
| "get_instance rd wr fill CircularQueue s = DMACircularQueue_getInstance rd wr s"
| "get_instance rd wr fill HostDMA s = DRAMHostDMA_GetInstance rd wr s"

fun get_instances ::
  "('d \<Rightarrow> u32 \<Rightarrow> u32 \<times> 'd) \<Rightarrow> ('d \<Rightarrow> u32 \<Rightarrow> u32 \<Rightarrow> 'd) \<Rightarrow> (nat \<Rightarrow> u32 \<Rightarrow> bdbm \<times> 'd \<Rightarrow> bdbm \<times> 'd)
    \<Rightarrow> library list \<Rightarrow> 'd process \<Rightarrow> 'd process option" where
  "get_instances rd wr fill [] s = Some s"
| "get_instances rd wr fill (c # cs) s =
     (case get_instance rd wr fill c s of None \<Rightarrow> None | Some s \<Rightarrow> get_instances rd wr fill cs s)"

primrec present :: "library \<Rightarrow> 'd process \<Rightarrow> bool" where
  "present Pcie s \<longleftrightarrow> bdbm_inst s \<noteq> None"
| "present Splitter s \<longleftrightarrow> splitter_inst s \<noteq> None"
| "present CircularQueue s \<longleftrightarrow> circq_inst s \<noteq> None"
| "present HostDMA s \<longleftrightarrow> hostdma_inst s \<noteq> None"

text \<open>The register writes of each constructor.\<close>

primrec ctor_writes :: "library \<Rightarrow> (ioaddr \<times> u32) list" where
  "ctor_writes Pcie = []"
| "ctor_writes Splitter = [(64, 0), (68, 0)]"
| "ctor_writes CircularQueue = [(64, 0)]"
| "ctor_writes HostDMA = []"

fun first_calls :: "library set \<Rightarrow> library list \<Rightarrow> library list" where
  "first_calls seen [] = []"
| "first_calls seen (c # cs) =
     (if c \<in> seen then first_calls seen cs else c # first_calls (insert c seen) cs)"

text \<open>Without an instance of \<open>BdbmPcie\<close> there is no other one, and the device has no write waiting.\<close>

definition process_ok :: "'u pcidev process \<Rightarrow> bool" where
  "process_ok s \<longleftrightarrow> (case bdbm_inst s of
     None \<Rightarrow> splitter_inst s = None \<and> circq_inst s = None \<and> hostdma_inst s = None
       \<and> userWriteQ (pdev s) = [] \<and> dev_live (pdev s)
   | Some p \<Rightarrow> pcie_good (p, pdev s))"

lemma getInstance_ready:
  assumes "process_ok s"
  shows "process_ok (BdbmPcie_getInstance dev_write s) \<and> bdbm_inst (BdbmPcie_getInstance dev_write s) \<noteq> None
    \<and> dev_written (pdev (BdbmPcie_getInstance dev_write s)) = dev_written (pdev s)
    \<and> splitter_inst (BdbmPcie_getInstance dev_write s) = splitter_inst s
    \<and> circq_inst (BdbmPcie_getInstance dev_write s) = circq_inst s
    \<and> hostdma_inst (BdbmPcie_getInstance dev_write s) = hostdma_inst s
    \<and> (bdbm_inst s \<noteq> None \<longrightarrow> BdbmPcie_getInstance dev_write s = s)"
proof (cases "bdbm_inst s")
  case None
  then have d: "userWriteQ (pdev s) = []" "dev_live (pdev s)" using assms by (simp_all add: process_ok_def)
  show ?thesis
    using Init_Pcie_good [OF d] None by (auto simp: BdbmPcie_getInstance_def BdbmPcie_new_def process_ok_def split: prod.splits)
next
  case (Some p)
  then show ?thesis using assms by (simp add: BdbmPcie_getInstance_def)
qed

text \<open>A constructor that keeps the port usable runs on it.\<close>

lemma on_bdbm_runs:
  assumes "process_ok s"
    and op: "\<And>x. pcie_good x \<Longrightarrow> \<exists>q y. op x = Some (q, y) \<and> pcie_good y \<and> dev_written (snd y) = dev_written (snd x) @ ws"
  shows "\<exists>q s'. on_bdbm dev_write op s = Some (q, s') \<and> process_ok s' \<and> bdbm_inst s' \<noteq> None
    \<and> dev_written (pdev s') = dev_written (pdev s) @ ws
    \<and> splitter_inst s' = splitter_inst s \<and> circq_inst s' = circq_inst s \<and> hostdma_inst s' = hostdma_inst s"
proof -
  let ?s = "BdbmPcie_getInstance dev_write s"
  note r = getInstance_ready [OF assms(1)]
  then obtain p where p: "bdbm_inst ?s = Some p" by auto
  then have "pcie_good (p, pdev ?s)" using r by (simp add: process_ok_def)
  from op [OF this] obtain q p' d' where "op (p, pdev ?s) = Some (q, p', d')" "pcie_good (p', d')"
    "dev_written d' = dev_written (pdev ?s) @ ws" by auto
  then show ?thesis using p r by (auto simp: on_bdbm_def Let_def process_ok_def)
qed

text \<open>The constructors: the fill of the buffer (\<open>fill\<close>) does not touch the link.\<close>

definition buffer_fill :: "((mem \<Rightarrow> mem) \<Rightarrow> 'u \<Rightarrow> 'u) \<Rightarrow> nat \<Rightarrow> u32 \<Rightarrow> bdbm \<times> 'u pcidev \<Rightarrow> bdbm \<times> 'u pcidev" where
  "buffer_fill u i x = pcie_dma_upd u (\<lambda>m. store32 m i x)"

lemma buffer_fill_keeps:
  "pcie_good (buffer_fill u i x s) = pcie_good s" "dev_written (snd (buffer_fill u i x s)) = dev_written (snd s)"
  by (cases s; simp add: buffer_fill_def pcie_dma_upd_def pcie_good_def dev_written_def)+

lemma buffer_fills_keep:
  "pcie_good (fold (\<lambda>i. buffer_fill u (f i) x) is s) = pcie_good s"
  "dev_written (snd (fold (\<lambda>i. buffer_fill u (f i) x) is s)) = dev_written (snd s)"
  by (induction "is" arbitrary: s) (simp_all add: buffer_fill_keeps)

lemma splitter_constructor:
  assumes "pcie_good s"
  shows "\<exists>q s'. DMASplitter_init (writeWord dev_read dev_write) (buffer_fill u) s = Some (q, s') \<and> pcie_good s'
    \<and> dev_written (snd s') = dev_written (snd s) @ [(64, 0), (68, 0)]"
proof -
  let ?s = "fold (\<lambda>i. buffer_fill u (4 * i) 0xffffffff) [0 ..< 1024 * 4 div 4] s"
  have g: "pcie_good ?s" "dev_written (snd ?s) = dev_written (snd s)" using assms by (simp_all only: buffer_fills_keep)
  have "list_all (user_word \<circ> fst) [(64 :: u32, 0 :: u32), (68, 0)]" by (simp add: user_word_def)
  from pcie_words.write_all_returns [OF g(1) this] obtain s' where
    w: "write_all (writeWord dev_read dev_write) (map (\<lambda>(a, d). (a + CONFIG_BUFFER_SIZE, d)) [(64, 0), (68, 0)]) ?s = Some s'"
    and s': "pcie_good s'" "dev_written (snd s') = dev_written (snd s) @ [(64, 0), (68, 0)]"
    using g(2) by (auto simp: fold_snoc simp del: upt_rec_numeral)
  have regs: "map (\<lambda>(a, d). (a + CONFIG_BUFFER_SIZE, d)) [(64, 0), (68, 0)]
      = [((IO_USER_OFFSET + 16) * 4, 0), ((IO_USER_OFFSET + 17) * 4, 0 :: u32)]"
    by (simp add: IO_USER_OFFSET_def CONFIG_BUFFER_SIZE_def)
  show ?thesis
    unfolding DMASplitter_init_def Let_def w [unfolded regs] using s' by auto
qed

lemma queue_constructor:
  assumes "pcie_good s"
  shows "\<exists>q s'. DMACircularQueue_init (userWriteWord dev_read dev_write) s = Some (q, s') \<and> pcie_good s'
    \<and> dev_written (snd s') = dev_written (snd s) @ [(64, 0)]"
  using pcie_port.circq_init_returns [OF assms] by auto

lemma hostdma_constructor:
  assumes "pcie_good s"
  shows "\<exists>q s'. DRAMHostDMA_init (userReadWord dev_read) s = Some (q, s') \<and> pcie_good s'
    \<and> dev_written (snd s') = dev_written (snd s) @ []"
proof -
  have u: "user_word m_fpga_write_stat_off" "user_word m_fpga_read_stat_off"
    by (simp_all add: user_word_def m_fpga_write_stat_off_def m_fpga_read_stat_off_def)
  obtain x s1 where s1: "userReadWord dev_read m_fpga_write_stat_off s = Some (x, s1)" "pcie_good s1"
    "dev_written (snd s1) = dev_written (snd s)"
    using pcie_port.read_law [OF assms u(1)] by auto
  obtain y s2 where s2: "userReadWord dev_read m_fpga_read_stat_off s1 = Some (y, s2)" "pcie_good s2"
    "dev_written (snd s2) = dev_written (snd s1)"
    using pcie_port.read_law [OF s1(2) u(2)] by auto
  show ?thesis using s1 s2 by (simp add: DRAMHostDMA_init_def)
qed

lemma get_instance_step:
  assumes "process_ok s"
  shows "\<exists>s'. get_instance dev_read dev_write (buffer_fill u) c s = Some s' \<and> process_ok s'
    \<and> (\<forall>c'. present c' s' \<longleftrightarrow> c' = c \<or> c' = Pcie \<or> present c' s) \<and> (present c s \<longrightarrow> s' = s)
    \<and> dev_written (pdev s') = dev_written (pdev s) @ (if present c s then [] else ctor_writes c)"
proof (cases "present c s")
  case True
  then have "bdbm_inst s \<noteq> None" using assms by (cases c) (auto simp: process_ok_def split: option.splits)
  then have "present Pcie s" by simp
  then show ?thesis using True assms
    by (cases c) (auto simp: BdbmPcie_getInstance_def DMASplitter_getInstance_def DMACircularQueue_getInstance_def
        DRAMHostDMA_GetInstance_def)
next
  case False
  have all: "(\<forall>c'. P c') \<longleftrightarrow> P Pcie \<and> P Splitter \<and> P CircularQueue \<and> P HostDMA" for P
    by (metis library.exhaust)
  show ?thesis
  proof (cases c)
    case Pcie
    then show ?thesis using False getInstance_ready [OF assms] by (auto simp: all)
  next
    case Splitter
    then show ?thesis using False on_bdbm_runs [OF assms splitter_constructor [of _ u]]
      by (auto simp: all DMASplitter_getInstance_def process_ok_def)
  next
    case CircularQueue
    then show ?thesis using False on_bdbm_runs [OF assms queue_constructor]
      by (auto simp: all DMACircularQueue_getInstance_def process_ok_def)
  next
    case HostDMA
    then show ?thesis using False on_bdbm_runs [OF assms hostdma_constructor]
      by (auto simp: all DRAMHostDMA_GetInstance_def process_ok_def)
  qed
qed

text \<open>Each constructor runs at its first call only.\<close>

lemma get_instances_run:
  assumes "process_ok s" "\<And>c. c \<noteq> Pcie \<Longrightarrow> c \<in> seen \<longleftrightarrow> present c s" "seen \<subseteq> {c. present c s}"
  shows "\<exists>s'. get_instances dev_read dev_write (buffer_fill u) cs s = Some s' \<and> process_ok s'
    \<and> (\<forall>c \<in> set cs. present c s') \<and> (\<forall>c. present c s \<longrightarrow> present c s')
    \<and> dev_written (pdev s') = dev_written (pdev s) @ concat (map ctor_writes (first_calls seen cs))"
  using assms
proof (induction cs arbitrary: s seen)
  case Nil
  then show ?case by simp
next
  case (Cons c cs)
  obtain s1 where s1: "get_instance dev_read dev_write (buffer_fill u) c s = Some s1" "process_ok s1"
    "\<And>c'. present c' s1 \<longleftrightarrow> c' = c \<or> c' = Pcie \<or> present c' s"
    "dev_written (pdev s1) = dev_written (pdev s) @ (if present c s then [] else ctor_writes c)"
    using get_instance_step [OF Cons.prems(1), of u c] by blast
  let ?seen = "insert c seen"
  have seen: "\<And>c'. c' \<noteq> Pcie \<Longrightarrow> c' \<in> ?seen \<longleftrightarrow> present c' s1" "?seen \<subseteq> {c. present c s1}"
    using Cons.prems(2,3) s1(3) by auto
  have calls: "concat (map ctor_writes (first_calls seen (c # cs)))
      = (if present c s then [] else ctor_writes c) @ concat (map ctor_writes (first_calls ?seen cs))"
    using Cons.prems(2) [of c] Cons.prems(3) by (cases "c = Pcie"; cases "c \<in> seen") (auto simp: insert_absorb)
  show ?case using Cons.IH [OF s1(2) seen] s1 unfolding calls by auto
qed

lemma get_instances_again:
  assumes "process_ok s" "\<forall>c \<in> set cs. present c s"
  shows "get_instances dev_read dev_write (buffer_fill u) cs s = Some s"
  using assms(2)
proof (induction cs)
  case (Cons c cs)
  obtain s' where "get_instance dev_read dev_write (buffer_fill u) c s = Some s'" "present c s \<longrightarrow> s' = s"
    using get_instance_step [OF assms(1), of u c] by blast
  then show ?case using Cons by simp
qed simp

end
