(* ===== verification/FlashTest.thy ===== *)
theory FlashTest
  imports PcieLeak HostProgram
begin

text \<open>
  \<open>FlashManager\<close> and the program of \<^verbatim>\<open>examples/test/sw\<close>, over the calls of the library
  (\<open>ww\<close> for \<open>writeWord\<close>, \<open>rw\<close> for \<open>readWord\<close>). The shifts of \<open>int\<close> are taken to wrap, as the
  compilers have them. The object keeps the page buffer of the last page command.
\<close>

datatype page_buffer = PageBufferW | PageBufferR

record 's flash =
  pcie :: 's
  storebuffer :: "page_buffer option"

definition blockpagetag :: "u32 \<Rightarrow> u32 \<Rightarrow> u32 \<Rightarrow> u32" where
  "blockpagetag block page tag = push_bit 16 block OR push_bit 8 page OR tag"

definition buschip :: "u32 \<Rightarrow> u32 \<Rightarrow> u32" where
  "buschip bus chip = push_bit 8 bus OR chip"

text \<open>The three writes of a command, the one that triggers it last.\<close>

definition flash_writes :: "u32 \<Rightarrow> u32 \<Rightarrow> u32 \<Rightarrow> u32 \<Rightarrow> u32 \<Rightarrow> (u32 \<times> u32) list" where
  "flash_writes bus chip block page oper =
     [((1024 + 2) * 4, buschip bus chip), ((1024 + 1) * 4, blockpagetag block page 0), (1024 * 4, oper)]"

definition eraseBlock ::
  "(u32 \<Rightarrow> u32 \<Rightarrow> 's \<Rightarrow> 's option) \<Rightarrow> u32 \<Rightarrow> u32 \<Rightarrow> u32 \<Rightarrow> 's flash \<Rightarrow> 's flash option" where
  "eraseBlock ww bus chip block f = do {
     s \<leftarrow> each (\<lambda>(a, d). ww a d) (flash_writes bus chip block 0 0) (pcie f);
     Some (f\<lparr>pcie := s\<rparr>)
   }"

definition writePage ::
  "(u32 \<Rightarrow> u32 \<Rightarrow> 's \<Rightarrow> 's option) \<Rightarrow> u32 \<Rightarrow> u32 \<Rightarrow> u32 \<Rightarrow> u32 \<Rightarrow> page_buffer \<Rightarrow> 's flash \<Rightarrow> 's flash option" where
  "writePage ww bus chip block page buf f = do {
     s \<leftarrow> each (\<lambda>(a, d). ww a d) (flash_writes bus chip block page 2) (pcie f);
     Some (f\<lparr>pcie := s, storebuffer := Some buf\<rparr>)
   }"

definition readPage ::
  "(u32 \<Rightarrow> u32 \<Rightarrow> 's \<Rightarrow> 's option) \<Rightarrow> u32 \<Rightarrow> u32 \<Rightarrow> u32 \<Rightarrow> u32 \<Rightarrow> page_buffer \<Rightarrow> 's flash \<Rightarrow> 's flash option" where
  "readPage ww bus chip block page buf f = do {
     s \<leftarrow> each (\<lambda>(a, d). ww a d) (flash_writes bus chip block page 1) (pcie f);
     Some (f\<lparr>pcie := s, storebuffer := Some buf\<rparr>)
   }"

text \<open>The program up to its \<open>exit(1)\<close>, and the magic word it prints.\<close>

definition flash_main ::
  "(u32 \<Rightarrow> 's \<Rightarrow> (u32 \<times> 's) option) \<Rightarrow> (u32 \<Rightarrow> u32 \<Rightarrow> 's \<Rightarrow> 's option) \<Rightarrow> 's \<Rightarrow> (u32 \<times> 's flash) option" where
  "flash_main rw ww s = do {
     s \<leftarrow> ww 0 0 s;
     (d, s) \<leftarrow> rw 0 s;
     f \<leftarrow> eraseBlock ww 1 1 1 \<lparr>pcie = s, storebuffer = None\<rparr>;
     f \<leftarrow> writePage ww 1 1 1 0 PageBufferW f;
     Some (d, f)
   }"

text \<open>Any sequence of calls of the class.\<close>

datatype flash_op =
  EraseBlock u32 u32 u32
| WritePage u32 u32 u32 u32 page_buffer
| ReadPage u32 u32 u32 u32 page_buffer

fun flash_call :: "(u32 \<Rightarrow> u32 \<Rightarrow> 's \<Rightarrow> 's option) \<Rightarrow> flash_op \<Rightarrow> 's flash \<Rightarrow> 's flash option" where
  "flash_call ww (EraseBlock bus chip block) f = eraseBlock ww bus chip block f"
| "flash_call ww (WritePage bus chip block page buf) f = writePage ww bus chip block page buf f"
| "flash_call ww (ReadPage bus chip block page buf) f = readPage ww bus chip block page buf f"

fun op_writes :: "flash_op \<Rightarrow> (u32 \<times> u32) list" where
  "op_writes (EraseBlock bus chip block) = flash_writes bus chip block 0 0"
| "op_writes (WritePage bus chip block page buf) = flash_writes bus chip block page 2"
| "op_writes (ReadPage bus chip block page buf) = flash_writes bus chip block page 1"

fun op_buffer :: "flash_op \<Rightarrow> page_buffer option \<Rightarrow> page_buffer option" where
  "op_buffer (EraseBlock bus chip block) b = b"
| "op_buffer (WritePage bus chip block page buf) b = Some buf"
| "op_buffer (ReadPage bus chip block page buf) b = Some buf"

lemma flash_call_writes:
  "flash_call ww x f = map_option (\<lambda>s. f\<lparr>pcie := s, storebuffer := op_buffer x (storebuffer f)\<rparr>)
     (each (\<lambda>(a, d). ww a d) (op_writes x) (pcie f))"
  by (cases x; cases "each (\<lambda>(a, d). ww a d) (op_writes x) (pcie f)")
    (simp_all add: eraseBlock_def writePage_def readPage_def)

lemma each_append: "each f (xs @ ys) s = Option.bind (each f xs s) (each f ys)"
  by (induction xs arbitrary: s) (simp_all add: Option.bind_assoc)

lemma flash_calls_write:
  "each (flash_call ww) xs f = map_option (\<lambda>s. f\<lparr>pcie := s, storebuffer := fold op_buffer xs (storebuffer f)\<rparr>)
     (each (\<lambda>(a, d). ww a d) (concat (map op_writes xs)) (pcie f))"
proof (induction xs arbitrary: f)
  case (Cons x xs)
  then show ?case
    by (cases "each (\<lambda>(a, d). ww a d) (op_writes x) (pcie f)")
      (simp_all add: flash_call_writes each_append)
qed simp

text \<open>The fields of a command do not overlap as long as page and chip fit in eight bits.\<close>

lemma bit_small:
  fixes x :: u32
  assumes "unat x < 2 ^ n" "n \<le> k"
  shows "\<not> bit x k"
proof -
  have "take_bit n x = x" using assms(1) by (simp add: word_unat_eq_iff unsigned_take_bit_eq take_bit_nat_eq_self_iff)
  then show ?thesis using assms(2) by (metis bit_take_bit_iff leD)
qed

lemma command_fields:
  assumes "unat block < 2 ^ 16" "unat page < 2 ^ 8" "unat tag < 2 ^ 8" "unat chip < 2 ^ 8"
  shows "drop_bit 16 (blockpagetag block page tag) = block"
    "take_bit 8 (drop_bit 8 (blockpagetag block page tag)) = page"
    "take_bit 8 (blockpagetag block page tag) = tag" "take_bit 8 (buschip bus chip) = chip"
  using bit_small [OF assms(1)] bit_small [OF assms(2)] bit_small [OF assms(3)] bit_small [OF assms(4)]
  by (auto intro!: bit_word_eqI simp: blockpagetag_def buschip_def bit_take_bit_iff bit_drop_bit_eq
      bit_or_iff bit_push_bit_iff) (metis leI)+

subsection \<open>The commands on the device\<close>

lemma each_write_words: "each (\<lambda>(a, d). writeWord dev_read dev_write a d) ws s = write_words ws s"
  by (induction ws s rule: write_words.induct) (simp_all split: option.splits)

lemma op_writes_config: "list_all (config_addr \<circ> fst) (op_writes x)" "length (op_writes x) = 3"
  by (cases x; simp add: flash_writes_def config_addr_def CONFIG_BUFFER_SIZE_def)+

lemma ops_writes_config:
  "list_all (config_addr \<circ> fst) (concat (map op_writes xs))" "length (concat (map op_writes xs)) = 3 * length xs"
  by (induction xs) (simp_all add: op_writes_config)

text \<open>A write to the configuration space reaches no user logic.\<close>

lemma config_write_written:
  assumes "a < CONFIG_BUFFER_SIZE" "writeWord dev_read dev_write a v s = Some s'"
  shows "dev_written (snd s') = dev_written (snd s)"
proof -
  have w: "dev_written (dev_write d (drop_bit 2 a) v) = dev_written d" for d :: "'a pcidev"
    using config_access(2) [OF assms(1)] advance_views(2) [of d]
    by (simp add: dev_write_def Let_def dev_views)
  obtain p d where s: "s = (p, d)" by (cases s)
  show ?thesis
  proof (cases "io_wbudget p > 0")
    case True
    then show ?thesis using assms(2) w s by (auto simp: writeWord_def split: if_splits)
  next
    case False
    let ?b = "\<lambda>(e, d). io_wreq p - e \<ge> IO_QUEUE_SIZE div 2" and ?c = "\<lambda>(e, d). dev_read d wemit_idx"
    obtain e d1 where l: "while_option ?b ?c (dev_read d wemit_idx) = Some (e, d1)"
      and s': "snd s' = dev_write d1 (drop_bit 2 a) v"
      using assms(2) s False by (auto simp: writeWord_def split: if_splits option.splits)
    have "dev_written (snd (e, d1)) = dev_written d"
      by (rule while_option_rule [where P = "\<lambda>s. dev_written (snd s) = dev_written d", OF _ l])
        (auto simp: case_prod_unfold)
    then show ?thesis using w s s' by simp
  qed
qed

lemma write_words_written:
  assumes "list_all (config_addr \<circ> fst) ws" "write_words ws s = Some s'"
  shows "dev_written (snd s') = dev_written (snd s)"
  using assms
proof (induction ws s rule: write_words.induct)
  case (2 a v ws s)
  then obtain s1 where "writeWord dev_read dev_write a v s = Some s1" "write_words ws s1 = Some s'"
    by (auto split: option.splits)
  then show ?case using 2 config_write_written [of a v s s1] by (simp add: config_addr_def)
qed simp

text \<open>171 commands use up the window.\<close>

lemma flash_commands_exhaust:
  assumes "userWriteQ d = []" "length xs = 171"
  shows "\<exists>f. each (flash_call (writeWord dev_read dev_write)) xs \<lparr>pcie = Init_Pcie dev_write d, storebuffer = b\<rparr> = Some f
    \<and> dev_written (snd (pcie f)) = dev_written d
    \<and> (\<forall>x. flash_call (writeWord dev_read dev_write) x f = None)"
proof -
  note c = ops_writes_config [of xs]
  have len: "length (concat (map op_writes xs)) = 513" using c(2) assms(2) by simp
  obtain s where s: "write_words (concat (map op_writes xs)) (Init_Pcie dev_write d) = Some s"
    using config_writes_exhaust [OF assms(1) c(1) len] by blast
  then have stuck: "writeWord dev_read dev_write a v s = None" for a v
    using config_writes_exhaust [OF assms(1) c(1) len, of a v] by auto
  have "dev_written (snd s) = dev_written d"
    using write_words_written [OF c(1) s] init_views(4) [OF assms(1)] by (simp add: Init_Pcie_def)
  moreover have "each (\<lambda>(a, v). writeWord dev_read dev_write a v) (op_writes x) s = None" for x
    by (cases x) (simp_all add: flash_writes_def stuck)
  ultimately show ?thesis
    using s by (simp add: flash_calls_write flash_call_writes each_write_words)
qed

text \<open>The program returns; what it asks for goes nowhere.\<close>

lemma flash_main_device:
  assumes "userWriteQ d = []"
  shows "\<exists>f. flash_main (readWord dev_read) (writeWord dev_read dev_write) (Init_Pcie dev_write d) = Some (0xc001d00d, f)
    \<and> dev_written (snd (pcie f)) = dev_written d \<and> storebuffer f = Some PageBufferW"
proof -
  obtain d1 where d1: "Init_Pcie dev_write d =
      (\<lparr>io_wreq = 0, io_rreq = 0, io_wbudget = 0, io_rbudget = 0\<rparr>, d1)" "dev_idle d1"
    using Init_Pcie_idle [OF assms] by blast
  have w1: "dev_written d1 = dev_written d" using d1(1) init_views(4) [OF assms] by (simp add: Init_Pcie_def)
  obtain d2 where d2: "dev_read d1 wemit_idx = (0, d2)" "dev_idle d2" "dev_written d2 = dev_written d1"
    using dev_idle_status(1) [OF d1(2)] dev_read_views(2) [of d1 wemit_idx]
    by (cases "dev_read d1 wemit_idx") auto
  let ?d3 = "dev_write d2 0 0" and ?p = "\<lparr>io_wreq = 513, io_rreq = 0, io_wbudget = 512, io_rbudget = 0\<rparr>"
  have d3: "dev_idle ?d3" "dev_written ?d3 = dev_written d2"
    using dev_idle_advance [OF d2(2)] advance_views(2) [of d2]
    by (simp_all add: dev_write_def bar_addr_def Let_def dev_idle_def dev_views)
  have ww: "writeWord dev_read dev_write 0 0 (Init_Pcie dev_write d) = Some (?p, ?d3)"
    using config_access(1) [of 0] d2(1) unfolding d1(1)
    by (simp add: writeWord_def poll_at_once IO_QUEUE_SIZE_def CONFIG_BUFFER_SIZE_def)
  obtain d4 where d4: "dev_read ?d3 remit_idx = (0, d4)" "dev_idle d4" "dev_written d4 = dev_written ?d3"
    using dev_idle_status(2) [OF d3(1)] dev_read_views(2) [of ?d3 remit_idx]
    by (cases "dev_read ?d3 remit_idx") auto
  let ?d5 = "dev_advance d4" and ?q = "\<lparr>io_wreq = 513, io_rreq = 1, io_wbudget = 512, io_rbudget = 512\<rparr>"
  have rd: "dev_read d4 0 = (0xc001d00d, ?d5)" by (simp add: dev_read_def bar_addr_def Let_def)
  have rw: "readWord dev_read 0 (?p, ?d3) = Some (0xc001d00d, ?q, ?d5)"
    using config_access(1) [of 0] d4(1) rd
    by (simp add: readWord_def poll_at_once IO_QUEUE_SIZE_def CONFIG_BUFFER_SIZE_def Let_def)
  let ?xs = "[EraseBlock 1 1 1, WritePage 1 1 1 0 PageBufferW]"
  note c = ops_writes_config [of ?xs]
  obtain s where s: "write_words (concat (map op_writes ?xs)) (?q, ?d5) = Some s"
    using write_words_budget [OF dev_idle_advance [OF d4(2)] c(1), of ?q] c(2) by auto
  then have "dev_written (snd s) = dev_written d"
    using write_words_written [OF c(1) s] d4(3) d3(2) d2(3) w1 by simp
  moreover have "flash_main (readWord dev_read) (writeWord dev_read dev_write) (Init_Pcie dev_write d) =
      map_option (\<lambda>f. (0xc001d00d, f)) (each (flash_call (writeWord dev_read dev_write)) ?xs \<lparr>pcie = (?q, ?d5), storebuffer = None\<rparr>)"
    by (auto simp: flash_main_def ww rw split: Option.bind_splits)
  moreover have "each (flash_call (writeWord dev_read dev_write)) ?xs \<lparr>pcie = (?q, ?d5), storebuffer = None\<rparr> =
      Some \<lparr>pcie = s, storebuffer = Some PageBufferW\<rparr>"
    unfolding flash_calls_write each_write_words using s by simp
  ultimately show ?thesis by simp
qed

end
