(* ===== verification/DriverTest.thy ===== *)
theory DriverTest
  imports PcieDev DriverPages
begin

text \<open>
  The test program of the driver, \<^verbatim>\<open>distribute/driver/test/test.cpp\<close>: it maps the registers
  and the buffer and uses them directly, without the library. \<open>rd\<close> and \<open>wr\<close> are the accesses
  \<open>ummd[i]\<close>, \<open>buf\<close> the words of the second mapping. Sleeps and the clock are left out; its
  thread is in PollThreads.
\<close>

definition TEST_MAGIC :: u32 where
  "TEST_MAGIC = 0xc001d001"

record test_out =
  test_magic :: u32
  ioctl_alloc_dma :: u32
  test_regs :: "u32 list"
  test_buffer :: "u32 list"

fun peek :: "('d \<Rightarrow> u32 \<Rightarrow> u32 \<times> 'd) \<Rightarrow> u32 list \<Rightarrow> 'd \<Rightarrow> u32 list \<times> 'd" where
  "peek rd [] d = ([], d)"
| "peek rd (i # is) d = (let (x, d) = rd d i; (xs, d) = peek rd is d in (x # xs, d))"

definition driver_test ::
  "('d \<Rightarrow> u32 \<Rightarrow> u32 \<times> 'd) \<Rightarrow> ('d \<Rightarrow> u32 \<Rightarrow> u32 \<Rightarrow> 'd) \<Rightarrow> ('d \<Rightarrow> nat \<Rightarrow> u32) \<Rightarrow> 'd \<Rightarrow> test_out \<times> 'd" where
  "driver_test rd wr buf d =
     (let (magic, d) = rd d 0;
          (cmd, d) = rd d 1;
          (regs, d) = peek rd (map of_nat [0 ..< 32]) d;
          d = wr d 1024 8;
          d = wr d (1024 + 1) 1;
          d = wr d (1024 + 2) 8;
          words = map (buf d) [0 ..< 128]
      in (\<lparr>test_magic = magic, ioctl_alloc_dma = cmd, test_regs = regs, test_buffer = words\<rparr>, d))"

text \<open>The table the driver has written to BAR 0, as the device gets it word by word.\<close>

definition take_table :: "mem \<Rightarrow> 'u pcidev \<Rightarrow> 'u pcidev" where
  "take_table b d = fold (\<lambda>i d. dev_write d (of_nat (8 + i)) (load32 b (DMA_ADDR_OFFSET + 4 * i))) [0 ..< 256] d"

subsection \<open>The configuration space of the device\<close>

lemma config_word:
  assumes "n < 4094"
  shows "bar_addr (of_nat n) < io_userspace_offset - 8" "drop_bit 2 (bar_addr (of_nat n)) = of_nat n"
    "bar_addr (of_nat n) = 0 \<longleftrightarrow> n = 0" "bar_addr (of_nat n) = 4 \<longleftrightarrow> n = 1"
proof -
  have u: "unat (of_nat n :: u32) = n" using assms by (intro unat_of_nat_small) simp
  then have a: "unat (bar_addr (of_nat n)) = 4 * n"
    using assms unat_bar_addr [of "of_nat n"] by (simp add: in_bar0_def BAR0_SIZE_def)
  then show "bar_addr (of_nat n) < io_userspace_offset - 8"
    using assms by (simp add: word_less_nat_alt io_userspace_offset_def)
  have "unat (of_nat n :: ioaddr) = n" using assms by (intro unat_of_nat_small) simp
  then show "drop_bit 2 (bar_addr (of_nat n)) = of_nat n"
    by (simp add: word_unat_eq_iff unat_drop_bit a)
  show "bar_addr (of_nat n) = 0 \<longleftrightarrow> n = 0" "bar_addr (of_nat n) = 4 \<longleftrightarrow> n = 1"
    by (simp_all add: word_unat_eq_iff a)
qed

lemma config_word_inj: "m < 4094 \<Longrightarrow> n < 4094 \<Longrightarrow> (of_nat m :: ioaddr) = of_nat n \<longleftrightarrow> m = n"
  by (simp add: word_unat_eq_iff unsigned_of_nat take_bit_eq_mod)

lemma advance_config [simp]: "configBuffer (dev_advance d) = configBuffer d"
  by (simp add: dev_advance_def Let_def)

lemma user_views_config [simp]:
  "dev_written (d\<lparr>configBuffer := c\<rparr>) = dev_written d" "dev_issued (d\<lparr>configBuffer := c\<rparr>) = dev_issued d"
  by (simp_all add: dev_views)

lemma below_user: "a < io_userspace_offset - 8 \<Longrightarrow> a < io_userspace_offset"
  by (simp add: word_less_nat_alt io_userspace_offset_def)

lemma dev_write_config_word:
  assumes "0 < n" "n < 4094"
  shows "dev_write d (of_nat n) v = (dev_advance d)\<lparr>configBuffer := (configBuffer d)(of_nat n := v)\<rparr>"
  using config_word [OF assms(2)] assms(1) below_user by (simp add: dev_write_def Let_def)

lemmas test_writes = dev_write_config_word [of 1024, simplified] dev_write_config_word [of 1025, simplified]
  dev_write_config_word [of 1026, simplified]

lemma dev_read_config_word:
  assumes "n < 4094"
  shows "dev_read d (of_nat n) =
    (if n = 0 then 0xc001d00d else if n = 1 then debugCode (dev_advance d) else configBuffer d (of_nat n), dev_advance d)"
  using config_word [OF assms] below_user by (auto simp: dev_read_def Let_def io_userspace_offset_def)

lemma peek_config:
  assumes "list_all (\<lambda>n. n < 4094) ns"
  shows "\<exists>xs d'. peek dev_read (map of_nat ns) d = (xs, d') \<and> length xs = length ns
    \<and> configBuffer d' = configBuffer d \<and> dev_written d' = dev_written d \<and> dev_issued d' = dev_issued d
    \<and> (\<forall>i < length ns. 2 \<le> ns ! i \<longrightarrow> xs ! i = configBuffer d (of_nat (ns ! i)))"
  using assms
proof (induction ns arbitrary: d)
  case (Cons n ns)
  obtain xs d' where "peek dev_read (map of_nat ns) (dev_advance d) = (xs, d')" "length xs = length ns"
    "configBuffer d' = configBuffer d" "dev_written d' = dev_written d" "dev_issued d' = dev_issued d"
    "\<forall>i < length ns. 2 \<le> ns ! i \<longrightarrow> xs ! i = configBuffer d (of_nat (ns ! i))"
    using Cons.IH [of "dev_advance d"] Cons.prems by auto
  then show ?case using Cons.prems by (auto simp: dev_read_config_word nth_Cons split: nat.splits)
qed simp

lemma take_table_word:
  assumes "m \<le> 256"
  shows "(\<forall>j < m. configBuffer (fold (\<lambda>i d. dev_write d (of_nat (8 + i)) (f i)) [0 ..< m] d) (of_nat (8 + j)) = f j)
    \<and> dev_written (fold (\<lambda>i d. dev_write d (of_nat (8 + i)) (f i)) [0 ..< m] d) = dev_written d"
  using assms
proof (induction m)
  case (Suc m)
  let ?d = "fold (\<lambda>i d. dev_write d (of_nat (8 + i)) (f i)) [0 ..< m] d"
  have "configBuffer (dev_write ?d (of_nat (8 + m)) (f m)) (of_nat (8 + j)) = f j" if "j < Suc m" for j
  proof (cases "j = m")
    case False
    then have "(of_nat (8 + j) :: ioaddr) \<noteq> of_nat (8 + m)"
      using that Suc.prems config_word_inj [of "8 + j" "8 + m"] by simp
    then show ?thesis
      using Suc that False dev_write_config_word [of "8 + m" ?d] by (simp del: of_nat_add)
  qed (use Suc.prems dev_write_config_word [of "8 + m" ?d] in \<open>simp del: of_nat_add\<close>)
  then show ?case
    using Suc dev_write_config_word [of "8 + m" ?d] by (simp del: of_nat_add)
qed simp

text \<open>What the program prints and leaves behind.\<close>

lemma driver_test_device:
  assumes "driver_test dev_read dev_write buf d = (out, d')"
  shows "test_magic out = 0xc001d00d" "length (test_regs out) = 32"
    "\<And>i. 2 \<le> i \<Longrightarrow> i < 32 \<Longrightarrow> test_regs out ! i = configBuffer d (of_nat i)"
    "dev_written d' = dev_written d" "dev_issued d' = dev_issued d"
    "configBuffer d' = (configBuffer d)(1024 := 8, 1025 := 1, 1026 := 8)"
    "test_buffer out = map (buf d') [0 ..< 128]"
proof -
  have ok: "list_all (\<lambda>n. n < 4094) [0 ..< 32]" by (simp add: list_all_iff)
  obtain xs d1 where p: "peek dev_read (map of_nat [0 ..< 32]) (dev_advance (dev_advance d)) = (xs, d1)"
      "length xs = 32" "configBuffer d1 = configBuffer d" "dev_written d1 = dev_written d" "dev_issued d1 = dev_issued d"
      "\<forall>i < 32. 2 \<le> i \<longrightarrow> xs ! i = configBuffer d (of_nat i)"
    using peek_config [OF ok, of "dev_advance (dev_advance d)"] by auto
  note r = dev_read_config_word [of 0] dev_read_config_word [of 1]
  have o: "out = \<lparr>test_magic = 0xc001d00d, ioctl_alloc_dma = debugCode (dev_advance (dev_advance d)), test_regs = xs,
      test_buffer = map (buf d') [0 ..< 128]\<rparr>"
    and d': "d' = (let d = dev_write d1 1024 8; d = dev_write d 1025 1 in dev_write d 1026 8)"
    using assms p(1) r [of d] r [of "dev_advance d"] by (auto simp: driver_test_def Let_def split: prod.splits)
  show "test_magic out = 0xc001d00d" "length (test_regs out) = 32" "test_buffer out = map (buf d') [0 ..< 128]"
    using p(2) by (simp_all add: o)
  show "\<And>i. 2 \<le> i \<Longrightarrow> i < 32 \<Longrightarrow> test_regs out ! i = configBuffer d (of_nat i)" using p(6) by (simp add: o)
  show "dev_written d' = dev_written d" "dev_issued d' = dev_issued d"
    "configBuffer d' = (configBuffer d)(1024 := 8, 1025 := 1, 1026 := 8)"
    using p(3-5) by (simp_all add: d' Let_def test_writes)
qed

text \<open>After a probe the words printed from the eighth on are the bus addresses of the first pages.\<close>

lemma driver_test_table:
  assumes "probe_ok k" "pages_given k 256 ps" "pcie_probe k s = (0, s')"
    and "driver_test dev_read dev_write buf (take_table (bar0 s') d) = (out, d')" "i < 24"
  shows "test_regs out ! (8 + i) = ucast (bus_addr k (ps ! i))"
proof -
  have ps: "length ps = 256" using assms(2) by (simp add: pages_given_def)
  have "bar0 s' = dma_table k ps 0 (bar0 s)" using probe_holds [OF assms(1,2), of s] assms(3) by (simp add: held_def)
  then have "load32 (bar0 s') (DMA_ADDR_OFFSET + 4 * i) = ucast (bus_addr k (ps ! i))"
    using dma_table_entry(1) [of i ps k 0 "bar0 s"] assms(5) ps by simp
  then show ?thesis
    using driver_test_device(3) [OF assms(4), of "8 + i"] assms(5)
      take_table_word [of 256 "\<lambda>i. load32 (bar0 s') (DMA_ADDR_OFFSET + 4 * i)" d]
    by (simp add: take_table_def del: of_nat_add)
qed

lemma take_table_written: "dev_written (take_table b d) = dev_written d"
  using take_table_word [of 256 _ d] by (simp add: take_table_def)

end
