(* ===== verification/PcieThreads.thy ===== *)
theory PcieThreads
  imports PcieDev
begin

text \<open>
  Several threads that use the host library of the device build at the same time: \<open>writeWord\<close> and
  \<open>readWord\<close> of \<^verbatim>\<open>cpp/bdbmpcie.cpp\<close> one access to the device at a time, under the mutexes
  \<open>write_lock\<close> and \<open>read_lock\<close>. A thread is a number with the calls it has still to make and the
  point it has reached in the call it is in; \<open>write_log\<close> and \<open>read_log\<close> record the writes that
  reached the device and the words read, with the thread. The steps of a thread that do not touch the device or a mutex
  are part of the step before.
\<close>

datatype thread_pc =
  Outside
| WriteCheck u32 u32
| WritePoll u32 u32 u32
| WriteStore u32 u32
| WriteUnlock
| ReadCheck u32
| ReadPoll u32 u32 u32
| ReadFetch u32 bool
| ReadCount
| ReadUnlock

record 'd threads =
  tio :: bdbm
  tdev :: 'd
  write_lock :: "nat option"
  read_lock :: "nat option"
  pc :: "nat \<Rightarrow> thread_pc"
  calls :: "nat \<Rightarrow> pio list"
  write_log :: "(nat \<times> u32 \<times> u32) list"
  read_log :: "(nat \<times> u32) list"

definition goto :: "nat \<Rightarrow> thread_pc \<Rightarrow> 'd threads \<Rightarrow> 'd threads" where
  "goto t c s = s\<lparr>pc := (pc s)(t := c)\<rparr>"

text \<open>\<open>pthread_mutex_lock\<close> at the beginning of a call; it waits (\<open>None\<close>) while the mutex is taken.\<close>

definition enter_call :: "nat \<Rightarrow> 'd threads \<Rightarrow> 'd threads option" where
  "enter_call t s =
     (case calls s t of
        [] \<Rightarrow> None
      | UserWrite a v # rest \<Rightarrow>
          if write_lock s = None
          then Some (goto t (WriteCheck a v) (s\<lparr>write_lock := Some t, calls := (calls s)(t := rest)\<rparr>))
          else None
      | UserRead a # rest \<Rightarrow>
          if read_lock s = None
          then Some (goto t (ReadCheck a) (s\<lparr>read_lock := Some t, calls := (calls s)(t := rest)\<rparr>))
          else None)"

definition write_check ::
  "('d \<Rightarrow> u32 \<Rightarrow> u32 \<times> 'd) \<Rightarrow> nat \<Rightarrow> u32 \<Rightarrow> u32 \<Rightarrow> 'd threads \<Rightarrow> 'd threads" where
  "write_check rd t a v s =
     (let p = tio s in
      if io_wbudget p > 0 then goto t (WriteStore a v) (s\<lparr>tio := p\<lparr>io_wbudget := io_wbudget p - 1\<rparr>\<rparr>)
      else (let (e, d) = rd (tdev s) wemit_idx in goto t (WritePoll a v e) (s\<lparr>tdev := d\<rparr>)))"

definition write_poll ::
  "('d \<Rightarrow> u32 \<Rightarrow> u32 \<times> 'd) \<Rightarrow> nat \<Rightarrow> u32 \<Rightarrow> u32 \<Rightarrow> u32 \<Rightarrow> 'd threads \<Rightarrow> 'd threads" where
  "write_poll rd t a v e s =
     (let p = tio s in
      if io_wreq p - e \<ge> IO_QUEUE_SIZE div 2
      then (let (e, d) = rd (tdev s) wemit_idx in goto t (WritePoll a v e) (s\<lparr>tdev := d\<rparr>))
      else goto t (WriteStore a v)
        (s\<lparr>tio := p\<lparr>io_wbudget := IO_QUEUE_SIZE - (io_wreq p - e),
                    io_wreq := io_wreq p + (IO_QUEUE_SIZE - (io_wreq p - e) + 1)\<rparr>\<rparr>))"

definition write_store :: "('d \<Rightarrow> u32 \<Rightarrow> u32 \<Rightarrow> 'd) \<Rightarrow> nat \<Rightarrow> u32 \<Rightarrow> u32 \<Rightarrow> 'd threads \<Rightarrow> 'd threads" where
  "write_store wr t a v s =
     goto t WriteUnlock
       (s\<lparr>tdev := wr (tdev s) (drop_bit 2 (a + CONFIG_BUFFER_SIZE)) v, write_log := write_log s @ [(t, a, v)]\<rparr>)"

definition read_check :: "('d \<Rightarrow> u32 \<Rightarrow> u32 \<times> 'd) \<Rightarrow> nat \<Rightarrow> u32 \<Rightarrow> 'd threads \<Rightarrow> 'd threads" where
  "read_check rd t a s =
     (let p = tio s in
      if io_rbudget p > 0
      then goto t (ReadFetch a True)
        (s\<lparr>tio := p\<lparr>io_rreq := 0xffff AND (io_rreq p + 1), io_rbudget := io_rbudget p - 1\<rparr>\<rparr>)
      else (let (e, d) = rd (tdev s) remit_idx;
                io_remit = e AND 0xffff;
                iob = (if io_remit > io_rreq p then io_rreq p + 0x10000 else io_rreq p)
            in goto t (ReadPoll a iob io_remit) (s\<lparr>tdev := d\<rparr>)))"

definition read_poll :: "('d \<Rightarrow> u32 \<Rightarrow> u32 \<times> 'd) \<Rightarrow> nat \<Rightarrow> u32 \<Rightarrow> u32 \<Rightarrow> u32 \<Rightarrow> 'd threads \<Rightarrow> 'd threads" where
  "read_poll rd t a iob io_remit s =
     (if iob \<ge> io_remit + IO_QUEUE_SIZE
      then (let (e, d) = rd (tdev s) remit_idx in goto t (ReadPoll a iob (e AND 0xffff)) (s\<lparr>tdev := d\<rparr>))
      else goto t (ReadFetch a False) (s\<lparr>tio := (tio s)\<lparr>io_rbudget := io_remit + IO_QUEUE_SIZE - iob\<rparr>\<rparr>))"

text \<open>The word is fetched; whether the read has been counted yet depends on the path.\<close>

definition read_fetch :: "('d \<Rightarrow> u32 \<Rightarrow> u32 \<times> 'd) \<Rightarrow> nat \<Rightarrow> u32 \<Rightarrow> bool \<Rightarrow> 'd threads \<Rightarrow> 'd threads" where
  "read_fetch rd t a counted s =
     (let (x, d) = rd (tdev s) (drop_bit 2 (a + CONFIG_BUFFER_SIZE)) in
      goto t (if counted then ReadUnlock else ReadCount) (s\<lparr>tdev := d, read_log := read_log s @ [(t, x)]\<rparr>))"

definition read_count :: "nat \<Rightarrow> 'd threads \<Rightarrow> 'd threads" where
  "read_count t s = goto t ReadUnlock (s\<lparr>tio := (tio s)\<lparr>io_rreq := 0xffff AND (io_rreq (tio s) + 1)\<rparr>\<rparr>)"

definition thread_step ::
  "('d \<Rightarrow> u32 \<Rightarrow> u32 \<times> 'd) \<Rightarrow> ('d \<Rightarrow> u32 \<Rightarrow> u32 \<Rightarrow> 'd) \<Rightarrow> nat \<Rightarrow> 'd threads \<Rightarrow> 'd threads option" where
  "thread_step rd wr t s =
     (case pc s t of
        Outside \<Rightarrow> enter_call t s
      | WriteCheck a v \<Rightarrow> Some (write_check rd t a v s)
      | WritePoll a v e \<Rightarrow> Some (write_poll rd t a v e s)
      | WriteStore a v \<Rightarrow> Some (write_store wr t a v s)
      | WriteUnlock \<Rightarrow> Some (goto t Outside (s\<lparr>write_lock := None\<rparr>))
      | ReadCheck a \<Rightarrow> Some (read_check rd t a s)
      | ReadPoll a iob io_remit \<Rightarrow> Some (read_poll rd t a iob io_remit s)
      | ReadFetch a counted \<Rightarrow> Some (read_fetch rd t a counted s)
      | ReadCount \<Rightarrow> Some (read_count t s)
      | ReadUnlock \<Rightarrow> Some (goto t Outside (s\<lparr>read_lock := None\<rparr>)))"

inductive threads_step :: "('d \<Rightarrow> u32 \<Rightarrow> u32 \<times> 'd) \<Rightarrow> ('d \<Rightarrow> u32 \<Rightarrow> u32 \<Rightarrow> 'd) \<Rightarrow> 'd threads \<Rightarrow> 'd threads \<Rightarrow> bool"
  for rd wr where
  step: "thread_step rd wr t s = Some s' \<Longrightarrow> threads_step rd wr s s'"

inductive_cases threads_stepE: "threads_step rd wr s s'"

text \<open>Threads that have not begun, on the library as its constructor leaves it.\<close>

definition threads_start :: "bdbm \<times> 'd \<Rightarrow> (nat \<Rightarrow> pio list) \<Rightarrow> 'd threads" where
  "threads_start s cs = \<lparr>tio = fst s, tdev = snd s, write_lock = None, read_lock = None, pc = (\<lambda>_. Outside),
     calls = cs, write_log = [], read_log = []\<rparr>"

lemma goto_sel [simp]:
  "tio (goto t c s) = tio s" "tdev (goto t c s) = tdev s" "write_lock (goto t c s) = write_lock s"
  "read_lock (goto t c s) = read_lock s" "pc (goto t c s) = (pc s)(t := c)" "calls (goto t c s) = calls s"
  "write_log (goto t c s) = write_log s" "read_log (goto t c s) = read_log s"
  by (simp_all add: goto_def)

subsection \<open>The mutexes\<close>

primrec in_write :: "thread_pc \<Rightarrow> bool" where
  "in_write Outside = False"
| "in_write (WriteCheck a v) = True"
| "in_write (WritePoll a v e) = True"
| "in_write (WriteStore a v) = True"
| "in_write WriteUnlock = True"
| "in_write (ReadCheck a) = False"
| "in_write (ReadPoll a iob e) = False"
| "in_write (ReadFetch a c) = False"
| "in_write ReadCount = False"
| "in_write ReadUnlock = False"

definition in_read :: "thread_pc \<Rightarrow> bool" where
  "in_read c \<longleftrightarrow> c \<noteq> Outside \<and> \<not> in_write c"

lemma in_read_simps [simp]:
  "\<not> in_read Outside" "\<not> in_read (WriteCheck a v)" "\<not> in_read (WritePoll a v e)" "\<not> in_read (WriteStore a v)"
  "\<not> in_read WriteUnlock" "in_read (ReadCheck a)" "in_read (ReadPoll a iob e)" "in_read (ReadFetch a c)"
  "in_read ReadCount" "in_read ReadUnlock"
  by (simp_all add: in_read_def)

definition locks_ok :: "'d threads \<Rightarrow> bool" where
  "locks_ok s \<longleftrightarrow> (\<forall>t. (write_lock s = Some t \<longleftrightarrow> in_write (pc s t)) \<and> (read_lock s = Some t \<longleftrightarrow> in_read (pc s t)))"

lemmas call_steps = write_check_def write_poll_def write_store_def read_check_def read_poll_def read_fetch_def
  read_count_def

lemma thread_step_cases:
  assumes "thread_step rd wr t s = Some s'"
  obtains (enter_write) a v rest where "pc s t = Outside" "calls s t = UserWrite a v # rest" "write_lock s = None"
      "s' = goto t (WriteCheck a v) (s\<lparr>write_lock := Some t, calls := (calls s)(t := rest)\<rparr>)"
  | (enter_read) a rest where "pc s t = Outside" "calls s t = UserRead a # rest" "read_lock s = None"
      "s' = goto t (ReadCheck a) (s\<lparr>read_lock := Some t, calls := (calls s)(t := rest)\<rparr>)"
  | (write_check) a v where "pc s t = WriteCheck a v" "s' = write_check rd t a v s"
  | (write_poll) a v e where "pc s t = WritePoll a v e" "s' = write_poll rd t a v e s"
  | (write_store) a v where "pc s t = WriteStore a v" "s' = write_store wr t a v s"
  | (write_unlock) "pc s t = WriteUnlock" "s' = goto t Outside (s\<lparr>write_lock := None\<rparr>)"
  | (read_check) a where "pc s t = ReadCheck a" "s' = read_check rd t a s"
  | (read_poll) a iob e where "pc s t = ReadPoll a iob e" "s' = read_poll rd t a iob e s"
  | (read_fetch) a c where "pc s t = ReadFetch a c" "s' = read_fetch rd t a c s"
  | (read_count) "pc s t = ReadCount" "s' = read_count t s"
  | (read_unlock) "pc s t = ReadUnlock" "s' = goto t Outside (s\<lparr>read_lock := None\<rparr>)"
  using assms
  by (auto simp: thread_step_def enter_call_def split: thread_pc.splits list.splits pio.splits if_splits)

lemma threads_start_locks: "locks_ok (threads_start s cs)"
  by (simp add: locks_ok_def threads_start_def)

lemma lock_holders:
  assumes "locks_ok s"
  shows "in_write (pc s t) \<Longrightarrow> write_lock s = Some t" "in_read (pc s t) \<Longrightarrow> read_lock s = Some t"
    "write_lock s = Some t \<Longrightarrow> in_write (pc s t)" "read_lock s = Some t \<Longrightarrow> in_read (pc s t)"
  using assms by (auto simp: locks_ok_def)

lemma thread_step_locks:
  assumes "thread_step rd wr t s = Some s'" "locks_ok s"
  shows "locks_ok s'"
proof -
  note l = assms(2) [unfolded locks_ok_def, rule_format]
  show ?thesis
    using assms(1)
  proof (cases rule: thread_step_cases)
    case write_unlock
    then have "write_lock s = Some t" using lock_holders(1) [OF assms(2), of t] by simp
    then have "in_write (pc s u) \<longleftrightarrow> u = t" for u using l [of u] by auto
    then show ?thesis using write_unlock l by (auto simp: locks_ok_def)
  next
    case read_unlock
    then have "read_lock s = Some t" using lock_holders(2) [OF assms(2), of t] by simp
    then have "in_read (pc s u) \<longleftrightarrow> u = t" for u using l [of u] by auto
    then show ?thesis using read_unlock l by (auto simp: locks_ok_def)
  qed (use l in \<open>auto simp: locks_ok_def call_steps Let_def split: prod.splits if_splits\<close>)
qed

text \<open>Where the holder of a mutex is; a step of another thread leaves it there.\<close>

definition write_pc :: "'d threads \<Rightarrow> thread_pc" where
  "write_pc s = (case write_lock s of None \<Rightarrow> Outside | Some t \<Rightarrow> pc s t)"

definition read_pc :: "'d threads \<Rightarrow> thread_pc" where
  "read_pc s = (case read_lock s of None \<Rightarrow> Outside | Some t \<Rightarrow> pc s t)"

lemma holder_pc:
  assumes "locks_ok s"
  shows "in_write (pc s t) \<Longrightarrow> write_pc s = pc s t" "in_read (pc s t) \<Longrightarrow> read_pc s = pc s t"
  using lock_holders [OF assms, of t] by (simp_all add: write_pc_def read_pc_def)

lemma other_pc:
  assumes "locks_ok s" "pc s' = (pc s)(t := c)"
  shows "\<not> in_write (pc s t) \<Longrightarrow> write_lock s' = write_lock s \<Longrightarrow> write_pc s' = write_pc s"
    "\<not> in_read (pc s t) \<Longrightarrow> read_lock s' = read_lock s \<Longrightarrow> read_pc s' = read_pc s"
proof -
  have "t \<noteq> u" if "write_lock s = Some u" "\<not> in_write (pc s t)" for u
    using lock_holders(3) [OF assms(1) that(1)] that(2) by auto
  then show "\<not> in_write (pc s t) \<Longrightarrow> write_lock s' = write_lock s \<Longrightarrow> write_pc s' = write_pc s"
    using assms(2) by (cases "write_lock s") (simp_all add: write_pc_def)
  have "t \<noteq> u" if "read_lock s = Some u" "\<not> in_read (pc s t)" for u
    using lock_holders(4) [OF assms(1) that(1)] that(2) by auto
  then show "\<not> in_read (pc s t) \<Longrightarrow> read_lock s' = read_lock s \<Longrightarrow> read_pc s' = read_pc s"
    using assms(2) by (cases "read_lock s") (simp_all add: read_pc_def)
qed

subsection \<open>The windows\<close>

primrec pc_user :: "thread_pc \<Rightarrow> bool" where
  "pc_user Outside = True"
| "pc_user (WriteCheck a v) = user_word a"
| "pc_user (WritePoll a v e) = user_word a"
| "pc_user (WriteStore a v) = user_word a"
| "pc_user WriteUnlock = True"
| "pc_user (ReadCheck a) = user_word a"
| "pc_user (ReadPoll a iob e) = user_word a"
| "pc_user (ReadFetch a c) = user_word a"
| "pc_user ReadCount = True"
| "pc_user ReadUnlock = True"

definition users_ok :: "'d threads \<Rightarrow> bool" where
  "users_ok s \<longleftrightarrow> (\<forall>t. pc_user (pc s t) \<and> list_all (user_word \<circ> pio_addr) (calls s t))"

lemma thread_step_users:
  assumes "thread_step rd wr t s = Some s'" "users_ok s"
  shows "users_ok s'"
  using assms(1)
proof (cases rule: thread_step_cases)
  case (enter_write a v rest)
  then have "list_all (user_word \<circ> pio_addr) (UserWrite a v # rest)" using assms(2) by (metis users_ok_def)
  then show ?thesis using assms(2) enter_write by (auto simp: users_ok_def)
next
  case (enter_read a rest)
  then have "list_all (user_word \<circ> pio_addr) (UserRead a # rest)" using assms(2) by (metis users_ok_def)
  then show ?thesis using assms(2) enter_read by (auto simp: users_ok_def)
qed (use assms(2) in \<open>auto simp: users_ok_def call_steps Let_def split: prod.splits if_splits dest: spec [of _ t]\<close>)

subsection \<open>What was asked for and what was done\<close>

definition call_writes :: "pio list \<Rightarrow> (u32 \<times> u32) list" where
  "call_writes cs = concat (map (\<lambda>c. case c of UserWrite a v \<Rightarrow> [(a, v)] | UserRead a \<Rightarrow> []) cs)"

lemma call_writes_simps [simp]:
  "call_writes [] = []" "call_writes (UserWrite a v # cs) = (a, v) # call_writes cs"
  "call_writes (UserRead a # cs) = call_writes cs"
  by (simp_all add: call_writes_def)

lemma pio_reads_simps [simp]:
  "pio_reads [] = 0" "pio_reads (UserWrite a v # cs) = pio_reads cs" "pio_reads (UserRead a # cs) = Suc (pio_reads cs)"
  by (simp_all add: pio_reads_def)

primrec pending_write :: "thread_pc \<Rightarrow> (u32 \<times> u32) list" where
  "pending_write Outside = []"
| "pending_write (WriteCheck a v) = [(a, v)]"
| "pending_write (WritePoll a v e) = [(a, v)]"
| "pending_write (WriteStore a v) = [(a, v)]"
| "pending_write WriteUnlock = []"
| "pending_write (ReadCheck a) = []"
| "pending_write (ReadPoll a iob e) = []"
| "pending_write (ReadFetch a c) = []"
| "pending_write ReadCount = []"
| "pending_write ReadUnlock = []"

primrec pending_read :: "thread_pc \<Rightarrow> nat" where
  "pending_read Outside = 0"
| "pending_read (WriteCheck a v) = 0"
| "pending_read (WritePoll a v e) = 0"
| "pending_read (WriteStore a v) = 0"
| "pending_read WriteUnlock = 0"
| "pending_read (ReadCheck a) = 1"
| "pending_read (ReadPoll a iob e) = 1"
| "pending_read (ReadFetch a c) = 1"
| "pending_read ReadCount = 0"
| "pending_read ReadUnlock = 0"

text \<open>Each thread's writes so far are a prefix of those it was to make, in its order; and it has got one
  word for each read.\<close>

definition writes_by :: "nat \<Rightarrow> 'd threads \<Rightarrow> (u32 \<times> u32) list" where
  "writes_by t s = map snd (filter (\<lambda>w. fst w = t) (write_log s))"

definition reads_by :: "nat \<Rightarrow> 'd threads \<Rightarrow> u32 list" where
  "reads_by t s = map snd (filter (\<lambda>r. fst r = t) (read_log s))"

definition calls_logged :: "(nat \<Rightarrow> pio list) \<Rightarrow> 'd threads \<Rightarrow> bool" where
  "calls_logged cs s \<longleftrightarrow> (\<forall>t. call_writes (cs t) = writes_by t s @ pending_write (pc s t) @ call_writes (calls s t)
     \<and> pio_reads (cs t) = length (reads_by t s) + pending_read (pc s t) + pio_reads (calls s t))"

lemma thread_step_logged:
  assumes "thread_step rd wr t s = Some s'" "calls_logged cs s"
  shows "calls_logged cs s'"
proof -
  note l = assms(2) [unfolded calls_logged_def, rule_format]
  show ?thesis
    using assms(1)
    by (cases rule: thread_step_cases)
      (use l l [of t] in \<open>auto simp: calls_logged_def writes_by_def reads_by_def call_steps write_store_def Let_def
        split: prod.splits if_splits\<close>)
qed

lemma threads_start_logged: "calls_logged cs (threads_start s cs)"
  by (simp add: calls_logged_def threads_start_def writes_by_def reads_by_def)

lemma threads_reach_logged:
  assumes "(threads_step rd wr)\<^sup>*\<^sup>* (threads_start s0 cs) s"
  shows "calls_logged cs s"
  using assms
  by (induction rule: rtranclp_induct) (auto simp: threads_start_logged elim: threads_stepE intro: thread_step_logged)

lemma threads_alone:
  assumes "locks_ok s"
  shows "in_write (pc s t) \<and> in_write (pc s u) \<longrightarrow> t = u" "in_read (pc s t) \<and> in_read (pc s u) \<longrightarrow> t = u"
  using lock_holders(1,2) [OF assms, of t] lock_holders(1,2) [OF assms, of u] by auto

lemma call_writes_map: "call_writes (map (\<lambda>(a, v). UserWrite a v) ws) = ws"
  by (induction ws) auto

text \<open>The threads cannot block each other: one that is in a call can go on, and if none is then the
  mutexes are free.\<close>

lemma threads_stuck:
  assumes "locks_ok s" "\<And>s'. \<not> threads_step rd wr s s'"
  shows "pc s t = Outside \<and> calls s t = []"
proof -
  have none: "thread_step rd wr u s = None" for u
    using assms(2) threads_step.step [of rd wr u s] by (cases "thread_step rd wr u s") auto
  have out: "pc s u = Outside" for u
    using none [of u] by (simp add: thread_step_def split: thread_pc.splits)
  have "write_lock s = None" "read_lock s = None"
    using lock_holders(3,4) [OF assms(1)] out by (metis in_write.simps(1) not_None_eq, metis in_read_simps(1) not_None_eq)
  then have "calls s t = []"
    using none [of t] out [of t] by (auto simp: thread_step_def enter_call_def split: list.splits pio.splits)
  then show ?thesis using out by simp
qed

text \<open>How much a thread has left to do, and all of them.\<close>

primrec pc_rank :: "u32 \<Rightarrow> thread_pc \<Rightarrow> nat" where
  "pc_rank wreq Outside = 0"
| "pc_rank wreq (WriteCheck a v) = 517"
| "pc_rank wreq (WritePoll a v e) = 3 + unat (wreq - e)"
| "pc_rank wreq (WriteStore a v) = 2"
| "pc_rank wreq WriteUnlock = 1"
| "pc_rank wreq (ReadCheck a) = 5"
| "pc_rank wreq (ReadPoll a iob e) = 4"
| "pc_rank wreq (ReadFetch a c) = 3"
| "pc_rank wreq ReadCount = 2"
| "pc_rank wreq ReadUnlock = 1"

definition thread_rank :: "'d threads \<Rightarrow> nat \<Rightarrow> nat" where
  "thread_rank s t = pc_rank (io_wreq (tio s)) (pc s t) + 518 * length (calls s t)"

definition only_threads :: "nat set \<Rightarrow> 'd threads \<Rightarrow> bool" where
  "only_threads T s \<longleftrightarrow> (\<forall>t. t \<notin> T \<longrightarrow> pc s t = Outside \<and> calls s t = [])"

lemma thread_step_in:
  assumes "thread_step rd wr t s = Some s'" "only_threads T s"
  shows "t \<in> T" "only_threads T s'"
proof -
  show "t \<in> T" using assms by (auto simp: only_threads_def thread_step_def enter_call_def)
  then show "only_threads T s'"
    using assms(2) by (cases rule: thread_step_cases [OF assms(1)])
      (auto simp: only_threads_def call_steps write_store_def Let_def split: prod.splits if_splits)
qed

end
