(* ===== verification/ThreadRuns.thy ===== *)
theory ThreadRuns
  imports PcieThreads
begin

text \<open>
  What the threads of PcieThreads can rely on, over any device with the interface of BdbmPcie: under the
  mutexes the windows hold whatever the interleaving, every write reaches the device once, every
  run ends when the device keeps taking writes, and every order of whole writes can happen.
\<close>

context flow_device
begin

text \<open>The window of writes when its holder is at \<open>c\<close>.\<close>

definition write_at :: "thread_pc \<Rightarrow> bdbm \<Rightarrow> 'd \<Rightarrow> bool" where
  "write_at c p d \<longleftrightarrow> (case c of
     WritePoll a v e \<Rightarrow> write_window (p, d) \<and> io_wbudget p = 0
       \<and> (\<exists>n. e = issued d - of_nat n \<and> queued d \<le> n \<and> n \<le> 513)
   | WriteStore a v \<Rightarrow> good d \<and> issued d + io_wbudget p + 1 = io_wreq p
       \<and> queued d + unat (io_wbudget p) < 513
   | _ \<Rightarrow> write_window (p, d))"

text \<open>The count of reads when its holder is at \<open>c\<close>.\<close>

definition read_at :: "thread_pc \<Rightarrow> bdbm \<Rightarrow> 'd \<Rightarrow> bool" where
  "read_at c p d \<longleftrightarrow> (case c of
     ReadPoll a iob e \<Rightarrow> io_rreq p = 0xffff AND reads d \<and> iob = io_rreq p \<and> e = io_rreq p
   | ReadFetch a counted \<Rightarrow> io_rreq p = 0xffff AND (reads d + (if counted then 1 else 0))
   | ReadCount \<Rightarrow> 0xffff AND (io_rreq p + 1) = 0xffff AND reads d
   | _ \<Rightarrow> io_rreq p = 0xffff AND reads d)"

lemma write_at_good: "write_at c p d \<Longrightarrow> good d"
  by (auto simp: write_at_def write_window_def split: thread_pc.splits)

lemma write_at_queued: "write_at c p d \<Longrightarrow> queued d \<le> 513"
  by (auto simp: write_at_def write_window_def split: thread_pc.splits)

lemma write_at_read [simp]:
  "write_at c (p\<lparr>io_rreq := x\<rparr>) d = write_at c p d" "write_at c (p\<lparr>io_rbudget := x\<rparr>) d = write_at c p d"
  "write_at c (p\<lparr>io_rreq := x, io_rbudget := y\<rparr>) d = write_at c p d"
  by (auto simp: write_at_def write_window_def split: thread_pc.splits)

lemma read_at_write [simp]:
  "read_at c (p\<lparr>io_wreq := x\<rparr>) d = read_at c p d" "read_at c (p\<lparr>io_wbudget := x\<rparr>) d = read_at c p d"
  "read_at c (p\<lparr>io_wbudget := x, io_wreq := y\<rparr>) d = read_at c p d"
  by (auto simp: read_at_def split: thread_pc.splits)

text \<open>An access of the other kind leaves them.\<close>

lemma window_rd: "write_window (p, d) \<Longrightarrow> write_window (p, snd (rd d i))"
  using good_rd [of d i] issued_rd [of d i] queued_rd [of d i] by (auto simp: write_window_def)

lemma write_at_rd: "write_at c p d \<Longrightarrow> write_at c p (snd (rd d i))"
  using good_rd [of d i] issued_rd [of d i] queued_rd [of d i] window_rd [of p d i]
  by (fastforce simp: write_at_def write_window_def split: thread_pc.splits)

lemma read_at_status: "read_at c p d \<Longrightarrow> good d \<Longrightarrow> read_at c p (snd (rd d wemit_idx))"
  using reads_status [of d wemit_idx] by (cases c) (simp_all add: read_at_def)

lemma read_at_wr: "read_at c p d \<Longrightarrow> good d \<Longrightarrow> user_index i \<Longrightarrow> read_at c p (wr d i v)"
  using reads_wr [of d i v] by (cases c) (simp_all add: read_at_def)

text \<open>The steps of a write.\<close>

lemma write_at_look:
  assumes "write_window (p, d)" "io_wbudget p = 0"
  shows "write_at (WritePoll a v (fst (rd d wemit_idx))) p (snd (rd d wemit_idx))"
proof -
  have g: "good d" "queued d \<le> 513" using assms by (auto simp: write_window_def)
  then have "fst (rd d wemit_idx) = issued (snd (rd d wemit_idx)) - of_nat (queued (snd (rd d wemit_idx)))"
    "queued (snd (rd d wemit_idx)) \<le> 513"
    using wemit_value [OF g(1)] issued_rd [OF g(1), of wemit_idx] queued_rd [OF g(1), of wemit_idx] by simp_all
  then show ?thesis using window_rd [OF assms(1), of wemit_idx] assms(2) by (auto simp: write_at_def)
qed

lemma write_at_allowed:
  assumes "write_window (p, d)" "io_wbudget p > 0"
  shows "write_at (WriteStore a v) (p\<lparr>io_wbudget := io_wbudget p - 1\<rparr>) d"
proof -
  have "unat (io_wbudget p - 1) = unat (io_wbudget p) - 1" "0 < unat (io_wbudget p)"
    using assms(2) by (auto simp: unat_minus_one unat_gt_0)
  then show ?thesis using assms(1) by (auto simp: write_at_def write_window_def)
qed

lemma write_at_refill:
  assumes "write_at (WritePoll a v e) p d" "\<not> io_wreq p - e \<ge> IO_QUEUE_SIZE div 2"
  shows "write_at (WriteStore a v) (p\<lparr>io_wbudget := IO_QUEUE_SIZE - (io_wreq p - e),
    io_wreq := io_wreq p + (IO_QUEUE_SIZE - (io_wreq p - e) + 1)\<rparr>) d"
proof -
  obtain n where w: "good d" "issued d = io_wreq p" and n: "e = issued d - of_nat n" "queued d \<le> n" "n \<le> 513"
    using assms(1) by (auto simp: write_at_def write_window_def)
  have eq: "io_wreq p - e = of_nat n" using n(1) w(2) by simp
  have "unat (of_nat n :: u32) = n" using n(3) by (simp add: unat_of_nat_small)
  then have lt: "n < 256" using assms(2) by (simp add: eq IO_QUEUE_SIZE_def word_le_nat_alt)
  have "unat (512 - of_nat n :: u32) = 512 - n"
    using lt by (subst unat_sub) (simp_all add: word_le_nat_alt unat_of_nat_small)
  then show ?thesis using w n(2) lt by (simp add: write_at_def eq IO_QUEUE_SIZE_def)
qed

lemma write_at_store:
  assumes "write_at (WriteStore a v) p d" "user_index i"
  shows "write_window (p, wr d i v)"
  using assms good_wr [of d i v] issued_wr [of d i v] queued_wr [of d i v]
  by (auto simp: write_at_def write_window_def algebra_simps)

text \<open>The steps of a read.\<close>

lemma and_ffff_add_one: "0xffff AND ((0xffff AND x) + 1) = 0xffff AND ((x :: u32) + 1)"
  by (rule and_mask_add_one)

lemma read_at_look:
  assumes "io_rreq p = 0xffff AND reads d" "good d" and "e = fst (rd d remit_idx) AND 0xffff"
  shows "read_at (ReadPoll a (if e > io_rreq p then io_rreq p + 0x10000 else io_rreq p) e) p (snd (rd d remit_idx))"
proof -
  have "e = io_rreq p" using assms remit_value [OF assms(2)] by (simp add: and.commute)
  then show ?thesis using assms(1) reads_status [OF assms(2), of remit_idx] by (simp add: read_at_def)
qed

lemma read_at_no_wait:
  assumes "read_at (ReadPoll a iob e) p d"
  shows "\<not> iob \<ge> e + IO_QUEUE_SIZE"
proof -
  have e: "iob = e" "e = 0xffff AND reads d" using assms by (auto simp: read_at_def)
  then have "unat e < 2 ^ 16" by (simp add: unat_and_ffff)
  then have "unat (e + 512) = unat e + 512" by (simp add: unat_word_ariths)
  then show ?thesis by (simp add: e(1) IO_QUEUE_SIZE_def word_le_nat_alt)
qed

lemma read_at_fetch:
  assumes "read_at (ReadFetch a counted) p d" "good d" "user_index i"
  shows "read_at (if counted then ReadUnlock else ReadCount) p (snd (rd d i))"
  using assms reads_user [OF assms(2,3)] by (simp add: read_at_def and_ffff_add_one)

text \<open>Both together, whatever the other threads do.\<close>

definition threads_ok :: "'d threads \<Rightarrow> bool" where
  "threads_ok s \<longleftrightarrow> locks_ok s \<and> users_ok s \<and> write_at (write_pc s) (tio s) (tdev s) \<and> read_at (read_pc s) (tio s) (tdev s)"

lemma thread_step_ok:
  assumes "thread_step rd wr t s = Some s'" "threads_ok s"
  shows "threads_ok s'"
proof -
  have l: "locks_ok s" and u: "users_ok s" and w: "write_at (write_pc s) (tio s) (tdev s)"
    and r: "read_at (read_pc s) (tio s) (tdev s)" using assms(2) by (simp_all add: threads_ok_def)
  have l': "locks_ok s'" by (rule thread_step_locks [OF assms(1) l])
  have u': "users_ok s'" by (rule thread_step_users [OF assms(1) u])
  have ut: "pc_user (pc s t)" using u by (simp add: users_ok_def)
  note g = write_at_good [OF w]
  note hp = holder_pc [OF l, of t] holder_pc [OF l', of t] and op = other_pc [OF l, of s' t]
  have "write_at (write_pc s') (tio s') (tdev s') \<and> read_at (read_pc s') (tio s') (tdev s')"
    using assms(1)
  proof (cases rule: thread_step_cases)
    case (enter_write a v rest)
    then have "write_pc s = Outside" "write_pc s' = WriteCheck a v" "read_pc s' = read_pc s"
      using hp(3) op(2) by (simp_all add: write_pc_def)
    then show ?thesis using w r enter_write by (simp add: write_at_def)
  next
    case (enter_read a rest)
    then have "read_pc s = Outside" "read_pc s' = ReadCheck a" "write_pc s' = write_pc s"
      using hp(4) op(1) by (simp_all add: read_pc_def)
    then show ?thesis using w r enter_read by (simp add: read_at_def)
  next
    case (write_check a v)
    have p: "write_window (tio s, tdev s)" using w hp(1) write_check(1) by (simp add: write_at_def)
    show ?thesis
    proof (cases "io_wbudget (tio s) > 0")
      case True
      then have s': "s' = goto t (WriteStore a v) (s\<lparr>tio := (tio s)\<lparr>io_wbudget := io_wbudget (tio s) - 1\<rparr>\<rparr>)"
        using write_check(2) by (simp add: write_check_def Let_def)
      then have "write_pc s' = WriteStore a v" "read_pc s' = read_pc s" using hp(3) op(2) write_check(1) by simp_all
      then show ?thesis using write_at_allowed [OF p True] r s' by simp
    next
      case False
      then have b: "io_wbudget (tio s) = 0" by (simp add: word_gt_0)
      have s': "s' = goto t (WritePoll a v (fst (rd (tdev s) wemit_idx))) (s\<lparr>tdev := snd (rd (tdev s) wemit_idx)\<rparr>)"
        using write_check(2) False by (simp add: write_check_def Let_def case_prod_unfold)
      then have "write_pc s' = WritePoll a v (fst (rd (tdev s) wemit_idx))" "read_pc s' = read_pc s"
        using hp(3) op(2) write_check(1) by simp_all
      then show ?thesis using write_at_look [OF p b] read_at_status [OF r g] s' by simp
    qed
  next
    case (write_poll a v e)
    have p: "write_at (WritePoll a v e) (tio s) (tdev s)" using w hp(1) write_poll(1) by simp
    show ?thesis
    proof (cases "io_wreq (tio s) - e \<ge> IO_QUEUE_SIZE div 2")
      case True
      then have s': "s' = goto t (WritePoll a v (fst (rd (tdev s) wemit_idx))) (s\<lparr>tdev := snd (rd (tdev s) wemit_idx)\<rparr>)"
        using write_poll(2) by (simp add: write_poll_def Let_def case_prod_unfold)
      then have "write_pc s' = WritePoll a v (fst (rd (tdev s) wemit_idx))" "read_pc s' = read_pc s"
        using hp(3) op(2) write_poll(1) by simp_all
      then show ?thesis using p write_at_look [of "tio s" "tdev s" a v] read_at_status [OF r g] s'
        by (simp add: write_at_def)
    next
      case False
      then have s': "s' = goto t (WriteStore a v) (s\<lparr>tio := (tio s)\<lparr>io_wbudget := IO_QUEUE_SIZE - (io_wreq (tio s) - e),
          io_wreq := io_wreq (tio s) + (IO_QUEUE_SIZE - (io_wreq (tio s) - e) + 1)\<rparr>\<rparr>)"
        using write_poll(2) by (simp add: write_poll_def Let_def)
      then have "write_pc s' = WriteStore a v" "read_pc s' = read_pc s" using hp(3) op(2) write_poll(1) by simp_all
      then show ?thesis using write_at_refill [OF p False] r s' by simp
    qed
  next
    case (write_store a v)
    have p: "write_at (WriteStore a v) (tio s) (tdev s)" using w hp(1) write_store(1) by simp
    have i: "user_index (drop_bit 2 (a + CONFIG_BUFFER_SIZE))"
      using ut write_store(1) user_word_index(1) by simp
    have "write_pc s' = WriteUnlock" "read_pc s' = read_pc s"
      using hp(3) op(2) write_store by (simp_all add: write_store_def)
    then show ?thesis
      using write_at_store [OF p i] read_at_wr [OF r g i] write_store(2)
      by (simp add: write_store_def write_at_def)
  next
    case write_unlock
    then have "write_pc s = WriteUnlock" "write_pc s' = Outside" "read_pc s' = read_pc s"
      using hp(1) op(2) by (simp_all add: write_pc_def)
    then show ?thesis using w r write_unlock by (simp add: write_at_def)
  next
    case (read_check a)
    have p: "io_rreq (tio s) = 0xffff AND reads (tdev s)" using r hp(2) read_check(1) by (simp add: read_at_def)
    show ?thesis
    proof (cases "io_rbudget (tio s) > 0")
      case True
      then have s': "s' = goto t (ReadFetch a True) (s\<lparr>tio := (tio s)\<lparr>io_rreq := 0xffff AND (io_rreq (tio s) + 1),
          io_rbudget := io_rbudget (tio s) - 1\<rparr>\<rparr>)"
        using read_check(2) by (simp add: read_check_def Let_def)
      then have "read_pc s' = ReadFetch a True" "write_pc s' = write_pc s" using hp(4) op(1) read_check(1) by simp_all
      then show ?thesis using p w s' by (simp add: read_at_def and_ffff_add_one)
    next
      case False
      let ?e = "fst (rd (tdev s) remit_idx) AND 0xffff"
      let ?iob = "if ?e > io_rreq (tio s) then io_rreq (tio s) + 0x10000 else io_rreq (tio s)"
      have s': "s' = goto t (ReadPoll a ?iob ?e) (s\<lparr>tdev := snd (rd (tdev s) remit_idx)\<rparr>)"
        using read_check(2) False by (simp add: read_check_def Let_def case_prod_unfold)
      then have "read_pc s' = ReadPoll a ?iob ?e" "write_pc s' = write_pc s" using hp(4) op(1) read_check(1) by simp_all
      then show ?thesis using read_at_look [OF p g refl] write_at_rd [OF w] s' by simp
    qed
  next
    case (read_poll a iob e)
    have p: "read_at (ReadPoll a iob e) (tio s) (tdev s)" using r hp(2) read_poll(1) by simp
    then have s': "s' = goto t (ReadFetch a False) (s\<lparr>tio := (tio s)\<lparr>io_rbudget := e + IO_QUEUE_SIZE - iob\<rparr>\<rparr>)"
      using read_poll(2) read_at_no_wait [OF p] by (simp add: read_poll_def)
    then have "read_pc s' = ReadFetch a False" "write_pc s' = write_pc s" using hp(4) op(1) read_poll(1) by simp_all
    then show ?thesis using p w s' by (simp add: read_at_def)
  next
    case (read_fetch a c)
    have p: "read_at (ReadFetch a c) (tio s) (tdev s)" using r hp(2) read_fetch(1) by simp
    let ?i = "drop_bit 2 (a + CONFIG_BUFFER_SIZE)"
    have i: "user_index ?i" using ut read_fetch(1) user_word_index(1) by simp
    have s': "s' = goto t (if c then ReadUnlock else ReadCount)
        (s\<lparr>tdev := snd (rd (tdev s) ?i), read_log := read_log s @ [(t, fst (rd (tdev s) ?i))]\<rparr>)"
      using read_fetch(2) by (simp add: read_fetch_def case_prod_unfold Let_def)
    then have "read_pc s' = (if c then ReadUnlock else ReadCount)" "write_pc s' = write_pc s"
      using hp(4) op(1) read_fetch(1) by simp_all
    then show ?thesis using read_at_fetch [OF p g i] write_at_rd [OF w] s' by simp
  next
    case read_count
    then have "read_pc s = ReadCount" "read_pc s' = ReadUnlock" "write_pc s' = write_pc s"
      using hp(2,4) op(1) by (simp_all add: read_count_def)
    then show ?thesis using w r read_count by (simp add: read_count_def read_at_def)
  next
    case read_unlock
    then have "read_pc s = ReadUnlock" "read_pc s' = Outside" "write_pc s' = write_pc s"
      using hp(2) op(1) by (simp_all add: read_pc_def)
    then show ?thesis using w r read_unlock by (simp add: read_at_def)
  qed
  then show ?thesis using l' u' by (simp add: threads_ok_def)
qed

lemma threads_start_ok:
  assumes "write_window s" "io_rreq (fst s) = 0xffff AND reads (snd s)" "\<And>t. list_all (user_word \<circ> pio_addr) (cs t)"
  shows "threads_ok (threads_start s cs)"
proof -
  have "users_ok (threads_start s cs)" using assms(3) by (simp add: users_ok_def threads_start_def)
  then show ?thesis
    using assms(1,2) threads_start_locks [of s cs]
    by (simp add: threads_ok_def write_at_def read_at_def write_pc_def read_pc_def) (simp add: threads_start_def)
qed

lemma threads_reach_ok:
  assumes "(threads_step rd wr)\<^sup>*\<^sup>* s s'" "threads_ok s"
  shows "threads_ok s'"
  using assms by (induction rule: rtranclp_induct) (auto elim: threads_stepE intro: thread_step_ok)

text \<open>What reached the device is what was logged.\<close>

definition log_written :: "(ioaddr \<times> u32) list \<Rightarrow> 'd threads \<Rightarrow> bool" where
  "log_written w0 s \<longleftrightarrow> written (tdev s) = w0 @ map (\<lambda>(t, a, v). (ucast a, v)) (write_log s)"

lemma thread_step_written:
  assumes "thread_step rd wr t s = Some s'" "threads_ok s" "log_written w0 s"
  shows "log_written w0 s'"
proof -
  have g: "good (tdev s)" using assms(2) write_at_good by (auto simp: threads_ok_def)
  have u: "pc_user (pc s t)" using assms(2) by (simp add: threads_ok_def users_ok_def)
  note r = written_rd [OF g]
  show ?thesis
    using assms(1)
  proof (cases rule: thread_step_cases)
    case (write_store a v)
    then have "user_word a" using u by simp
    then show ?thesis
      using user_word_index [of a] written_wr [OF g, of "drop_bit 2 (a + CONFIG_BUFFER_SIZE)" v] assms(3) write_store(2)
      by (simp add: log_written_def write_store_def)
  qed (use assms(3) r in \<open>simp_all add: log_written_def call_steps Let_def case_prod_unfold\<close>)
qed

lemma threads_reach_written:
  assumes "(threads_step rd wr)\<^sup>*\<^sup>* s s'" "threads_ok s" "log_written w0 s"
  shows "log_written w0 s'"
  using assms
proof (induction rule: rtranclp_induct)
  case (step y z)
  then have "threads_ok y" using threads_reach_ok by blast
  then show ?case using step by (auto elim: threads_stepE intro: thread_step_written)
qed

end

context live_flow_device
begin

lemma thread_step_rank:
  assumes "thread_step rd wr t s = Some s'" "threads_ok s"
  shows "thread_rank s' t < thread_rank s t" "u \<noteq> t \<Longrightarrow> thread_rank s' u = thread_rank s u"
proof -
  have l: "locks_ok s" and w: "write_at (write_pc s) (tio s) (tdev s)" using assms(2) by (simp_all add: threads_ok_def)
  note hp = holder_pc [OF l, of t] and g = write_at_good [OF w]
  let ?d = "snd (rd (tdev s) wemit_idx)" and ?e = "fst (rd (tdev s) wemit_idx)"
  have look: "io_wreq (tio s) - ?e = of_nat (queued ?d)" "queued ?d \<le> queued (tdev s)" "unat (of_nat (queued ?d) :: u32) = queued ?d"
    if "write_window (tio s, tdev s)" "io_wbudget (tio s) = 0"
  proof -
    show "io_wreq (tio s) - ?e = of_nat (queued ?d)" using that wemit_value [OF g] by (simp add: write_window_def)
    show "queued ?d \<le> queued (tdev s)" by (rule queued_rd [OF g])
    moreover have "queued (tdev s) \<le> 513" using that(1) by (simp add: write_window_def)
    ultimately show "unat (of_nat (queued ?d) :: u32) = queued ?d" by (intro unat_of_nat_small) simp
  qed
  show "thread_rank s' t < thread_rank s t"
    using assms(1)
  proof (cases rule: thread_step_cases)
    case (write_check a v)
    have p: "write_window (tio s, tdev s)" using w hp(1) write_check(1) by (simp add: write_at_def)
    show ?thesis
    proof (cases "io_wbudget (tio s) > 0")
      case False
      then have "io_wbudget (tio s) = 0" by (simp add: word_gt_0)
      moreover have "queued (tdev s) \<le> 513" using p by (simp add: write_window_def)
      ultimately show ?thesis
        using look [OF p] write_check False by (simp add: thread_rank_def write_check_def Let_def case_prod_unfold)
    qed (use write_check in \<open>simp add: thread_rank_def write_check_def Let_def\<close>)
  next
    case (write_poll a v e)
    have p: "write_at (WritePoll a v e) (tio s) (tdev s)" using w hp(1) write_poll(1) by simp
    then obtain n where n: "write_window (tio s, tdev s)" "io_wbudget (tio s) = 0" "io_wreq (tio s) - e = of_nat n"
      "queued (tdev s) \<le> n" "n \<le> 513"
      by (auto simp: write_at_def write_window_def)
    have un: "unat (of_nat n :: u32) = n" using n(5) by (simp add: unat_of_nat_small)
    show ?thesis
    proof (cases "io_wreq (tio s) - e \<ge> IO_QUEUE_SIZE div 2")
      case True
      then have "256 \<le> n" using un by (simp add: n(3) IO_QUEUE_SIZE_def word_le_nat_alt)
      moreover have "queued ?d < n"
        using progress [OF g] look(2) [OF n(1,2)] n(4) calculation by (cases "queued (tdev s) = 0") auto
      ultimately show ?thesis
        using look [OF n(1,2)] write_poll True n(3) un
        by (simp add: thread_rank_def write_poll_def Let_def case_prod_unfold)
    next
      case False
      then show ?thesis using write_poll by (simp add: thread_rank_def write_poll_def Let_def)
    qed
  next
    case (read_poll a iob e)
    have "read_at (ReadPoll a iob e) (tio s) (tdev s)"
      using assms(2) hp(2) read_poll(1) by (simp add: threads_ok_def)
    then show ?thesis
      using read_at_no_wait read_poll by (simp add: thread_rank_def read_poll_def)
  qed (simp_all add: thread_rank_def call_steps write_store_def Let_def case_prod_unfold)
  show "thread_rank s' u = thread_rank s u" if "u \<noteq> t"
  proof -
    have other: "io_wreq (tio s') = io_wreq (tio s) \<or> \<not> in_write (pc s u)"
      using assms(1)
    proof (cases rule: thread_step_cases)
      case (write_poll a v e)
      then have "write_lock s = Some t" using lock_holders(1) [OF l, of t] by simp
      then show ?thesis using lock_holders(1) [OF l, of u] that by auto
    qed (simp_all add: call_steps write_store_def Let_def case_prod_unfold)
    have "pc s' u = pc s u \<and> calls s' u = calls s u"
      using assms(1) that by (cases rule: thread_step_cases)
        (auto simp: call_steps write_store_def Let_def case_prod_unfold)
    moreover have "pc_rank x c = pc_rank y c" if "\<not> in_write c" for x y c using that by (cases c) simp_all
    ultimately show ?thesis using other by (auto simp: thread_rank_def)
  qed
qed

text \<open>Every run is finite: each step leaves less to do.\<close>

lemma threads_steps_bound:
  assumes "(threads_step rd wr ^^ n) s s'" "threads_ok s" "finite T" "only_threads T s"
  shows "n + (\<Sum>t\<in>T. thread_rank s' t) \<le> (\<Sum>t\<in>T. thread_rank s t)"
proof -
  have "n + (\<Sum>t\<in>T. thread_rank s' t) \<le> (\<Sum>t\<in>T. thread_rank s t) \<and> threads_ok s' \<and> only_threads T s'"
    using assms(1)
  proof (induction n arbitrary: s')
    case 0
    then show ?case using assms(2,4) by simp
  next
    case (Suc n)
    then obtain y where y: "(threads_step rd wr ^^ n) s y" "threads_step rd wr y s'" by auto
    note ih = Suc.IH [OF y(1)]
    obtain t where t: "thread_step rd wr t y = Some s'" using y(2) by (auto elim: threads_stepE)
    note k = thread_step_in [OF t, of T] and r = thread_step_rank [OF t]
    have "(\<Sum>u\<in>T. thread_rank s' u) < (\<Sum>u\<in>T. thread_rank y u)"
    proof (rule sum_strict_mono_ex1 [OF assms(3)])
      show "\<forall>u\<in>T. thread_rank s' u \<le> thread_rank y u" using r ih by (metis eq_refl less_imp_le)
      show "\<exists>u\<in>T. thread_rank s' u < thread_rank y u" using k(1) r(1) ih by blast
    qed
    then show ?case using ih k(2) thread_step_ok [OF t] by simp
  qed
  then show ?thesis by simp
qed

text \<open>A thread that is left alone in a write makes it and leaves.\<close>

definition wrote :: "nat \<Rightarrow> u32 \<Rightarrow> u32 \<Rightarrow> 'd threads \<Rightarrow> 'd threads \<Rightarrow> bool" where
  "wrote t a v s s' \<longleftrightarrow> pc s' = (pc s)(t := Outside) \<and> calls s' = calls s \<and> write_lock s' = None
     \<and> read_lock s' = read_lock s \<and> write_log s' = write_log s @ [(t, a, v)] \<and> read_log s' = read_log s"

lemma write_stores:
  assumes "pc s t = WriteStore a v"
  shows "\<exists>s'. (threads_step rd wr)\<^sup>*\<^sup>* s s' \<and> wrote t a v s s'"
proof -
  let ?s1 = "write_store wr t a v s" and ?s2 = "goto t Outside ((write_store wr t a v s)\<lparr>write_lock := None\<rparr>)"
  have "threads_step rd wr s ?s1" using assms by (intro threads_step.step [of rd wr t]) (simp add: thread_step_def)
  moreover have "threads_step rd wr ?s1 ?s2"
    by (intro threads_step.step [of rd wr t]) (simp add: thread_step_def write_store_def)
  ultimately have "(threads_step rd wr)\<^sup>*\<^sup>* s ?s2" by (meson converse_rtranclp_into_rtranclp r_into_rtranclp)
  moreover have "wrote t a v s ?s2" by (simp add: wrote_def write_store_def)
  ultimately show ?thesis by blast
qed

lemma write_completes:
  assumes "threads_ok s" "in_write (pc s t)" "pending_write (pc s t) = [(a, v)]"
  shows "\<exists>s'. (threads_step rd wr)\<^sup>*\<^sup>* s s' \<and> wrote t a v s s'"
  using assms
proof (induction "thread_rank s t" arbitrary: s rule: less_induct)
  case less
  show ?case
  proof (cases "pc s t = WriteStore a v")
    case True
    then show ?thesis by (rule write_stores)
  next
    case False
    obtain s1 where s1: "thread_step rd wr t s = Some s1" "in_write (pc s1 t)" "pending_write (pc s1 t) = [(a, v)]"
      and same: "\<And>u. u \<noteq> t \<Longrightarrow> pc s1 u = pc s u" "calls s1 = calls s" "read_lock s1 = read_lock s"
        "write_log s1 = write_log s" "read_log s1 = read_log s"
      using less.prems(2,3) False
      by (cases "pc s t") (auto simp: thread_step_def write_check_def write_poll_def Let_def case_prod_unfold)
    from less.hyps [OF thread_step_rank(1) [OF s1(1) less.prems(1)] thread_step_ok [OF s1(1) less.prems(1)] s1(2,3)]
    obtain s' where s': "(threads_step rd wr)\<^sup>*\<^sup>* s1 s'" "wrote t a v s1 s'" by blast
    have "(pc s1)(t := Outside) = (pc s)(t := Outside)" using same(1) by (auto simp: fun_eq_iff)
    then have "wrote t a v s s'" using s'(2) same by (simp add: wrote_def)
    then show ?thesis using s'(1) threads_step.step [OF s1(1)] by (meson converse_rtranclp_into_rtranclp)
  qed
qed

lemma write_call:
  assumes "threads_ok s" "pc s t = Outside" "calls s t = UserWrite a v # rest" "write_lock s = None"
  shows "\<exists>s'. (threads_step rd wr)\<^sup>*\<^sup>* s s' \<and> wrote t a v (s\<lparr>calls := (calls s)(t := rest)\<rparr>) s'"
proof -
  let ?s1 = "goto t (WriteCheck a v) (s\<lparr>write_lock := Some t, calls := (calls s)(t := rest)\<rparr>)"
  have e: "thread_step rd wr t s = Some ?s1" using assms(2-4) by (simp add: thread_step_def enter_call_def)
  obtain s' where s': "(threads_step rd wr)\<^sup>*\<^sup>* ?s1 s'" "wrote t a v ?s1 s'"
    using write_completes [OF thread_step_ok [OF e assms(1)], of t a v] by auto
  have "wrote t a v (s\<lparr>calls := (calls s)(t := rest)\<rparr>) s'" using s'(2) by (simp add: wrote_def)
  then show ?thesis using s'(1) threads_step.step [OF e] by (meson converse_rtranclp_into_rtranclp)
qed

text \<open>Threads that only write can do so in any order that keeps each thread's own.\<close>

lemma writes_any_order:
  assumes "threads_ok s" "\<And>t. pc s t = Outside" "write_lock s = None"
    and "\<And>t. calls s t = map (\<lambda>(a, v). UserWrite a v) (map snd (filter (\<lambda>w. fst w = t) ws))"
  shows "\<exists>s'. (threads_step rd wr)\<^sup>*\<^sup>* s s' \<and> write_log s' = write_log s @ ws \<and> (\<forall>t. calls s' t = [] \<and> pc s' t = Outside)"
  using assms
proof (induction ws arbitrary: s)
  case Nil
  then show ?case by auto
next
  case (Cons w ws)
  obtain t a v where w: "w = (t, a, v)" by (cases w)
  let ?rest = "map (\<lambda>(a, v). UserWrite a v) (map snd (filter (\<lambda>w. fst w = t) ws))"
  have "calls s t = UserWrite a v # ?rest" using Cons.prems(4) [of t] by (simp add: w)
  from write_call [OF Cons.prems(1,2) this Cons.prems(3)]
  obtain s1 where s1: "(threads_step rd wr)\<^sup>*\<^sup>* s s1" "wrote t a v (s\<lparr>calls := (calls s)(t := ?rest)\<rparr>) s1" by blast
  have log: "write_log s1 = write_log s @ [(t, a, v)]" and "\<And>u. pc s1 u = Outside" "write_lock s1 = None"
    "\<And>u. calls s1 u = map (\<lambda>(a, v). UserWrite a v) (map snd (filter (\<lambda>w. fst w = u) ws))"
    using s1(2) Cons.prems(2,4) by (auto simp: wrote_def w)
  then obtain s' where "(threads_step rd wr)\<^sup>*\<^sup>* s1 s'" "write_log s' = write_log s1 @ ws"
    "\<forall>t. calls s' t = [] \<and> pc s' t = Outside"
    using Cons.IH [OF threads_reach_ok [OF s1(1) Cons.prems(1)]] by blast
  then show ?case using s1(1) log w by (intro exI [of _ s']) (auto intro: rtranclp_trans)
qed

end

subsection \<open>The device\<close>

lemma threads_init:
  fixes d :: "'u pcidev"
  assumes "userWriteQ d = []" "\<forall>t. list_all (user_word \<circ> pio_addr) (cs t)"
  shows "dev.threads_ok (threads_start (Init_Pcie dev_write d) cs)"
    "dev_live d \<Longrightarrow> dev_live.threads_ok (threads_start (Init_Pcie dev_write d) cs)"
    "dev.log_written (dev_written d) (threads_start (Init_Pcie dev_write d) cs)"
proof -
  note v = init_views [OF assms(1)]
  have "dev.write_window (Init_Pcie dev_write d)" using v by (simp add: Init_Pcie_def dev.write_window_def)
  then show "dev.threads_ok (threads_start (Init_Pcie dev_write d) cs)"
    using v assms(2) by (intro dev.threads_start_ok) (simp_all add: Init_Pcie_def)
  show "dev_live.threads_ok (threads_start (Init_Pcie dev_write d) cs)" if "dev_live d"
  proof -
    have "dev_live.write_window (Init_Pcie dev_write d)"
      using v that by (simp add: Init_Pcie_def dev_live.write_window_def dev_live_def)
    then show ?thesis using v assms(2) by (intro dev_live.threads_start_ok) (simp_all add: Init_Pcie_def)
  qed
  show "dev.log_written (dev_written d) (threads_start (Init_Pcie dev_write d) cs)"
    using v by (simp add: dev.log_written_def threads_start_def Init_Pcie_def)
qed

lemma device_threads_safe:
  assumes "userWriteQ d = []" "\<forall>t. list_all (user_word \<circ> pio_addr) (cs t)"
    and "(threads_step dev_read dev_write)\<^sup>*\<^sup>* (threads_start (Init_Pcie dev_write d) cs) s"
  shows "dev_written (tdev s) = dev_written d @ map (\<lambda>(t, a, v). (ucast a, v)) (write_log s)
    \<and> (\<forall>t. call_writes (cs t) = writes_by t s @ pending_write (pc s t) @ call_writes (calls s t))
    \<and> dev_queued (tdev s) \<le> 513
    \<and> (\<forall>t u. in_write (pc s t) \<and> in_write (pc s u) \<longrightarrow> t = u) \<and> (\<forall>t u. in_read (pc s t) \<and> in_read (pc s u) \<longrightarrow> t = u)"
proof -
  note i = threads_init [OF assms(1,2)]
  have ok: "dev.threads_ok s" by (rule dev.threads_reach_ok [OF assms(3) i(1)])
  then have "locks_ok s" "dev_queued (tdev s) \<le> 513"
    using dev.write_at_queued by (auto simp: dev.threads_ok_def)
  then show ?thesis
    using dev.threads_reach_written [OF assms(3) i(1,3)] threads_reach_logged [OF assms(3)]
      threads_alone [OF \<open>locks_ok s\<close>]
    unfolding dev.log_written_def calls_logged_def by blast
qed

lemma device_threads_finish:
  assumes "userWriteQ d = []" "\<forall>t. list_all (user_word \<circ> pio_addr) (cs t)" "dev_live d" "finite T" "\<forall>t. t \<notin> T \<longrightarrow> cs t = []"
    and "(threads_step dev_read dev_write ^^ n) (threads_start (Init_Pcie dev_write d) cs) s"
  shows "n \<le> 518 * (\<Sum>t\<in>T. length (cs t))
    \<and> ((\<nexists>s'. threads_step dev_read dev_write s s') \<longrightarrow>
        (\<forall>t. calls s t = [] \<and> pc s t = Outside \<and> writes_by t s = call_writes (cs t) \<and> length (reads_by t s) = pio_reads (cs t)))"
proof -
  let ?s0 = "threads_start (Init_Pcie dev_write d) cs"
  note i = threads_init(2) [OF assms(1-3)]
  have reach: "(threads_step dev_read dev_write)\<^sup>*\<^sup>* ?s0 s" using assms(6) by (rule relpowp_imp_rtranclp)
  have "only_threads T ?s0" using assms(5) by (simp add: only_threads_def threads_start_def)
  moreover have "thread_rank ?s0 t = 518 * length (cs t)" for t by (simp add: thread_rank_def threads_start_def)
  ultimately have "n \<le> 518 * (\<Sum>t\<in>T. length (cs t))"
    using dev_live.threads_steps_bound [OF assms(6) i assms(4)] by (simp add: sum_distrib_left)
  moreover have "calls s t = [] \<and> pc s t = Outside \<and> writes_by t s = call_writes (cs t) \<and> length (reads_by t s) = pio_reads (cs t)"
    if "\<nexists>s'. threads_step dev_read dev_write s s'" for t
  proof -
    have "locks_ok s" using dev_live.threads_reach_ok [OF reach i] by (simp add: dev_live.threads_ok_def)
    then have "pc s t = Outside \<and> calls s t = []" using threads_stuck [of s dev_read dev_write t] that by blast
    then show ?thesis using threads_reach_logged [OF reach] by (auto simp: calls_logged_def dest: spec [of _ t])
  qed
  ultimately show ?thesis by blast
qed

text \<open>Threads that only write, and what the device gets.\<close>

definition writers :: "(nat \<Rightarrow> (u32 \<times> u32) list) \<Rightarrow> nat \<Rightarrow> pio list" where
  "writers ps t = map (\<lambda>(a, v). UserWrite a v) (ps t)"

lemma writers_user:
  assumes "\<forall>t. list_all (user_word \<circ> fst) (ps t)"
  shows "\<forall>t. list_all (user_word \<circ> pio_addr) (writers ps t)"
  using assms by (fastforce simp: list_all_iff writers_def)

lemma device_threads_make:
  assumes "userWriteQ d = []" "dev_live d" "\<forall>t. list_all (user_word \<circ> fst) (ps t)"
    and "\<forall>t. map snd (filter (\<lambda>w. fst w = t) ws) = ps t"
  shows "\<exists>s. (threads_step dev_read dev_write)\<^sup>*\<^sup>* (threads_start (Init_Pcie dev_write d) (writers ps)) s
    \<and> (\<forall>t. calls s t = [] \<and> pc s t = Outside) \<and> write_log s = ws
    \<and> dev_written (tdev s) = dev_written d @ map (\<lambda>(t, a, v). (ucast a, v)) ws"
proof -
  let ?s0 = "threads_start (Init_Pcie dev_write d) (writers ps)"
  note u = writers_user [OF assms(3)]
  have "\<And>t. calls ?s0 t = map (\<lambda>(a, v). UserWrite a v) (map snd (filter (\<lambda>w. fst w = t) ws))"
    using assms(4) by (simp add: threads_start_def writers_def)
  moreover have "pc ?s0 t = Outside" "write_lock ?s0 = None" "write_log ?s0 = []" for t
    by (simp_all add: threads_start_def)
  ultimately obtain s where s: "(threads_step dev_read dev_write)\<^sup>*\<^sup>* ?s0 s" "write_log s = ws"
    "\<forall>t. calls s t = [] \<and> pc s t = Outside"
    using dev_live.writes_any_order [OF threads_init(2) [OF assms(1) u assms(2)], of ws] by auto
  then have "dev_written (tdev s) = dev_written d @ map (\<lambda>(t, a, v). (ucast a, v)) ws"
    using device_threads_safe [OF assms(1) u s(1)] by simp
  then show ?thesis using s by blast
qed

lemma device_threads_kept:
  assumes "(threads_step rd wr)\<^sup>*\<^sup>* (threads_start s0 (writers ps)) s"
    and "\<forall>t. calls s t = [] \<and> pc s t = Outside"
  shows "map snd (filter (\<lambda>w. fst w = t) (write_log s)) = ps t"
proof -
  have "call_writes (writers ps t) = writes_by t s @ pending_write (pc s t) @ call_writes (calls s t)"
    using threads_reach_logged [OF assms(1)] unfolding calls_logged_def by blast
  then show ?thesis using assms(2) by (simp add: writers_def call_writes_map writes_by_def)
qed

end
