(* ===== verification/FlashRace.thy ===== *)
theory FlashRace
  imports Main
begin

text \<open>
  \<open>FlashManager::getInstance\<close> of \<^verbatim>\<open>examples/test/sw/flashmanager.cpp\<close> with the thread its
  constructor starts: \<open>flashManagerThread\<close> asks for the instance too, while the constructor that
  started it may not have returned. Thread 0 is the main program; the thread started by the
  constructor of object \<open>k\<close> has the number \<open>k + 1\<close>.
\<close>

datatype instance_pc =
  NotStarted
| Ask            \<comment> \<open>before \<open>if ( m_pInstance == NULL )\<close>\<close>
| New            \<comment> \<open>before the constructor\<close>
| Store nat      \<comment> \<open>before \<open>m_pInstance\<close> is set to the new object\<close>
| Return         \<comment> \<open>before \<open>return m_pInstance\<close>\<close>
| Has nat

record flash_process =
  m_pInstance :: "nat option"
  made :: nat
  fpc :: "nat \<Rightarrow> instance_pc"

definition flash_process_start :: flash_process where
  "flash_process_start = \<lparr>m_pInstance = None, made = 0, fpc = (\<lambda>t. if t = 0 then Ask else NotStarted)\<rparr>"

definition FlashManager_getInstance :: "nat \<Rightarrow> flash_process \<Rightarrow> flash_process option" where
  "FlashManager_getInstance t s =
     (case fpc s t of
        Ask \<Rightarrow> Some (s\<lparr>fpc := (fpc s)(t := if m_pInstance s = None then New else Return)\<rparr>)
      | New \<Rightarrow> Some (s\<lparr>made := made s + 1, fpc := (fpc s)(t := Store (made s), Suc (made s) := Ask)\<rparr>)
      | Store k \<Rightarrow> Some (s\<lparr>m_pInstance := Some k, fpc := (fpc s)(t := Return)\<rparr>)
      | Return \<Rightarrow> map_option (\<lambda>k. s\<lparr>fpc := (fpc s)(t := Has k)\<rparr>) (m_pInstance s)
      | NotStarted \<Rightarrow> None
      | Has k \<Rightarrow> None)"

text \<open>A schedule is a list of threads; each makes one step.\<close>

fun run_flash :: "nat list \<Rightarrow> flash_process \<Rightarrow> flash_process option" where
  "run_flash [] s = Some s"
| "run_flash (t # ts) s = Option.bind (FlashManager_getInstance t s) (run_flash ts)"

lemma run_flash_append: "run_flash (xs @ ys) s = Option.bind (run_flash xs s) (run_flash ys)"
proof (induction xs arbitrary: s)
  case (Cons x xs)
  then show ?case by (cases "FlashManager_getInstance x s") simp_all
qed simp

text \<open>As long as nobody has stored an object every new thread makes another one.\<close>

lemma flash_chain:
  "\<exists>s. run_flash (concat (map (\<lambda>t. [t, t]) [0 ..< n])) flash_process_start = Some s
    \<and> m_pInstance s = None \<and> made s = n \<and> fpc s n = Ask"
proof (induction n)
  case 0
  then show ?case by (simp add: flash_process_start_def)
next
  case (Suc n)
  then obtain s where "run_flash (concat (map (\<lambda>t. [t, t]) [0 ..< n])) flash_process_start = Some s"
    "m_pInstance s = None" "made s = n" "fpc s n = Ask" by blast
  then show ?case by (simp add: run_flash_append FlashManager_getInstance_def)
qed

text \<open>Once an object is stored and nobody is on the way to another one, there are no more.\<close>

definition flash_settled :: "flash_process \<Rightarrow> bool" where
  "flash_settled s \<longleftrightarrow> m_pInstance s \<noteq> None \<and> (\<forall>t. fpc s t \<noteq> New \<and> (\<forall>k. fpc s t \<noteq> Store k))"

lemma settled_step:
  assumes "FlashManager_getInstance t s = Some s'" "flash_settled s"
  shows "flash_settled s'" "made s' = made s" "m_pInstance s' = m_pInstance s"
  using assms
  by (auto simp: FlashManager_getInstance_def flash_settled_def split: instance_pc.splits if_splits)

lemma settled_run:
  "run_flash ts s = Some s' \<Longrightarrow> flash_settled s \<Longrightarrow>
    flash_settled s' \<and> made s' = made s \<and> m_pInstance s' = m_pInstance s"
proof (induction ts arbitrary: s)
  case (Cons t ts)
  then obtain s1 where s1: "FlashManager_getInstance t s = Some s1" "run_flash ts s1 = Some s'"
    by (cases "FlashManager_getInstance t s") auto
  then show ?case using Cons.IH [OF s1(2)] settled_step [OF s1(1) Cons.prems(2)] by simp
qed simp

text \<open>If the main program stores its object before the new thread asks, it is the only one.\<close>

lemma flash_main_first:
  "\<exists>s. run_flash [0, 0, 0] flash_process_start = Some s \<and> flash_settled s \<and> made s = 1 \<and> m_pInstance s = Some 0"
  by (simp add: FlashManager_getInstance_def flash_process_start_def flash_settled_def)

text \<open>Otherwise the main program and the thread can end up with different objects.\<close>

lemma flash_two_objects:
  "\<exists>s. run_flash [0, 0, 1, 1, 0, 0, 1, 1, 2, 2] flash_process_start = Some s
    \<and> fpc s 0 = Has 0 \<and> fpc s 1 = Has 1 \<and> fpc s 2 = Has 1"
  by (simp add: FlashManager_getInstance_def flash_process_start_def)

lemma flash_first_stays:
  assumes "run_flash ([0, 0, 0] @ ts) flash_process_start = Some s"
  shows "made s = 1 \<and> m_pInstance s = Some 0"
proof -
  obtain s1 where s1: "run_flash [0, 0, 0] flash_process_start = Some s1" "flash_settled s1" "made s1 = 1"
    "m_pInstance s1 = Some 0" using flash_main_first by blast
  then have "run_flash ts s1 = Some s" using assms unfolding run_flash_append by simp
  then show ?thesis using settled_run s1(2-4) by fastforce
qed

end
