(* ===== verification/PcieAnswers.thy ===== *)
theory PcieAnswers
  imports PcieDev
begin

text \<open>
  What user reads see on the device. The reference is the user logic behind a queue of at most
  513 writes: at any moment it may take the first write of the queue or move by itself; a
  write of the host goes to the end of the queue, a read is answered by the state the
  logic is in. Any sequence of accesses through the library is a run of this machine.
\<close>

inductive logic_moves ::
  "(ioaddr \<times> u32 \<Rightarrow> 'u \<Rightarrow> 'u) \<Rightarrow> (nat \<Rightarrow> 'u \<Rightarrow> 'u) \<Rightarrow> (ioaddr \<times> u32) list \<times> 'u \<Rightarrow> (ioaddr \<times> u32) list \<times> 'u \<Rightarrow> bool"
  for put run where
  takes: "logic_moves put run (w # ws, u) (ws, put w u)"
| runs: "logic_moves put run (ws, u) (ws, run t u)"

inductive logic_run ::
  "(ioaddr \<times> u32 \<Rightarrow> 'u \<Rightarrow> 'u) \<Rightarrow> (nat \<Rightarrow> 'u \<Rightarrow> 'u) \<Rightarrow> ('u \<Rightarrow> ioaddr \<Rightarrow> u32) \<Rightarrow> pio list
    \<Rightarrow> (ioaddr \<times> u32) list \<times> 'u \<Rightarrow> u32 list \<Rightarrow> (ioaddr \<times> u32) list \<times> 'u \<Rightarrow> bool"
  for put run get where
  stop: "logic_run put run get [] s [] s"
| move: "logic_moves put run s s1 \<Longrightarrow> logic_run put run get ops s1 xs s2 \<Longrightarrow> logic_run put run get ops s xs s2"
| put_in: "length ws < 513 \<Longrightarrow> logic_run put run get ops (ws @ [(ucast a, v)], u) xs s2 \<Longrightarrow>
    logic_run put run get (UserWrite a v # ops) (ws, u) xs s2"
| answer: "logic_run put run get ops (ws, u) xs s2 \<Longrightarrow>
    logic_run put run get (UserRead a # ops) (ws, u) (get u (ucast a) # xs) s2"

lemma logic_run_moves:
  "(logic_moves put run)\<^sup>*\<^sup>* s s1 \<Longrightarrow> logic_run put run get ops s1 xs s2 \<Longrightarrow> logic_run put run get ops s xs s2"
  by (induction rule: converse_rtranclp_induct) (auto intro: logic_run.move)

lemma logic_takes: "(logic_moves put run)\<^sup>*\<^sup>* (ws, u) (drop n ws, fold put (take n ws) u)"
proof (induction n arbitrary: ws u)
  case (Suc n)
  show ?case
  proof (cases ws)
    case (Cons w ws')
    then show ?thesis
      using Suc [of ws' "put w u"] logic_moves.takes [of put run w ws' u] by (simp add: converse_rtranclp_into_rtranclp)
  qed simp
qed simp

subsection \<open>The device is such a machine\<close>

definition dev_logic :: "'u pcidev \<Rightarrow> (ioaddr \<times> u32) list \<times> 'u" where
  "dev_logic d = (userWriteQ d, user d)"

text \<open>\<open>d1\<close> is \<open>d\<close> some time later, with no user access in between.\<close>

definition dev_later :: "'u pcidev \<Rightarrow> 'u pcidev \<Rightarrow> bool" where
  "dev_later d d1 \<longleftrightarrow> user_put d1 = user_put d \<and> user_run d1 = user_run d \<and> user_get d1 = user_get d
     \<and> (logic_moves (user_put d) (user_run d))\<^sup>*\<^sup>* (dev_logic d) (dev_logic d1)"

lemma later_same [simp]: "dev_later d d"
  by (simp add: dev_later_def)

lemma later_step: "dev_later d d1 \<Longrightarrow> dev_later d (dev_advance d1)"
proof -
  assume l: "dev_later d d1"
  have "(logic_moves (user_put d) (user_run d))\<^sup>*\<^sup>* (dev_logic d1) (dev_logic (dev_advance d1))"
    using l logic_takes [of "user_put d" "user_run d" "userWriteQ d1" "user d1" "min (user_takes d1 (dtick d1)) (length (userWriteQ d1))"]
    by (auto simp: dev_logic_def dev_advance_def Let_def dev_later_def
        intro: rtranclp.rtrancl_into_rtrancl logic_moves.runs)
  then have "(logic_moves (user_put d) (user_run d))\<^sup>*\<^sup>* (dev_logic d) (dev_logic (dev_advance d1))"
    using l by (meson dev_later_def rtranclp_trans)
  then show "dev_later d (dev_advance d1)"
    using l by (simp add: dev_later_def) (simp add: dev_advance_def Let_def)
qed

lemma later_log_read: "dev_later d d1 \<Longrightarrow> dev_later d (snd (dev_read d1 i))"
proof -
  assume "dev_later d d1"
  moreover have "dev_later d' (snd (dev_read d1 i)) = dev_later d' (dev_advance d1)" for d'
    by (simp add: dev_later_def dev_logic_def dev_read_def Let_def)
  ultimately show "dev_later d (snd (dev_read d1 i))" using later_step by blast
qed

lemma later_run:
  assumes "dev_later d d1" "logic_run (user_put d) (user_run d) (user_get d) ops (dev_logic d1) xs s"
  shows "logic_run (user_put d) (user_run d) (user_get d) ops (dev_logic d) xs s"
  using assms(1) unfolding dev_later_def by (blast intro: logic_run_moves [OF _ assms(2)])

lemma answered_write:
  fixes s :: "bdbm \<times> 'u pcidev"
  assumes "pcie_good s" "user_word a" "userWriteWord dev_read dev_write a v s = Some s'"
  shows "\<exists>d1. dev_later (snd s) d1 \<and> dev_logic (snd s') = (userWriteQ d1 @ [(ucast a, v)], user d1)
    \<and> user_put (snd s') = user_put d1 \<and> user_run (snd s') = user_run d1 \<and> user_get (snd s') = user_get d1"
proof -
  have w: "writeWord dev_read dev_write (a + CONFIG_BUFFER_SIZE) v (fst s, snd s) = Some (fst s', snd s')"
    using assms(3) by (simp add: userWriteWord_def)
  note ui = user_word_index [OF assms(2)]
  obtain d1 where d1: "dev_later (snd s) d1" "snd s' = dev_write d1 (drop_bit 2 (a + CONFIG_BUFFER_SIZE)) v"
    using writeWord_device [OF w, of dev_later] later_log_read by auto
  then show ?thesis
    using later_step [OF d1(1)] ui(2)
    by (intro exI [of _ "dev_advance d1"]) (simp add: dev_write_user [OF ui(1)] dev_logic_def)
qed

lemma answered_read:
  fixes s :: "bdbm \<times> 'u pcidev"
  assumes "pcie_good s" "user_word a" "userReadWord dev_read a s = Some (x, s')"
  shows "\<exists>d1. dev_later (snd s) d1 \<and> dev_logic (snd s') = dev_logic d1 \<and> x = user_get (snd s) (user d1) (ucast a)
    \<and> user_put (snd s') = user_put d1 \<and> user_run (snd s') = user_run d1 \<and> user_get (snd s') = user_get d1"
proof -
  obtain p d where s: "s = (p, d)" by (cases s)
  let ?i = "drop_bit 2 (a + CONFIG_BUFFER_SIZE)"
  note ui = user_word_index [OF assms(2)]
  obtain k where k: "dev_live.write_window (p, d)" "dev_live.read_lag k (p, d)" "k < 512"
    using assms(1) by (auto simp: s pcie_good_def pcie_room_def)
  have i: "in_bar0 ?i" using ui(1) by (simp add: user_index_def)
  obtain y p' d' d1 where y: "readWord dev_read (a + CONFIG_BUFFER_SIZE) (p, d) = Some (y, p', d')"
    and d1: "d1 = d \<or> d1 = snd (dev_read d remit_idx)" "(y, d') = dev_read d1 ?i"
    using dev_live.readWord_lag [OF k i] by (auto simp del: split_paired_Ex)
  have e: "y = x" "d' = snd s'" using assms(3) y by (auto simp: s userReadWord_def)
  have l: "dev_later d d1" using d1(1) later_log_read [OF later_same, of d remit_idx] by auto
  have "x = user_get d1 (user (dev_advance d1)) (ucast a)"
    using dev_read_user(2) [OF ui(1), of d1] ui(2) d1(2) e(1) by (metis fst_conv)
  then show ?thesis
    using later_step [OF l] l d1(2) e(2) unfolding s
    by (intro exI [of _ "dev_advance d1"])
      (auto simp: dev_later_def dev_logic_def dev_read_def Let_def split: if_splits)
qed

lemma good_queue: "pcie_good s \<Longrightarrow> length (userWriteQ (snd s)) \<le> 513"
  by (cases s) (auto simp: pcie_good_def pcie_room_def dev_queued_def dest: dev_live.in_flight_bound)

lemma run_pio_answers:
  fixes s :: "bdbm \<times> 'u pcidev"
  assumes "pcie_good s" "list_all (user_word \<circ> pio_addr) ops"
    and "run_pio (userWriteWord dev_read dev_write) (userReadWord dev_read) ops s = Some (xs, s')"
  shows "logic_run (user_put (snd s)) (user_run (snd s)) (user_get (snd s)) ops (dev_logic (snd s)) xs (dev_logic (snd s'))"
  using assms
proof (induction ops arbitrary: s xs)
  case Nil
  then show ?case by (simp add: logic_run.stop)
next
  case (Cons op ops)
  show ?case
  proof (cases op)
    case (UserWrite a v)
    have u: "user_word a" using Cons.prems(2) UserWrite by simp
    obtain s1 where s1: "userWriteWord dev_read dev_write a v s = Some s1" "pcie_good s1"
      using pcie_port.write_law [OF Cons.prems(1) u] by blast
    obtain d1 where d1: "dev_later (snd s) d1" "dev_logic (snd s1) = (userWriteQ d1 @ [(ucast a, v)], user d1)"
      "user_put (snd s1) = user_put d1" "user_run (snd s1) = user_run d1" "user_get (snd s1) = user_get d1"
      using answered_write [OF Cons.prems(1) u s1(1)] by blast
    have same: "user_put d1 = user_put (snd s)" "user_run d1 = user_run (snd s)" "user_get d1 = user_get (snd s)"
      using d1(1) by (simp_all add: dev_later_def)
    have "length (userWriteQ d1) < 513" using good_queue [OF s1(2)] d1(2) by (simp add: dev_logic_def)
    moreover have "logic_run (user_put (snd s)) (user_run (snd s)) (user_get (snd s)) ops
        (userWriteQ d1 @ [(ucast a, v)], user d1) xs (dev_logic (snd s'))"
      using Cons.IH [OF s1(2)] Cons.prems(2,3) UserWrite s1(1) d1 same by simp
    ultimately have "logic_run (user_put (snd s)) (user_run (snd s)) (user_get (snd s)) (op # ops)
        (dev_logic d1) xs (dev_logic (snd s'))"
      unfolding UserWrite dev_logic_def by (rule logic_run.put_in)
    then show ?thesis by (rule later_run [OF d1(1)])
  next
    case (UserRead a)
    have u: "user_word a" using Cons.prems(2) UserRead by simp
    obtain x s1 where s1: "userReadWord dev_read a s = Some (x, s1)" "pcie_good s1"
      using pcie_port.read_law [OF Cons.prems(1) u] by blast
    obtain d1 where d1: "dev_later (snd s) d1" "dev_logic (snd s1) = dev_logic d1"
      "x = user_get (snd s) (user d1) (ucast a)"
      "user_put (snd s1) = user_put d1" "user_run (snd s1) = user_run d1" "user_get (snd s1) = user_get d1"
      using answered_read [OF Cons.prems(1) u s1(1)] by blast
    have same: "user_put d1 = user_put (snd s)" "user_run d1 = user_run (snd s)" "user_get d1 = user_get (snd s)"
      using d1(1) by (simp_all add: dev_later_def)
    obtain ys where ys: "xs = x # ys" "run_pio (userWriteWord dev_read dev_write) (userReadWord dev_read) ops s1 = Some (ys, s')"
      using Cons.prems(3) UserRead s1(1) by (auto split: option.splits)
    have "logic_run (user_put (snd s)) (user_run (snd s)) (user_get (snd s)) ops (dev_logic d1) ys (dev_logic (snd s'))"
      using Cons.IH [OF s1(2) _ ys(2)] Cons.prems(2) d1 same by simp
    then have "logic_run (user_put (snd s)) (user_run (snd s)) (user_get (snd s)) (op # ops) (dev_logic d1) xs (dev_logic (snd s'))"
      unfolding UserRead ys(1) d1(3) dev_logic_def by (rule logic_run.answer)
    then show ?thesis by (rule later_run [OF d1(1)])
  qed
qed

text \<open>\<open>Init_Pcie\<close> leaves the user logic alone but for the time that passes.\<close>

lemma Init_Pcie_later:
  fixes d :: "'u pcidev"
  shows "dev_later d (snd (Init_Pcie dev_write d))"
proof -
  have "dev_later d' (dev_write d 0 0) = dev_later d' (dev_advance d)" for d' :: "'u pcidev"
    by (simp add: dev_later_def dev_logic_def dev_write_def bar_addr_def Let_def)
  then show ?thesis using later_step [of d d] by (simp add: Init_Pcie_def)
qed

text \<open>What holds of the user logic through writes and moves holds of every state that answers.\<close>

lemma logic_moves_keep:
  assumes "logic_moves put run s s1" "P (snd s)" "\<And>w u. P u \<Longrightarrow> P (put w u)" "\<And>t u. P u \<Longrightarrow> P (run t u)"
  shows "P (snd s1)"
  using assms by cases auto

lemma logic_run_answers:
  assumes "logic_run put run get ops s xs s'" "P (snd s)" "\<And>w u. P u \<Longrightarrow> P (put w u)" "\<And>t u. P u \<Longrightarrow> P (run t u)"
  shows "\<forall>x \<in> set xs. \<exists>u a. P u \<and> x = get u a"
  using assms(1,2)
proof induction
  case (move s s1 ops xs s2)
  then show ?case using logic_moves_keep [OF move(1,4) assms(3,4)] by blast
qed auto

end
