(* ===== verification/SortReduceHw.thy ===== *)
theory SortReduceHw
  imports DeviceWaits
begin

text \<open>
  \<^verbatim>\<open>examples/sortreduce\<close> on its own user logic: the status registers of \<^verbatim>\<open>HwMain.bsv\<close> (rules
  \<open>incCycle\<close>, \<open>getCmd\<close>, \<open>getDone\<close>, \<open>getSr1overflow\<close>, \<open>readStat\<close>), around the sorter. The sorter rests
  on a merger and loaders that are not in the repository; here it is a parameter, \<open>sorter cs n\<close>:
  whether it has finished a merged stripe, and whether it overflows, in the \<open>n\<close>-th clock cycle
  after it got the last of the commands \<open>cs\<close>.
\<close>

type_synonym sorter = "(u8 \<times> u32 \<times> u32 \<times> u32) list \<Rightarrow> nat \<Rightarrow> bool \<times> bool"

record sr_logic =
  sr_regs :: sr_hw
  cycles :: u32
  startCycle :: u32
  endCycle :: u32
  doneCnt :: u32
  overflowCnt :: u32
  sinceCommand :: nat

definition sr_logic_reset :: sr_logic where
  "sr_logic_reset = \<lparr>sr_regs = sr_reset, cycles = 0, startCycle = 0, endCycle = 0, doneCnt = 0,
     overflowCnt = 0, sinceCommand = 0\<rparr>"

definition sr_getCmd :: "ioaddr \<times> u32 \<Rightarrow> sr_logic \<Rightarrow> sr_logic" where
  "sr_getCmd w l =
     (let l1 = l\<lparr>sr_regs := sr_put w (sr_regs l)\<rparr> in
      if drop_bit 2 (fst w) = 3
      then l1\<lparr>startCycle := cycles l, endCycle := 0, doneCnt := 0, sinceCommand := 0\<rparr>
      else l1)"

definition sr_cycle :: "sorter \<Rightarrow> sr_logic \<Rightarrow> sr_logic" where
  "sr_cycle sorter l =
     (let (merged, over) = sorter (srCommands (sr_regs l)) (sinceCommand l);
          l1 = (if merged then l\<lparr>endCycle := cycles l - startCycle l, doneCnt := doneCnt l + 1\<rparr> else l);
          l2 = (if over then l1\<lparr>overflowCnt := overflowCnt l1 + 1\<rparr> else l1)
      in l2\<lparr>cycles := cycles l + 1, sinceCommand := sinceCommand l + 1\<rparr>)"

text \<open>The rule answers three registers; a read of another one would never be answered, and gets 0 here.\<close>

definition sr_readStat :: "sr_logic \<Rightarrow> ioaddr \<Rightarrow> u32" where
  "sr_readStat l a =
     (let offset = drop_bit 2 a in
      if offset = 0 then endCycle l else if offset = 1 then doneCnt l
      else if offset = 2 then overflowCnt l else 0)"

text \<open>A device with this logic after reset: \<open>clocks t\<close> cycles go by before the \<open>t\<close>-th access of the host.\<close>

definition sr_device :: "sorter \<Rightarrow> (nat \<Rightarrow> nat) \<Rightarrow> sr_logic pcidev \<Rightarrow> bool" where
  "sr_device sorter clocks d \<longleftrightarrow> userWriteQ d = [] \<and> userTaken d = [] \<and> dev_live d \<and> user d = sr_logic_reset
     \<and> user_put d = sr_getCmd \<and> user_run d = (\<lambda>t. sr_cycle sorter ^^ clocks t) \<and> user_get d = sr_readStat
     \<and> (\<forall>t. 0 < clocks t)"

subsection \<open>What the registers count\<close>

definition merges :: "sorter \<Rightarrow> (u8 \<times> u32 \<times> u32 \<times> u32) list \<Rightarrow> nat \<Rightarrow> nat set" where
  "merges sorter cs n = {k. k < n \<and> fst (sorter cs k)}"

definition sr_state :: "sorter \<Rightarrow> (ioaddr \<times> u32) list \<Rightarrow> sr_logic \<Rightarrow> bool" where
  "sr_state sorter ws l \<longleftrightarrow>
     (let M = merges sorter (srCommands (sr_regs l)) (sinceCommand l) in
      sr_regs l = fold sr_put ws sr_reset \<and> cycles l - startCycle l = of_nat (sinceCommand l)
      \<and> doneCnt l = of_nat (card M) \<and> endCycle l = (if M = {} then 0 else of_nat (Max M)))"

lemma merges_finite [simp]: "finite (merges sorter cs n)"
  by (simp add: merges_def)

lemma merges_0 [simp]: "merges sorter cs 0 = {}"
  by (simp add: merges_def)

lemma merges_Suc:
  "merges sorter cs (Suc n) = (if fst (sorter cs n) then insert n (merges sorter cs n) else merges sorter cs n)"
  by (auto simp: merges_def less_Suc_eq)

lemma merges_below: "k \<in> merges sorter cs n \<Longrightarrow> k < n"
  by (simp add: merges_def)

lemma Max_insert_top:
  assumes "finite M" "\<And>k. k \<in> M \<Longrightarrow> k < n"
  shows "Max (insert n M) = n"
  using assms by (intro Max_eqI) (auto intro: less_imp_le)

lemma sr_put_commands: "drop_bit 2 (fst w) \<noteq> 3 \<Longrightarrow> srCommands (sr_put w h) = srCommands h"
  by (cases w) (simp add: sr_put_def Let_def)

lemma sr_state_reset: "sr_state sorter [] sr_logic_reset"
  by (simp add: sr_state_def sr_logic_reset_def)

lemma sr_state_put: "sr_state sorter ws l \<Longrightarrow> sr_state sorter (ws @ [w]) (sr_getCmd w l)"
  by (auto simp: sr_state_def sr_getCmd_def Let_def sr_put_commands)

lemma sr_state_cycle:
  assumes "sr_state sorter ws l"
  shows "sr_state sorter ws (sr_cycle sorter l)"
proof -
  let ?cs = "srCommands (sr_regs l)" and ?n = "sinceCommand l"
  obtain merged over where m: "sorter ?cs ?n = (merged, over)" by fastforce
  have "Max (insert ?n (merges sorter ?cs ?n)) = ?n" "?n \<notin> merges sorter ?cs ?n"
    using merges_below by (auto intro!: Max_insert_top)
  moreover have "cycles l + 1 - startCycle l = (cycles l - startCycle l) + 1" by simp
  ultimately show ?thesis
    using assms m by (auto simp: sr_state_def sr_cycle_def Let_def merges_Suc)
qed

lemma sr_state_cycles: "sr_state sorter ws l \<Longrightarrow> sr_state sorter ws ((sr_cycle sorter ^^ n) l)"
  by (induction n) (simp_all add: sr_state_cycle)

lemma since_cycles: "sinceCommand ((sr_cycle sorter ^^ n) l) = sinceCommand l + n"
  by (induction n) (simp_all add: sr_cycle_def Let_def split: prod.splits)

subsection \<open>The program on it\<close>

text \<open>The sixteen commands of the program: the parts of the scratchpad the loaders get.\<close>

definition sr_all_commands :: "(u8 \<times> u32 \<times> u32 \<times> u32) list" where
  "sr_all_commands = map (\<lambda>b. (of_nat b, 2 ^ 18 * of_nat b, 2 ^ 18 * of_nat (b + 1), 1024)) [0..<16]"

lemma sr_all_commands_sent: "srCommands (fold sr_put (sortreduce_writes rand) sr_reset) = sr_all_commands"
  unfolding sr_hw_takes(1) sr_all_commands_def sr_range_def ..

lemma sortreduce_on_its_logic:
  assumes d: "sr_device sorter clocks d" and M: "finite {n. fst (sorter sr_all_commands n)}"
    "256 \<le> card {n. fst (sorter sr_all_commands n)}" "card {n. fst (sorter sr_all_commands n)} < 2 ^ 32"
    and t: "\<forall>n. fst (sorter sr_all_commands n) \<longrightarrow> 0 < n \<and> n < 2 ^ 32"
  shows "\<exists>out g s'. sortreduce_main (userWriteWord dev_read dev_write) (userReadWord dev_read) rand
      (Init_Pcie dev_write d) = Some (out, s') \<and> rising out g \<and> stripecnt \<le> g
      \<and> dev_written (snd s') = sortreduce_writes rand"
proof -
  let ?M = "{n. fst (sorter sr_all_commands n)}" and ?W = "sortreduce_writes rand"
  define N where "N = Suc (Max ?M)"
  let ?need = "\<lambda>l. N - sinceCommand l"
  have dd: "userWriteQ d = []" "userTaken d = []" using d by (simp_all add: sr_device_def)
  have f: "dev_finishes (\<lambda>f u. u) (sr_state sorter) ?W ?need N sr_readStat d"
    unfolding dev_finishes_def
  proof (intro conjI allI impI)
    show "dev_live d" "user_get d = sr_readStat" using d by (simp_all add: sr_device_def)
    show "sr_state sorter (userTaken d) (user d)" using d sr_state_reset by (simp add: sr_device_def)
    fix ws w u t assume u: "sr_state sorter ws u"
    show "sr_state sorter (ws @ [w]) (user_put d w u)" using sr_state_put [OF u] d by (simp add: sr_device_def)
    show "sr_state sorter ws (user_run d t u)" using sr_state_cycles [OF u] d by (simp add: sr_device_def)
    show "sr_state sorter ws u" by (rule u)
  next
    fix t u
    have "0 < clocks t" "sinceCommand (user_run d t u) = sinceCommand u + clocks t"
      using d by (simp_all add: sr_device_def since_cycles)
    then show "N - sinceCommand (user_run d t u) \<le> N - sinceCommand u - 1" by simp
  qed simp
  have ne: "?M \<noteq> {}"
  proof
    assume "?M = {}"
    then have "card ?M = 0" by (simp only: card.empty)
    with M(2) show False by simp
  qed
  have "sr_readStat u 0 \<noteq> 0 \<and> stripecnt \<le> sr_readStat u 4" if u: "sr_state sorter ?W u" "N - sinceCommand u = 0" for u
  proof -
    have cs: "srCommands (sr_regs u) = sr_all_commands"
      using u(1) sr_all_commands_sent [of rand] by (simp add: sr_state_def Let_def)
    have all: "merges sorter sr_all_commands (sinceCommand u) = ?M"
      using u(2) Max_ge [OF M(1)] by (fastforce simp: merges_def N_def)
    have "endCycle u = of_nat (Max ?M)" "doneCnt u = of_nat (card ?M)"
      using u(1) ne unfolding sr_state_def Let_def cs all by (simp_all only: if_False)
    moreover have "0 < Max ?M" "Max ?M < 2 ^ 32" using t Max_in [OF M(1) ne] by simp_all
    then have "unat (of_nat (Max ?M) :: u32) = Max ?M" by (intro unat_of_nat_small) simp
    then have "(of_nat (Max ?M) :: u32) \<noteq> 0" using \<open>0 < Max ?M\<close> by (metis less_irrefl unat_0)
    moreover have "unat (of_nat (card ?M) :: u32) = card ?M" using M(3) by (intro unat_of_nat_small) simp
    then have "stripecnt \<le> of_nat (card ?M)"
      using M(2) by (simp add: word_le_nat_alt sortreduce_sizes)
    ultimately show ?thesis by (simp add: sr_readStat_def)
  qed
  from sortreduce_ends [OF dd f this] show ?thesis by blast
qed

end
