(* ===== verification/Spec2Isabelle.thy ===== *)
theory Spec2Isabelle
  imports SimLink SpscSteps PcieLeak DmaSplitter DmaCircularQueue DramDev
    Rescan ManagerRuns DriverPages PollThreads SlowStreaming BsimDma Instances
    FlashTest DriverTest ThreadRuns FlashRace PcieAnswers SortReduceHw
begin

text \<open>
  BluespecPCIe, a PCIe library: the C++ library of the host, the two devices it talks to
  (the Bluespec design behind the PCIe core, and its simulation over shared memory), the
  Linux driver, and the tools to rescan and restore a device. This development models
  the host side, and of the hardware what the host relies on.

  \<^bold>\<open>Parts and theories.\<close>

  \<^item> \<^theory_text>\<open>Prelude\<close>: byte-addressed memory, words as numbers, polling loops. A loop that waits
    for the peer is \<open>while_option\<close>; what the peer does between two rounds is a function
    argument, and \<open>None\<close> means that the loop never ends.
  \<^item> \<^theory_text>\<open>Ring\<close>, \<^theory_text>\<open>FifoSpec\<close>, \<^theory_text>\<open>ShmFifo\<close>: the queue of \<^verbatim>\<open>cpp/ShmFifo.cpp\<close> in shared memory, its
    indices in the memory itself. \<^theory_text>\<open>FifoSpec\<close> is the interface of a bounded queue (a locale),
    which \<^theory_text>\<open>ShmFifo\<close> provides. \<^theory_text>\<open>SpscSteps\<close>: the same code store by store, one producer
    and one consumer.
  \<^item> \<^theory_text>\<open>BdbmConfig\<close>, \<^theory_text>\<open>ShmLayout\<close>: the constants of \<^verbatim>\<open>cpp/bdbmpcie.h\<close> and the three queues behind
    the 4 MB DMA buffer in the segment of the simulation.
  \<^item> \<^theory_text>\<open>PcieBdpi\<close>: \<^verbatim>\<open>cpp/PcieBdpi.cpp\<close>, the simulator's end; \<^theory_text>\<open>BsimHw\<close>: the Bluespec rules that
    call it and the registers of \<^verbatim>\<open>examples/simple\<close>; \<^theory_text>\<open>BsimDma\<close>: its DMA rules, by which the
    user logic moves 128-bit words; \<^theory_text>\<open>BdbmSim\<close>: the simulation build of
    \<^verbatim>\<open>cpp/bdbmpcie.cpp\<close>; \<^theory_text>\<open>SimLink\<close>: the two ends together.
  \<^item> \<^theory_text>\<open>PioPort\<close>: the interface the libraries above use, user accesses that return and see
    their writes in order (locales \<open>pio_port\<close>, \<open>word_port\<close>), interpreted both by the
    simulation (\<^theory_text>\<open>SimLink\<close>) and by the device build (\<^theory_text>\<open>PcieDev\<close>).
  \<^item> \<^theory_text>\<open>BdbmPcie\<close>: the device build of \<^verbatim>\<open>cpp/bdbmpcie.cpp\<close> with its two windows of accesses in
    flight; \<^theory_text>\<open>PcieDev\<close>: the registers and counters of \<^verbatim>\<open>src/PcieCtrl.bsv\<close> for any user logic;
    \<^theory_text>\<open>PcieLeak\<close>: where the windows run full for ever. \<^theory_text>\<open>PcieThreads\<close>: the same accesses step by
    step, made by any number of threads under the two mutexes; \<^theory_text>\<open>ThreadRuns\<close>: what the threads can
    rely on, proved over the interface of the device (locales \<open>flow_device\<close>, \<open>live_flow_device\<close>).
    \<^theory_text>\<open>PcieAnswers\<close>: what reads see, as runs of the user logic behind a queue of writes.
  \<^item> \<^theory_text>\<open>DmaSplitter\<close>: \<^verbatim>\<open>cpp/dmasplitter.cpp\<close>; \<^theory_text>\<open>DmaCircularQueue\<close>: \<^verbatim>\<open>cpp/dmacircularqueue.cpp\<close> with
    the counters of \<^verbatim>\<open>src/DMACircularQueue.bsv\<close>.
  \<^item> \<^theory_text>\<open>DRAMHostDMA\<close>: \<^verbatim>\<open>cpp/DRAMHostDMA.cpp\<close>; \<^theory_text>\<open>DramView\<close>: the registers of its hardware and a
    specification of its copying engine; \<^theory_text>\<open>DramPort\<close> (locale \<open>dram_port\<close>), \<^theory_text>\<open>DramCopy\<close>,
    \<^theory_text>\<open>DramCopyBack\<close>: the copies over any such port; \<^theory_text>\<open>DramDev\<close>: the port of the device.
  \<^item> \<^theory_text>\<open>CStdio\<close>, \<^theory_text>\<open>PciTools\<close>, \<^theory_text>\<open>Rescan\<close>, \<^theory_text>\<open>Manager\<close>, \<^theory_text>\<open>ManagerRuns\<close>: the tools under
    \<^verbatim>\<open>distribute/\<close> over a model of the C library (streams with buffers, user ids, system
    calls, undefined behaviour as an outcome).
  \<^item> \<^theory_text>\<open>Driver\<close>, \<^theory_text>\<open>DriverPages\<close>, \<^theory_text>\<open>DriverMap\<close>: \<^verbatim>\<open>distribute/driver/bdbmpcie.c\<close> over the answers of
    the kernel: probe and removal, the pages of the DMA buffer, \<open>mmap\<close>, \<open>poll\<close>, loading.
    \<^theory_text>\<open>WaitInterrupt\<close>: \<open>waitInterrupt\<close> of the device build on the driver's \<open>poll\<close>; \<^theory_text>\<open>PollThreads\<close>: the
    threads that call it for ever, cut after any number of rounds. \<^theory_text>\<open>DriverTest\<close>: the driver's
    test program on the registers of the device.
  \<^item> \<^theory_text>\<open>HostProgram\<close>: programs over a port that can also read the configuration space (locale
    \<open>config_port\<close> of \<^theory_text>\<open>PioPort\<close>); \<^theory_text>\<open>FixedPoint\<close>, \<^theory_text>\<open>Examples\<close>: the programs of
    \<^verbatim>\<open>examples/*/cpp/main.cpp\<close>; \<^theory_text>\<open>ExampleRuns\<close>, \<^theory_text>\<open>ExampleStripes\<close>, \<^theory_text>\<open>ExampleBuffers\<close>: the
    writes they make over any such port, and the user logic of \<^verbatim>\<open>float\<close> and \<^verbatim>\<open>sortreduce\<close>
    that takes them in; \<^theory_text>\<open>ExampleDevice\<close>: the programs over both links.
  \<^item> \<^theory_text>\<open>ExampleWaits\<close>: the loops of the programs that wait, over a port whose hardware finishes
    (locale \<open>finishing_port\<close>, with a measure of what is left to do); \<^theory_text>\<open>DeviceWaits\<close>: the device
    as such a port once the program has made its writes, whole programs that return;
    \<^theory_text>\<open>SortReduceHw\<close>: \<^verbatim>\<open>sortreduce\<close> on the status registers of its own user logic; \<^theory_text>\<open>SlowStreaming\<close>: \<^verbatim>\<open>streaming\<close> with slow hardware.
  \<^item> \<^theory_text>\<open>FlashTest\<close>: \<open>FlashManager\<close> and the test of \<^verbatim>\<open>examples/test/sw\<close> on the same device;
    \<^theory_text>\<open>FlashRace\<close>: its instance and the thread its constructor starts.
  \<^item> \<^theory_text>\<open>Instances\<close>: the static instances of the four classes and \<open>getInstance\<close>, in any order.

  \<^bold>\<open>How they interact.\<close> A library (\<^theory_text>\<open>DmaSplitter\<close>, \<^theory_text>\<open>DmaCircularQueue\<close>, \<^theory_text>\<open>DRAMHostDMA\<close>) takes
  the user accesses of the host library as function arguments, as it calls them; its lemmas
  are proved in the locale of the port and hold for both builds. The device is a state
  that advances between two accesses of the host, at a pace given by an arbitrary function;
  liveness is the hypothesis that this pace is never 0 (\<open>dev_live\<close>). Over the simulation link the
  hardware moves while the software waits in a loop, rule by rule in a fixed order; what
  the two processes can do to a queue at the same time is the matter of \<^theory_text>\<open>SpscSteps\<close>.

  \<^bold>\<open>What is shown.\<close> Copies to and from the memory of the board move exactly the bytes
  asked for and return; user accesses return and come in order over both links, and reads are
  answered as by user logic behind a queue; the shared-memory queue is a bounded FIFO queue, also under interleaving of its stores if the producer keeps off
  the wrapping \<open>pop\<close>; the splitter delivers words in order; the circular queue does not
  overrun as long as whole words are read; start-up of the simulation sets the queues up once,
  but needs the hardware to make the segment; the tools write what
  they should, in order; the driver gives back what it took when a probe fails, and maps
  its pages in order; the example programs print and command what their user logic expects,
  and their loops that wait terminate when the user logic finishes; the simulated hardware
  gets back by DMA what it wrote; each library is constructed once; a thread
  that waits for interrupts prints after each of them, those that come together once (on a
  driver whose handler is called: this one does not request the interrupt); threads that share the port lose no write,
  keep the order of each and never block each other.
  Theorems on errors show where the code does not do this: copies that
  wrap the counter or overrun the caller's buffer, part words that make the circular queue overrun, configuration accesses that use up the
  window, also those of an example that polls slow hardware and of the flash test's commands, words of two threads mixed in the splitter's registers, an
  instance made many times, the race of \<open>pop\<close>, unchecked addresses, a stream used after it was closed, pages
  and DMA mappings that leak.

  \<^bold>\<open>Bounds.\<close> No fuel is used: loops are structural recursions or \<open>while_option\<close> with a
  measure. Machine integers have the width of the code; the hypotheses on sizes say where
  a counter must not wrap (\<open>2 ^ 32\<close> chunks, offsets up to \<open>2 ^ 43\<close>, 256 pages). The splitter's
  \<open>nextrecvidx\<close>, a signed \<^verbatim>\<open>int\<close> compared with unsigned words, is a 32-bit word that wraps; its
  overflow after \<open>2 ^ 31\<close> words is undefined in the source.

  \<^bold>\<open>Not modelled.\<close> Threads in the simulation build and in the libraries above the port (one
  thread uses them), the device build's \<open>Ioctl\<close> (a call of the kernel), messages printed, clocks and sleeps, code behind an unconditional \<open>exit\<close>; of the hardware the PCIe packets, the DMA engines rule by rule, clock
  crossings, and the vendor's core; build scripts.
\<close>

subsection \<open>Concrete states the witnesses use\<close>

definition zero_mem :: mem where
  "zero_mem = (\<lambda>_. 0)"

definition shm0 :: mem where
  "shm0 = shm_setup_all zero_mem"

definition sim0 :: "hwsim \<times> mem" where
  "sim0 = hw_cycle (hw_start, zero_mem)"

definition idle_dev :: "(nat \<Rightarrow> nat) \<Rightarrow> unit pcidev" where
  "idle_dev takes = \<lparr>dtick = 0, userWriteQ = [], userTaken = [], userWriteEmit = 7, userReadEmit = 9,
     configBuffer = (\<lambda>_. 0), debugCode = 0, user_takes = takes, user = (),
     user_put = (\<lambda>_ u. u), user_run = (\<lambda>_ u. u), user_get = (\<lambda>_ _. 0)\<rparr>"

lemma zero_mem_fresh: "shm_fresh zero_mem"
  by (simp add: shm_fresh_def magic_at_def zero_mem_def fifo_magic_def)

lemma shm0_inv: "shm_inv shm0" "k < 3 \<Longrightarrow> fifo_list (shm_fifo k) shm0 = []"
  using shm_setup_all_fresh [OF zero_mem_fresh] by (simp_all add: shm0_def)

lemma sim0_quiet: "link_quiet sim0" "link_regs sim0 = (0, 0, 0)"
  using start_up_cycle [OF zero_mem_fresh] by (simp_all add: sim0_def)

lemma sim0_bdpi: "bdpi_inv (bdpi_st (fst sim0)) (snd sim0)" "shm_ready (bdpi_st (fst sim0))"
proof -
  obtain h m where s: "sim0 = (h, m)" by (cases sim0)
  have "link_ready (h, m)" using sim0_quiet(1) unfolding s link_quiet_def by (rule conjunct1)
  from link_readyD [OF this] show "bdpi_inv (bdpi_st (fst sim0)) (snd sim0)" "shm_ready (bdpi_st (fst sim0))"
    by (simp_all add: s)
qed

lemma idle_dev_live: "userWriteQ (idle_dev (\<lambda>_. 1)) = []" "dev_live (idle_dev (\<lambda>_. 1))"
  "userWriteQ (idle_dev (\<lambda>_. 0)) = []" "user_takes (idle_dev (\<lambda>_. 0)) = (\<lambda>_. 0)"
  by (simp_all add: idle_dev_def dev_live_def)

lemma idle_dev_taken: "userTaken (idle_dev takes) = []"
  by (simp add: idle_dev_def)

definition dram_device :: "dramview pcidev" where
  "dram_device = \<lparr>dtick = 0, userWriteQ = [], userTaken = [], userWriteEmit = 7, userReadEmit = 9,
     configBuffer = (\<lambda>_. 0), debugCode = 0, user_takes = (\<lambda>t. t mod 3 + 1),
     user = \<lparr>hostmem = zero_mem, dram = zero_mem, cmds = [], hostMemTemp = 0, fpgaMemTemp = 0,
       dramWriteBurstDoneCount = 40, dramReadBurstDoneCount = 50\<rparr>,
     user_put = dram_put, user_run = (\<lambda>t. bursts (t mod 5 + 1)), user_get = dram_get\<rparr>"

definition dram_sys0 :: dramsys where
  "dram_sys0 = Init_Pcie dev_write dram_device"

definition dram_handle :: hostdma where
  "dram_handle = \<lparr>m_write_done_total = 40, m_read_done_total = 50\<rparr>"

lemma dram_sys0_good: "dram_good dram_sys0" "dram_vw dram_sys0 = user dram_device"
  "dma_ready dram_handle (dram_vw dram_sys0)" "cmds (dram_vw dram_sys0) = []"
proof -
  have w: "dram_wired dram_device"
    unfolding dram_wired_def dev_live_def dram_device_def by (auto intro!: exI [of _ "_ mod 5 + 1"])
  have q: "userWriteQ dram_device = []" "cmds (user dram_device) = []" by (simp_all add: dram_device_def)
  note i = Init_Pcie_dram [OF q(1) w q(2)]
  show "dram_good dram_sys0" "dram_vw dram_sys0 = user dram_device"
    using i by (simp_all add: dram_sys0_def)
  then show "dma_ready dram_handle (dram_vw dram_sys0)" "cmds (dram_vw dram_sys0) = []"
    by (simp_all add: dma_ready_def dram_handle_def dram_device_def)
qed

text \<open>A copy of 600,000 bytes: 147 pages in two chunks.\<close>

lemma dram_example: "dram_len 600000 = 602112" "dram_chunks 600000 = 2" "dram_off 8192 = 8192"
  by (simp_all add: dram_len_def dram_chunks_def dram_off_def)

text \<open>Two words in the slots 127 and 0, numbered 127 and 128.\<close>

definition slot_w :: "u32 \<Rightarrow> pcieword" where
  "slot_w x = \<lparr>wdata = [x, x + 1, x + 2, x + 3], wheader = x + 4\<rparr>"

fun store_words :: "nat \<Rightarrow> u32 list \<Rightarrow> mem \<Rightarrow> mem" where
  "store_words off [] m = m"
| "store_words off (w # ws) m = store32 (store_words (off + 4) ws m) off w"

definition put_slot :: "nat \<Rightarrow> nat \<Rightarrow> u32 \<Rightarrow> mem \<Rightarrow> mem" where
  "put_slot off i x m = store_words off [x, x + 1, x + 2, x + 3, x + 4, of_nat i] m"

lemma store_words_other:
  "b + 4 \<le> off \<or> off + 4 * length ws \<le> b \<Longrightarrow> load32 (store_words off ws m) b = load32 m b"
  by (induction off ws m rule: store_words.induct) (auto simp: load32_store32_other)

lemma store_words_nth: "k < length ws \<Longrightarrow> load32 (store_words off ws m) (off + 4 * k) = ws ! k"
proof (induction off ws m arbitrary: k rule: store_words.induct)
  case (2 off w ws m)
  show ?case
  proof (cases k)
    case (Suc j)
    then have "load32 (store_words (off + 4) ws m) (off + 4 + 4 * j) = ws ! j" using 2 by simp
    then show ?thesis using Suc by (simp add: load32_store32_other add.assoc)
  qed simp
qed simp

definition slot_mem :: mem where
  "slot_mem = put_slot (32 * 127) 127 5 (put_slot 0 128 6 zero_mem)"

lemma put_slot_other: "b + 4 \<le> off \<or> off + 24 \<le> b \<Longrightarrow> load32 (put_slot off i x m) b = load32 m b"
  unfolding put_slot_def by (rule store_words_other) simp

lemma put_slot_holds:
  assumes "slot_off i = off"
  shows "slot_holds (put_slot off i x m) i (slot_w x)"
proof -
  let ?ws = "[x, x + 1, x + 2, x + 3, x + 4, of_nat i]"
  note n = store_words_nth [of _ ?ws off m]
  have "map (\<lambda>k. load32 (store_words off ?ws m) (off + 4 * k)) [0..<4] = map ((!) ?ws) [0..<4]"
    by (rule map_cong [OF refl], rule n) simp
  moreover have "map ((!) ?ws) [0..<4] = [x, x + 1, x + 2, x + 3]" by (simp add: upt_rec)
  ultimately show ?thesis
    using n [of 4] n [of 5] by (simp add: slot_holds_def assms slot_w_def put_slot_def del: store_words.simps)
qed

lemma slot_holds_cong:
  assumes "slot_holds m i w" "\<And>a. slot_off i \<le> a \<Longrightarrow> a + 4 \<le> slot_off i + 32 \<Longrightarrow> load32 m' a = load32 m a"
  shows "slot_holds m' i w"
proof -
  have "map (\<lambda>k. load32 m' (slot_off i + 4 * k)) [0..<4] = map (\<lambda>k. load32 m (slot_off i + 4 * k)) [0..<4]"
    by (rule map_cong [OF refl], rule assms(2)) simp_all
  moreover have "load32 m' (slot_off i + 20) = load32 m (slot_off i + 20)"
    "load32 m' (slot_off i + 16) = load32 m (slot_off i + 16)"
    by (rule assms(2); simp)+
  ultimately show ?thesis using assms(1) by (simp add: slot_holds_def)
qed

lemma slot_mem_holds: "slots_hold slot_mem 127 [slot_w 5, slot_w 6]"
proof -
  have off: "slot_off 127 = 32 * 127" "slot_off 128 = 0" by (simp_all add: slot_off_def)
  have h0: "slot_holds slot_mem 127 (slot_w 5)"
    unfolding slot_mem_def by (rule put_slot_holds [OF off(1)])
  have h1: "slot_holds slot_mem 128 (slot_w 6)"
    unfolding slot_mem_def
    by (rule slot_holds_cong [OF put_slot_holds [OF off(2)]]) (simp add: off put_slot_other)
  have last: "load32 slot_mem (slot_off (127 + j) + 20) \<noteq> 129" if "j < 128" "2 \<le> j" for j
  proof -
    have j: "127 + j = 128 + (j - 1)" "j - 1 < 128" using that by linarith+
    then have "(127 + j) mod 128 = j - 1" by (simp only: mod_add_self1 mod_less)
    then have o: "slot_off (127 + j) = 32 * (j - 1)" by (simp only: slot_off_def)
    have "load32 slot_mem (32 * (j - 1) + 20) = load32 (put_slot 0 128 6 zero_mem) (32 * (j - 1) + 20)"
      unfolding slot_mem_def using that by (intro put_slot_other disjI1) linarith
    also have "\<dots> = 0" using that by (simp add: put_slot_other zero_mem_def)
    finally show ?thesis unfolding o by simp
  qed
  show ?thesis
    unfolding slots_hold_def
  proof (intro conjI allI impI)
    fix k assume "k < length [slot_w 5, slot_w 6]"
    then have "k = 0 \<or> k = 1" by auto
    then show "slot_holds slot_mem (127 + k) ([slot_w 5, slot_w 6] ! k)" using h0 h1 by auto
  next
    fix j :: nat assume "j < 128" "length [slot_w 5, slot_w 6] \<le> j"
    then show "load32 slot_mem (slot_off (127 + j) + 20) \<noteq> of_nat (127 + length [slot_w 5, slot_w 6])"
      using last [of j] by simp
  qed simp
qed

text \<open>The circular queue at its start, and one word through it.\<close>

definition cq0 :: cqsys where
  "cq0 = \<lparr>cqsw = \<lparr>readBytes = 0\<rparr>, cqmsgs = [(64, 0)], cqhw = cqdev_reset, cqwritten = 0, cqdeqs = []\<rparr>"

lemma cq0_start: "cq_start cq0"
  by (simp add: cq_start_def cq0_def DMACircularQueue_init_def)

lemma cq0_run: "\<exists>s'. (cq_step 4)\<^sup>*\<^sup>* cq0 s' \<and> cqwritten s' = 16 \<and> cqdeqs s' = [16]"
proof -
  let ?hw1 = "\<lparr>started = True, writeByteCount = 0, readByteCount = 0\<rparr>"
  let ?hw2 = "\<lparr>started = True, writeByteCount = 16, readByteCount = 0\<rparr>"
  let ?s1 = "cq0\<lparr>cqmsgs := [], cqhw := ?hw1\<rparr>"
  let ?s2 = "?s1\<lparr>cqhw := ?hw2, cqwritten := 16\<rparr>"
  let ?s3 = "?s2\<lparr>cqsw := \<lparr>readBytes = 16\<rparr>, cqmsgs := [(68, 16)], cqdeqs := [16]\<rparr>"
  have "cq_step 4 cq0 ?s1"
    using deliver [of cq0 "(64, 0)" "[]" 4] by (simp add: cq0_def cq_procUserW_def cqdev_reset_def Let_def)
  moreover have "cq_step 4 ?s1 ?s2"
    using hw_enq [of 4 ?s1] by (simp add: cq0_def cq_can_enq_def cq_serializeEnq_def)
  moreover have "cq_step 4 ?s2 ?s3"
    using sw_deq [of 16 ?s2 "\<lparr>readBytes = 16\<rparr>" "[(68, 16)]" 4] by (simp add: cq0_def circq_deq_def cqread_def)
  ultimately have "(cq_step 4)\<^sup>*\<^sup>* cq0 ?s3"
    by (intro rtranclp.rtrancl_into_rtrancl [OF rtranclp.rtrancl_into_rtrancl
          [OF rtranclp.rtrancl_into_rtrancl [OF rtranclp.rtrancl_refl]]])
  then show ?thesis by (rule exI [where x = ?s3, OF conjI]) (simp add: cq0_def)
qed

section \<open>Copies to and from the memory of the board\<close>

text \<open>C1: \<open>CopyToFPGA\<close>, over the windowed port and hardware that runs at any pace, returns and
  leaves exactly the caller's bytes at the aligned offset, \<open>0xFF\<close> up to the next page, and
  every other byte of the board as it was.\<close>

theorem copy_to_fpga_correct:
  assumes "dram_good s" "cmds (dram_vw s) = []"
    and "m_write_done_total q = dramWriteBurstDoneCount (dram_vw s)"
    and "unat (m_write_done_total q) + dram_chunks bytes < 2 ^ 32"
    and "dram_off offset + dram_len bytes \<le> 2 ^ 43"
  shows "\<exists>s'. CopyToFPGA (userWriteWord dev_read dev_write) (userReadWord dev_read) dram_dma_upd
      offset buffer bytes (q, s) =
        Some (q\<lparr>m_write_done_total := m_write_done_total q + of_nat (dram_chunks bytes)\<rparr>, s')
    \<and> dram_good s' \<and> cmds (dram_vw s') = []
    \<and> dramWriteBurstDoneCount (dram_vw s') = m_write_done_total q + of_nat (dram_chunks bytes)
    \<and> dram (dram_vw s') =
        to_spec (dram_off offset) (dram_len bytes) (padded (unat bytes) buffer) (dram (dram_vw s))"
  using dram_dev.CopyToFPGA_copies [OF assms, of buffer] by blast

theorem copy_to_fpga_correct_witness:
  "\<exists>s'. CopyToFPGA (userWriteWord dev_read dev_write) (userReadWord dev_read) dram_dma_upd
      8192 (\<lambda>k. of_nat k) 600000 (dram_handle, dram_sys0) = Some (dram_handle\<lparr>m_write_done_total := 42\<rparr>, s')
    \<and> dram (dram_vw s') 8195 = 3 \<and> dram (dram_vw s') 608192 = 0xFF \<and> dram (dram_vw s') 8191 = 0"
  using copy_to_fpga_correct [OF dram_sys0_good(1,4), of dram_handle 600000 8192 "\<lambda>k. of_nat k"]
    dram_sys0_good(2)
  by (auto simp: dram_example dram_handle_def dram_device_def to_spec_def padded_def zero_mem_def)

text \<open>C2: \<open>CopyFromFPGA\<close> returns with the bytes of the board in the caller's buffer and leaves the
  board as it was; it also writes \<open>0xff\<close> from the caller's length up to the end of the last
  512 KB chunk.\<close>

theorem copy_from_fpga_correct:
  assumes "dram_good s" "cmds (dram_vw s) = []"
    and "m_read_done_total q = dramReadBurstDoneCount (dram_vw s)"
    and "unat (m_read_done_total q) + dram_chunks bytes < 2 ^ 32"
    and "dram_off offset + dram_len bytes \<le> 2 ^ 43"
  shows "\<exists>s'. CopyFromFPGA (userWriteWord dev_read dev_write) (userReadWord dev_read) dram_dma
      offset buffer bytes (q, s) =
        Some (from_spec (dram_off offset) (unat bytes) (dram_chunks bytes) (dram (dram_vw s)) buffer,
          q\<lparr>m_read_done_total := m_read_done_total q + of_nat (dram_chunks bytes)\<rparr>, s')
    \<and> dram_good s' \<and> cmds (dram_vw s') = [] \<and> dram (dram_vw s') = dram (dram_vw s)"
  using dram_dev.CopyFromFPGA_copies [OF assms, of buffer] by blast

theorem copy_from_fpga_correct_witness:
  "\<exists>buf s'. CopyFromFPGA (userWriteWord dev_read dev_write) (userReadWord dev_read) dram_dma
      8192 (\<lambda>k. 5) 600000 (dram_handle, dram_sys0) = Some (buf, dram_handle\<lparr>m_read_done_total := 52\<rparr>, s')
    \<and> buf 599999 = 0 \<and> buf 600000 = 0xff \<and> buf 1048576 = 5"
  using copy_from_fpga_correct [OF dram_sys0_good(1,4), of dram_handle 600000 8192 "\<lambda>k. 5"]
    dram_sys0_good(2)
  by (auto simp: dram_example dram_handle_def dram_device_def from_spec_def zero_mem_def)

text \<open>C3: what was copied to the board comes back: after \<open>CopyToFPGA\<close> and \<open>CopyFromFPGA\<close> of the same
  place the second buffer holds the bytes of the first, and the library is ready again.\<close>

theorem copy_round_trip:
  assumes "dram_good s" "dma_ready q (dram_vw s)"
    and "unat (m_write_done_total q) + dram_chunks bytes < 2 ^ 32"
    and "unat (m_read_done_total q) + dram_chunks bytes < 2 ^ 32"
    and "dram_off offset + dram_len bytes \<le> 2 ^ 43"
  shows "\<exists>q1 s1 buf q2 s2.
    CopyToFPGA (userWriteWord dev_read dev_write) (userReadWord dev_read) dram_dma_upd
      offset buffer bytes (q, s) = Some (q1, s1)
    \<and> CopyFromFPGA (userWriteWord dev_read dev_write) (userReadWord dev_read) dram_dma
      offset buffer' bytes (q1, s1) = Some (buf, q2, s2)
    \<and> (\<forall>k<unat bytes. buf k = buffer k) \<and> dram_good s2 \<and> dma_ready q2 (dram_vw s2)"
  by (rule dram_dev.copy_there_and_back [OF assms])

theorem copy_round_trip_witness:
  "\<exists>q1 s1 buf q2 s2.
    CopyToFPGA (userWriteWord dev_read dev_write) (userReadWord dev_read) dram_dma_upd
      8192 (\<lambda>k. of_nat k) 600000 (dram_handle, dram_sys0) = Some (q1, s1)
    \<and> CopyFromFPGA (userWriteWord dev_read dev_write) (userReadWord dev_read) dram_dma
      8192 zero_mem 600000 (q1, s1) = Some (buf, q2, s2) \<and> buf 258 = 2"
  using copy_round_trip [OF dram_sys0_good(1,3), of 600000 8192 "\<lambda>k. of_nat k" zero_mem]
  by (force simp: dram_example dram_handle_def)

text \<open>The constructor returns and finds the counters it will wait on.\<close>

theorem dram_constructor_ready:
  assumes "dram_good s" "cmds (dram_vw s) = []"
  shows "\<exists>q s'. DRAMHostDMA_init (userReadWord dev_read) s = Some (q, s') \<and> dram_good s'
    \<and> dram_vw s' = dram_vw s \<and> dma_ready q (dram_vw s')"
  by (rule dram_dev.DRAMHostDMA_init_ready [OF assms])

theorem dram_constructor_ready_witness:
  "\<exists>q s'. DRAMHostDMA_init (userReadWord dev_read) dram_sys0 = Some (q, s') \<and> dram_good s'
    \<and> m_write_done_total q = 40 \<and> m_read_done_total q = 50"
  using dram_constructor_ready [OF dram_sys0_good(1,4)] dram_sys0_good(2)
  by (auto simp: dma_ready_def dram_device_def)

text \<open>C19: a copy whose last chunk would take the 32-bit count past \<open>2 ^ 32\<close> never returns, whatever
  the hardware does: the target it waits for is computed at 64 bits.\<close>

theorem copies_hang_when_count_wraps:
  assumes "dram_off offset + dram_len bytes \<le> 2 ^ 43"
  shows "(2 ^ 32 \<le> unat (m_write_done_total q) + dram_chunks bytes \<longrightarrow>
      CopyToFPGA uw ur upd offset buffer bytes (q, s) = None)
    \<and> (2 ^ 32 \<le> unat (m_read_done_total q) + dram_chunks bytes \<longrightarrow>
      CopyFromFPGA uw ur dma offset buffer bytes (q, s) = None)"
  by (intro conjI impI) (auto intro: copies_stuck_at_wrap [OF assms])

theorem copies_hang_when_count_wraps_witness:
  "CopyToFPGA (userWriteWord dev_read dev_write) (userReadWord dev_read) dram_dma_upd 8192 zero_mem 600000
     (dram_handle\<lparr>m_write_done_total := 0xffffffff\<rparr>, dram_sys0) = None"
  using copies_hang_when_count_wraps [of 8192 600000 "dram_handle\<lparr>m_write_done_total := 0xffffffff\<rparr>"
      "userWriteWord dev_read dev_write" "userReadWord dev_read" dram_dma_upd zero_mem dram_sys0 dram_dma]
  by (simp add: dram_example)

section \<open>Programmed I/O\<close>

text \<open>C4: over the simulation link any sequence of user accesses returns, and what the software
  sees is exactly a register file: reads answer what the writes before them left, in order.\<close>

theorem sim_link_is_register_file:
  assumes "link_quiet w" "list_all (user_word \<circ> pio_addr) ops"
  shows "\<exists>xs w'. run_pio (userWriteWord_sim hw_cycle sim_rings) (userReadWord_sim hw_cycle sim_rings) ops w
      = Some (xs, w') \<and> link_quiet w' \<and> link_regs w' = fold regs_write (pio_writes ops) (link_regs w)
    \<and> pio_answers regs_write (\<lambda>r a x. x = regs_read r a) ops (link_regs w) xs"
  by (rule sim_port.run_returns [OF assms])

theorem sim_link_is_register_file_witness:
  "\<exists>w'. run_pio (userWriteWord_sim hw_cycle sim_rings) (userReadWord_sim hw_cycle sim_rings)
     [UserWrite 0 7, UserWrite 4 9, UserRead 0, UserWrite 0 8, UserRead 0, UserRead 4] sim0
   = Some ([7, 8, 9], w')"
  using sim_link_is_register_file [OF sim0_quiet(1),
      of "[UserWrite 0 7, UserWrite 4 9, UserRead 0, UserWrite 0 8, UserRead 0, UserRead 4]"]
  by (auto simp: sim0_quiet user_word_def regs_write_def regs_read_def simp del: run_pio.simps)

text \<open>C5: on the device, after \<open>Init_Pcie\<close>, any sequence of user accesses returns as long as the
  user logic goes on taking writes, and the device is given the writes in program order. The
  values read, and the state in the end, are those of the user logic behind a queue of at
  most 513 writes: every read is answered by a state in which the logic has taken the writes
  before the read, in order, but for those still in the queue.\<close>

theorem pcie_accesses_return_in_order:
  assumes "userWriteQ d = []" "dev_live d" "list_all (user_word \<circ> pio_addr) ops"
  shows "\<exists>xs s. run_pio (userWriteWord dev_read dev_write) (userReadWord dev_read) ops (Init_Pcie dev_write d)
      = Some (xs, s) \<and> length xs = pio_reads ops \<and> dev_written (snd s) = dev_written d @ pio_writes ops
    \<and> logic_run (user_put d) (user_run d) (user_get d) ops ([], user d) xs (userWriteQ (snd s), user (snd s))"
proof -
  note init = Init_Pcie_good [OF assms(1,2)]
  obtain xs s where r: "run_pio (userWriteWord dev_read dev_write) (userReadWord dev_read) ops (Init_Pcie dev_write d)
      = Some (xs, s)" "length xs = pio_reads ops" "dev_written (snd s) = dev_written d @ pio_writes ops"
    using pcie_port.run_returns [OF init(1) assms(3)] init(2) by (fastforce simp: fold_snoc dest: pio_answers_length)
  have "logic_run (user_put d) (user_run d) (user_get d) ops ([], user d) xs (userWriteQ (snd s), user (snd s))"
    using run_pio_answers [OF init(1) assms(3) r(1)] later_run [OF Init_Pcie_later, of d ops xs] assms(1)
      Init_Pcie_later [of d] by (simp add: dev_later_def) (simp add: dev_logic_def)
  then show ?thesis using r by blast
qed

theorem pcie_accesses_return_in_order_witness:
  "\<exists>s. run_pio (userWriteWord dev_read dev_write) (userReadWord dev_read)
     [UserWrite 0 7, UserRead 4, UserWrite 8 9] (Init_Pcie dev_write (idle_dev (\<lambda>_. 1))) = Some ([0], s)
   \<and> dev_written (snd s) = [(0, 7), (8, 9)]"
proof -
  let ?ops = "[UserWrite 0 7, UserRead 4, UserWrite 8 9]"
  obtain xs s where r: "run_pio (userWriteWord dev_read dev_write) (userReadWord dev_read) ?ops
      (Init_Pcie dev_write (idle_dev (\<lambda>_. 1))) = Some (xs, s)" "length xs = pio_reads ?ops"
    "dev_written (snd s) = dev_written (idle_dev (\<lambda>_. 1)) @ pio_writes ?ops"
    and l: "logic_run (\<lambda>_ u. u) (\<lambda>_ u. u) (\<lambda>_ _. 0) ?ops ([], ()) xs (userWriteQ (snd s), user (snd s))"
    using pcie_accesses_return_in_order [OF idle_dev_live(1,2), of ?ops] by (auto simp: user_word_def idle_dev_def)
  have "\<forall>x \<in> set xs. x = 0" using logic_run_answers [OF l, of "\<lambda>_. True"] by simp
  then have "xs = [0]" using r(2) by (auto simp: pio_reads_def length_Suc_conv)
  then show ?thesis
    using r(1,3) by (intro exI [of _ s]) (simp add: idle_dev_def dev_written_def del: run_pio.simps)
qed

text \<open>C11: the window of writes is exactly 513 wide, one more than \<open>IO_QUEUE_SIZE\<close>: when the user logic takes
  no writes, 513 of them return after \<open>Init_Pcie\<close> and all wait in the device, and any further
  one never returns.\<close>

theorem pcie_window_capacity:
  assumes "userWriteQ d = []" "\<forall>t. user_takes d t = 0"
    and "list_all (user_word \<circ> fst) ws" "length ws = 513" "user_word a"
  shows "\<exists>p' d'. user_writes ws (Init_Pcie dev_write d) = Some (p', d') \<and> dev_queued d' = 513
    \<and> userWriteWord dev_read dev_write a v (p', d') = None"
  by (rule stalled_capacity [OF assms])

theorem pcie_window_capacity_witness:
  "\<exists>p' d'. user_writes (replicate 513 (8, 1)) (Init_Pcie dev_write (idle_dev (\<lambda>_. 0))) = Some (p', d')
    \<and> dev_queued d' = 513 \<and> userWriteWord dev_read dev_write 8 1 (p', d') = None"
  by (rule pcie_window_capacity)
    (simp_all only: idle_dev_live length_replicate list_all_length nth_replicate comp_def fst_conv
      user_word_def, simp_all)

text \<open>C7: any number of threads may use the accesses at once. Whatever the interleaving of their steps under the
  two mutexes, no two of them are in the same critical section; the device has got exactly the
  writes made so far, each thread's in the order of its calls, none lost and none twice; and
  never are more than 513 of them in flight.\<close>

theorem pcie_threads_safe:
  assumes "userWriteQ d = []" "\<forall>t. list_all (user_word \<circ> pio_addr) (cs t)"
    and "(threads_step dev_read dev_write)\<^sup>*\<^sup>* (threads_start (Init_Pcie dev_write d) cs) s"
  shows "dev_written (tdev s) = dev_written d @ map (\<lambda>(t, a, v). (ucast a, v)) (write_log s)
    \<and> (\<forall>t. call_writes (cs t) = writes_by t s @ pending_write (pc s t) @ call_writes (calls s t))
    \<and> dev_queued (tdev s) \<le> 513
    \<and> (\<forall>t u. in_write (pc s t) \<and> in_write (pc s u) \<longrightarrow> t = u) \<and> (\<forall>t u. in_read (pc s t) \<and> in_read (pc s u) \<longrightarrow> t = u)"
  by (rule device_threads_safe [OF assms])

text \<open>Two threads with one write each, the second one first.\<close>

definition two_writers :: "nat \<Rightarrow> (u32 \<times> u32) list" where
  "two_writers t = (if t = 0 then [(4, 7)] else if t = 1 then [(0, 5)] else [])"

lemma two_writers_facts:
  "\<forall>t. list_all (user_word \<circ> fst) (two_writers t)"
  "\<forall>t. map snd (filter (\<lambda>w. fst w = t) [(1, 0, 5), (0, 4, 7)]) = two_writers t"
  by (simp_all add: two_writers_def user_word_def)

theorem pcie_threads_safe_witness:
  "\<exists>s. (threads_step dev_read dev_write)\<^sup>*\<^sup>* (threads_start (Init_Pcie dev_write (idle_dev (\<lambda>_. 1))) (writers two_writers)) s
    \<and> write_log s = [(1, 0, 5), (0, 4, 7)] \<and> dev_written (tdev s) = [(0, 5), (4, 7)] \<and> dev_queued (tdev s) \<le> 513"
proof -
  obtain s where s: "(threads_step dev_read dev_write)\<^sup>*\<^sup>*
      (threads_start (Init_Pcie dev_write (idle_dev (\<lambda>_. 1))) (writers two_writers)) s" "write_log s = [(1, 0, 5), (0, 4, 7)]"
    using device_threads_make [OF idle_dev_live(1,2) two_writers_facts] by blast
  show ?thesis
    using s pcie_threads_safe [OF idle_dev_live(1) writers_user [OF two_writers_facts(1)] s(1)]
    by (intro exI [of _ s]) (simp add: idle_dev_def dev_written_def)
qed

text \<open>C8: on a device that keeps taking writes every run of the threads is finite, whatever the order of their
  steps: they make at most 518 steps for a call. And where no thread can go on every call
  has returned, with its writes made and a word for every read: there is no deadlock.\<close>

theorem pcie_threads_finish:
  assumes "userWriteQ d = []" "\<forall>t. list_all (user_word \<circ> pio_addr) (cs t)" "dev_live d" "finite T" "\<forall>t. t \<notin> T \<longrightarrow> cs t = []"
    and "(threads_step dev_read dev_write ^^ n) (threads_start (Init_Pcie dev_write d) cs) s"
  shows "n \<le> 518 * (\<Sum>t\<in>T. length (cs t))
    \<and> ((\<nexists>s'. threads_step dev_read dev_write s s') \<longrightarrow>
        (\<forall>t. calls s t = [] \<and> pc s t = Outside \<and> writes_by t s = call_writes (cs t) \<and> length (reads_by t s) = pio_reads (cs t)))"
  by (rule device_threads_finish [OF assms])

theorem pcie_threads_finish_witness:
  "\<exists>n s. (threads_step dev_read dev_write ^^ n)
      (threads_start (Init_Pcie dev_write (idle_dev (\<lambda>_. 1))) (writers two_writers)) s
    \<and> n \<le> 1036 \<and> writes_by 0 s = [(4, 7)]"
proof -
  obtain s where s: "(threads_step dev_read dev_write)\<^sup>*\<^sup>*
      (threads_start (Init_Pcie dev_write (idle_dev (\<lambda>_. 1))) (writers two_writers)) s" "write_log s = [(1, 0, 5), (0, 4, 7)]"
    using device_threads_make [OF idle_dev_live(1,2) two_writers_facts] by blast
  obtain n where n: "(threads_step dev_read dev_write ^^ n)
      (threads_start (Init_Pcie dev_write (idle_dev (\<lambda>_. 1))) (writers two_writers)) s"
    using rtranclp_imp_relpowp [OF s(1)] by blast
  have t: "finite {0, 1 :: nat}" "\<forall>t. t \<notin> {0, 1} \<longrightarrow> writers two_writers t = []"
    by (simp_all add: writers_def two_writers_def)
  show ?thesis
    using n s(2) pcie_threads_finish [OF idle_dev_live(1) writers_user [OF two_writers_facts(1)] idle_dev_live(2) t n]
    by (intro exI [of _ n] exI [of _ s]) (simp add: writes_by_def writers_def two_writers_def)
qed

text \<open>C9: the orders in which threads that write can reach the device are exactly those that keep the order of
  each thread: no other happens, and every one of them can.\<close>

theorem pcie_threads_any_order:
  assumes "userWriteQ d = []" "dev_live d" "\<forall>t. list_all (user_word \<circ> fst) (ps t)"
  shows "(\<exists>s. (threads_step dev_read dev_write)\<^sup>*\<^sup>* (threads_start (Init_Pcie dev_write d) (writers ps)) s
      \<and> (\<forall>t. calls s t = [] \<and> pc s t = Outside) \<and> write_log s = ws)
    \<longleftrightarrow> (\<forall>t. map snd (filter (\<lambda>w. fst w = t) ws) = ps t)"
  using device_threads_make [OF assms, of ws] device_threads_kept by blast

theorem pcie_threads_any_order_witness:
  "\<exists>s. (threads_step dev_read dev_write)\<^sup>*\<^sup>* (threads_start (Init_Pcie dev_write (idle_dev (\<lambda>_. 1))) (writers two_writers)) s
    \<and> write_log s = [(1, 0, 5), (0, 4, 7)]"
  using pcie_threads_any_order [OF idle_dev_live(1,2) two_writers_facts(1), of "[(1, 0, 5), (0, 4, 7)]"]
    two_writers_facts(2) by blast

text \<open>\<open>sendWord\<close> of the splitter is five such writes and takes no lock: two threads that send at once can
  have the last register of one word written behind the header of the other.\<close>

theorem splitter_sends_mix:
  assumes "userWriteQ d = []" "dev_live d"
  shows "\<exists>s. (threads_step dev_read dev_write)\<^sup>*\<^sup>* (threads_start (Init_Pcie dev_write d)
        (writers (\<lambda>t. if t = 0 then word_regs v else if t = 1 then word_regs w else []))) s
    \<and> dev_written (tdev s) = dev_written d @
        [(16, wheader v), (12, wdata v ! 3), (8, wdata v ! 2), (4, wdata v ! 1),
         (16, wheader w), (12, wdata w ! 3), (8, wdata w ! 2), (4, wdata w ! 1), (0, wdata v ! 0), (0, wdata w ! 0)]"
proof -
  let ?ps = "\<lambda>t :: nat. if t = 0 then word_regs v else if t = 1 then word_regs w else []"
  let ?ws = "map (Pair 0) (butlast (word_regs v)) @ map (Pair 1) (butlast (word_regs w))
    @ [(0, last (word_regs v)), (1 :: nat, last (word_regs w))]"
  have "\<forall>t. list_all (user_word \<circ> fst) (?ps t)" using word_regs_user by simp
  moreover have "\<forall>t. map snd (filter (\<lambda>w. fst w = t) ?ws) = ?ps t" by (simp add: word_regs_def)
  ultimately show ?thesis
    using device_threads_make [OF assms, of ?ps ?ws] by (auto simp: word_regs_def)
qed

theorem splitter_sends_mix_witness:
  "\<exists>s. (threads_step dev_read dev_write)\<^sup>*\<^sup>* (threads_start (Init_Pcie dev_write (idle_dev (\<lambda>_. 1)))
        (writers (\<lambda>t. if t = 0 then word_regs \<lparr>wdata = [1, 2, 3, 4], wheader = 9\<rparr> else
           if t = 1 then word_regs \<lparr>wdata = [5, 6, 7, 8], wheader = 10\<rparr> else []))) s
    \<and> dev_written (tdev s) = [(16, 9), (12, 4), (8, 3), (4, 2), (16, 10), (12, 8), (8, 7), (4, 6), (0, 1), (0, 5)]"
  using splitter_sends_mix [OF idle_dev_live(1,2), of "\<lparr>wdata = [1, 2, 3, 4], wheader = 9\<rparr>" "\<lparr>wdata = [5, 6, 7, 8], wheader = 10\<rparr>"]
  by (simp add: idle_dev_def dev_written_def)

text \<open>C22: accesses to the configuration space use the window up: after 513 of them since
  \<open>Init_Pcie\<close> the next \<open>writeWord\<close> waits for ever, even on an idle device.\<close>

theorem config_writes_block_port:
  assumes "userWriteQ d = []" "list_all (config_addr \<circ> fst) ws" "length ws = 513"
  shows "\<exists>s. write_words ws (Init_Pcie dev_write d) = Some s \<and> writeWord dev_read dev_write a v s = None"
  by (rule config_writes_exhaust [OF assms])

theorem config_writes_block_port_witness:
  "\<exists>s. write_words (replicate 513 (8, 1)) (Init_Pcie dev_write (idle_dev (\<lambda>_. 1))) = Some s
    \<and> writeWord dev_read dev_write 0x4000 1 s = None"
  by (rule config_writes_block_port)
    (simp_all only: idle_dev_live length_replicate list_all_length nth_replicate comp_def fst_conv
      config_addr_def CONFIG_BUFFER_SIZE_def, simp_all)

text \<open>The same for reads, such as the reads of the magic word at address 0.\<close>

theorem config_reads_block_port:
  assumes "userWriteQ d = []" "list_all (\<lambda>a. a < CONFIG_BUFFER_SIZE) as" "length as = 513"
  shows "\<exists>vs s. read_words as (Init_Pcie dev_write d) = Some (vs, s) \<and> readWord dev_read a s = None"
  by (rule config_reads_exhaust [OF assms])

theorem config_reads_block_port_witness:
  "\<exists>vs s. read_words (replicate 513 0) (Init_Pcie dev_write (idle_dev (\<lambda>_. 1))) = Some (vs, s)
    \<and> readWord dev_read 0x4000 s = None"
  by (rule config_reads_block_port)
    (simp_all only: idle_dev_live length_replicate list_all_length nth_replicate CONFIG_BUFFER_SIZE_def,
      simp_all)

section \<open>The shared-memory queue\<close>

text \<open>C10: operation by operation a \<open>ShmFifo\<close> does what a list bounded by the room of the queue does:
  \<open>push\<close> and \<open>pop\<close> also when the queue is full or empty, and through any sequence of operations,
  guarded as the clients guard them, both take and refuse the same words, read the same
  ones and hold the same ones in the end. The room is one word less than the ring.\<close>

theorem shm_fifo_is_queue:
  assumes "fifo_inv f m"
  shows "fifo_list f (fifo_push f v m) = queue_put (unat (fsize f) - 1) v (fifo_list f m)
    \<and> fifo_list f (fifo_pop f m) = tl (fifo_list f m)
    \<and> (fifo_full f m \<longleftrightarrow> unat (fsize f) - 1 \<le> length (fifo_list f m)) \<and> (fifo_empty f m \<longleftrightarrow> fifo_list f m = [])
    \<and> (case run_fops (fifo_push f) (fifo_pop f) (fifo_tail f) (fifo_empty f) (fifo_full f) ops m of
        (outs, ins, m') \<Rightarrow> fifo_inv f m' \<and>
          queue_run (unat (fsize f) - 1) ops (fifo_list f m) = (outs, ins, fifo_list f m'))"
  using shm.contents_put [OF assms, of v] shm.contents_deq [OF assms] shm.full_when [OF assms] shm.is_empty_iff [OF assms]
    shm.run_refines [OF assms, of ops] shm.valid_run [OF assms, of ops]
  by (auto simp: fifo_room_def split: prod.splits)

theorem shm_fifo_is_queue_witness:
  "\<exists>m'. run_fops (fifo_push (shm_fifo 0)) (fifo_pop (shm_fifo 0)) (fifo_tail (shm_fifo 0))
     (fifo_empty (shm_fifo 0)) (fifo_full (shm_fifo 0)) [Pop, Push 5, Push 6, Pop] shm0 = ([5], [5, 6], m')
   \<and> fifo_inv (shm_fifo 0) m' \<and> fifo_list (shm_fifo 0) m' = [6]"
proof -
  let ?ops = "[Pop, Push 5, Push 6, Pop]"
  obtain outs ins m' where r: "run_fops (fifo_push (shm_fifo 0)) (fifo_pop (shm_fifo 0)) (fifo_tail (shm_fifo 0))
     (fifo_empty (shm_fifo 0)) (fifo_full (shm_fifo 0)) ?ops shm0 = (outs, ins, m')"
    using prod_cases3 by blast
  have "fifo_inv (shm_fifo 0) shm0" "fifo_list (shm_fifo 0) shm0 = []" using shm0_inv shm_invD by simp_all
  then have "fifo_inv (shm_fifo 0) m'" "queue_run 1020 ?ops [] = (outs, ins, fifo_list (shm_fifo 0) m')"
    using shm_fifo_is_queue [of "shm_fifo 0" shm0 5 ?ops] r by (simp_all del: run_fops.simps)
  moreover have "queue_run 1020 ?ops [] = ([5 :: u64], [5, 6], [6])" by (simp add: queue_run_def queue_put_def)
  ultimately show ?thesis using r by (auto simp del: run_fops.simps)
qed

text \<open>C6: one producer and one consumer, interleaved store by store: as long as the producer never
  looks between the two stores of a wrapping \<open>pop\<close>, nothing is lost, doubled or reordered.\<close>

theorem spsc_delivers_in_order:
  assumes "fifo_inv f m" "ordered_reach f (spsc_init m) s"
  shows "\<exists>rest. fifo_list f m @ sent s = got s @ rest
    \<and> (ppc s = PIdle \<and> cpc s = CIdle \<longrightarrow> rest = fifo_list f (smem s))"
  by (rule ordered_delivery [OF assms])

theorem spsc_delivers_in_order_witness:
  "\<exists>s. ordered_reach (shm_fifo 0) (spsc_init shm0) s \<and> sent s = [5] \<and> got s = [5]"
proof -
  have i: "fifo_inv (shm_fifo 0) shm0" "fifo_list (shm_fifo 0) shm0 = []"
    using shm_invD [OF shm0_inv(1)] shm0_inv(2) by simp_all
  then obtain s x where s: "ordered_reach (shm_fifo 0) (spsc_init shm0) s" "sent s = [5]" "got s = [x]"
    using ordered_push_take [OF i(1), of 5] by (auto simp: fifo_full_iff)
  then show ?thesis using spsc_delivers_in_order [OF i(1) s(1)] i(2) by auto
qed

text \<open>C21: without that restriction words are lost. The queue is full with its tail index in the last
  place; between the two stores of \<open>pop\<close> the producer can push twice, the second time into a ring
  that is full; after the second store the queue is empty and all that it held is lost.\<close>

theorem pop_wrap_race_loses_all:
  assumes "fifo_inv f m" "fifo_full f m" "1 < fsize f" "load64 m (tailidx f) = fsize f - 1"
  shows "\<exists>s. spsc_reach f (spsc_init m) s \<and> ppc s = PIdle \<and> cpc s = CIdle
    \<and> sent s = [v1, v2] \<and> got s = [hd (fifo_list f m)] \<and> fifo_list f (smem s) = []"
  by (rule pop_race [OF assms])

definition race_fifo :: shmfifo where
  "race_fifo = \<lparr>fmem = 24, fsize = 4, headidx = 0, tailidx = 8\<rparr>"

theorem pop_wrap_race_loses_all_witness:
  "\<exists>s. spsc_reach race_fifo (spsc_init (store64 (store64 zero_mem 0 2) 8 3)) s \<and> ppc s = PIdle \<and> cpc s = CIdle
    \<and> sent s = [7, 8] \<and> got s = [hd (fifo_list race_fifo (store64 (store64 zero_mem 0 2) 8 3))]
    \<and> fifo_list race_fifo (smem s) = []"
  by (rule pop_wrap_race_loses_all)
    (simp_all add: fifo_inv_def fifo_wf_def race_fifo_def fifo_full_def fifo_nexthead_def Let_def
      load64_store64_other)

section \<open>The simulation link: start-up, DMA, interrupts, messages\<close>

text \<open>C16: the hardware makes the segment, the software does not. After the first cycle of the hardware the
  link is idle, and the software attaches to the same three queues and changes nothing. The
  software alone attaches only to a segment that exists already, setting it up as the
  hardware would have; where none exists it gets no queues and makes no segment. Either
  way the hardware that starts after it finds or leaves the same contents.\<close>

theorem start_up_needs_segment:
  assumes "shm_fresh (shm_create seg)"
  shows "link_quiet (hw_cycle (hw_start, shm_create seg)) \<and> link_regs (hw_cycle (hw_start, shm_create seg)) = (0, 0, 0)
    \<and> Init_Bluesim True True (Some (snd (hw_cycle (hw_start, shm_create seg))))
        = (Some sim_rings, Some (snd (hw_cycle (hw_start, shm_create seg))))
    \<and> Init_Bluesim True True seg
        = (case seg of None \<Rightarrow> (None, None) | Some m \<Rightarrow> (Some sim_rings, Some (snd (hw_cycle (hw_start, m)))))
    \<and> snd (hw_cycle (hw_start, shm_create (snd (Init_Bluesim True True seg)))) = snd (hw_cycle (hw_start, shm_create seg))"
  using start_up_cycle [OF assms] start_up_second [OF assms] shm_setup_all_fresh [OF assms]
  by (cases seg) (simp_all add: Init_Bluesim_eq Init_Bluesim_missing shm_setup_all_marked shm_create_def)

theorem start_up_needs_segment_witness:
  "Init_Bluesim True True None = (None, None) \<and> link_quiet (hw_cycle (hw_start, shm_create None))
    \<and> fst (Init_Bluesim True True (Some (snd (hw_cycle (hw_start, shm_create None))))) = Some sim_rings"
proof -
  have "shm_fresh (shm_create None)" using zero_mem_fresh by (simp add: shm_create_def zero_mem_def)
  from start_up_needs_segment [OF this] show ?thesis by simp
qed

text \<open>A 16-byte DMA write of the hardware inside the buffer succeeds, leaves the three queues
  alone, and a DMA read of the same place gives the two words back, lowest 32 bits first.\<close>

theorem dma_write_read:
  assumes "bdpi_inv b m" "shm_ready b" "unat addr mod 8 = 0" "unat addr + 16 \<le> DMA_BUFFER_SIZE"
  shows "\<exists>m'. bdpiDmaWriteData mm addr d1 d2 b m = Some (True, b, m') \<and> bdpi_inv b m'
    \<and> (\<forall>k<3. fifo_list (shm_fifo k) m' = fifo_list (shm_fifo k) m)
    \<and> (case bdpiDmaReadReq mm addr 1 b m' of (ok, b1, m1) \<Rightarrow> ok \<and> m1 = m'
        \<and> (\<exists>b2. dma_read_words 4 b1 m' =
             Some ([ucast d1, ucast (drop_bit 32 d1), ucast d2, ucast (drop_bit 32 d2)], b2)
             \<and> fst (bdpiDmaReadReady mm b2 m') = False))"
  by (rule dma_round_trip [OF assms])

theorem dma_write_read_witness:
  "\<exists>m'. bdpiDmaWriteData True 32 0x0000000200000001 0x0000000400000003 (bdpi_st (fst sim0)) (snd sim0) =
      Some (True, bdpi_st (fst sim0), m')
    \<and> (case bdpiDmaReadReq True 32 1 (bdpi_st (fst sim0)) m' of (ok, b1, m1) \<Rightarrow>
        \<exists>b2. dma_read_words 4 b1 m' = Some ([1, 2, 3, 4], b2))"
  using dma_write_read [OF sim0_bdpi, of 32 True "0x0000000200000001" "0x0000000400000003"]
  by (fastforce simp: DMA_BUFFER_SIZE_def split: prod.splits)

text \<open>C15: through the controller of the simulation, a burst of 128-bit words that fits in the buffer is
  written where the host reads it and leaves the three queues alone. Read back, the words come in
  order, however the user logic takes them, and in four cycles for each word if it takes every
  word at once.\<close>

theorem dma_burst_round_trip:
  assumes "dma_up (d, m)" "dma_idle d" "unat addr mod 8 = 0" "unat addr + 16 * length ws \<le> DMA_BUFFER_SIZE"
    and "length ws < 2 ^ 10"
  shows "\<exists>d1 m1 d2. dma_write_burst addr ws (d, m) = Some (d1, m1)
    \<and> (\<forall>k<3. fifo_list (shm_fifo k) m1 = fifo_list (shm_fifo k) m)
    \<and> (\<forall>i<length ws. load128 m1 (unat addr + 16 * i) = ws ! i)
    \<and> dmaReadReq addr (of_nat (length ws)) (d1, m1) = Some (d2, m1)
    \<and> (\<forall>ts. \<exists>out d3. dma_cycles ts ([], d2, m1) = Some (out, d3, m1) \<and> out = take (length out) ws)
    \<and> (\<exists>d3. dma_cycles (replicate (4 * length ws + 1) True) ([], d2, m1) = Some (ws, d3, m1) \<and> dmaReadWordCount d3 = 0)"
  using assms by (intro dma_burst_returns) (simp_all add: dma_range_def)

lemma dma_reset_ready: "dma_up (dma_reset (bdpi_st (fst sim0)), snd sim0)" "dma_idle (dma_reset b)"
  using sim0_bdpi by (simp_all add: dma_up_def dma_reset_def dma_idle_def)

theorem dma_burst_round_trip_witness:
  "\<exists>d1 m1 d2 d3. dma_write_burst 32 [5, 2 ^ 100] (dma_reset (bdpi_st (fst sim0)), snd sim0) = Some (d1, m1)
    \<and> load128 m1 48 = 2 ^ 100 \<and> dmaReadReq 32 2 (d1, m1) = Some (d2, m1)
    \<and> dma_cycles (replicate 9 True) ([], d2, m1) = Some ([5, 2 ^ 100], d3, m1)"
proof -
  have "unat (32 :: u32) mod 8 = 0" "unat (32 :: u32) + 16 * length [5 :: dmaword, 2 ^ 100] \<le> DMA_BUFFER_SIZE"
    "length [5 :: dmaword, 2 ^ 100] < 2 ^ 10" by (simp_all add: DMA_BUFFER_SIZE_def)
  from dma_burst_round_trip [OF dma_reset_ready this] obtain d1 m1 d2 d3 where
    "dma_write_burst 32 [5, 2 ^ 100] (dma_reset (bdpi_st (fst sim0)), snd sim0) = Some (d1, m1)"
    "\<forall>i<length [5 :: dmaword, 2 ^ 100]. load128 m1 (unat (32 :: u32) + 16 * i) = [5, 2 ^ 100] ! i"
    "dmaReadReq 32 (of_nat (length [5 :: dmaword, 2 ^ 100])) (d1, m1) = Some (d2, m1)"
    "dma_cycles (replicate (4 * length [5 :: dmaword, 2 ^ 100] + 1) True) ([], d2, m1) = Some ([5, 2 ^ 100], d3, m1)"
    by blast
  moreover have "4 * length [5 :: dmaword, 2 ^ 100] + 1 = 9" by simp
  ultimately show ?thesis by (intro exI [of _ d1] exI [of _ m1] exI [of _ d2] exI [of _ d3]) (auto simp only:, auto)
qed

text \<open>The address of a DMA write is not checked: one just past the buffer sets the head and the
  tail index of the first queue to the data.\<close>

theorem dma_write_hits_queue:
  assumes "bdpi_inv b m" "shm_ready b"
  shows "\<exists>m'. bdpiDmaWriteData mm (of_nat DMA_BUFFER_SIZE) d1 d2 b m = Some (True, b, m')
    \<and> load64 m' (headidx (shm_fifo 0)) = d1 \<and> load64 m' (tailidx (shm_fifo 0)) = d2"
  by (rule dma_past_buffer [OF assms])

theorem dma_write_hits_queue_witness:
  "\<exists>m'. bdpiDmaWriteData True (of_nat DMA_BUFFER_SIZE) 5 7 (bdpi_st (fst sim0)) (snd sim0) =
      Some (True, bdpi_st (fst sim0), m') \<and> load64 m' (headidx (shm_fifo 0)) = 5"
  using dma_write_hits_queue [OF sim0_bdpi, of True 5 7] by blast

text \<open>\<open>waitInterrupt\<close> of the simulation build returns at once, with the interrupt queue empty and
  the other queues as they were.\<close>

theorem wait_interrupt_drains:
  assumes "shm_inv m"
  shows "\<exists>m'. waitInterrupt_sim sim_rings m = Some m' \<and> shm_inv m' \<and> fifo_list (shm_fifo 2) m' = []
    \<and> (\<forall>k<2. fifo_list (shm_fifo k) m' = fifo_list (shm_fifo k) m)"
  by (rule waitInterrupt_empties [OF assms])

theorem wait_interrupt_drains_witness:
  "\<exists>m'. waitInterrupt_sim sim_rings shm0 = Some m' \<and> shm_inv m' \<and> fifo_list (shm_fifo 2) m' = []"
  using wait_interrupt_drains [OF shm0_inv(1)] by blast

text \<open>The hardware takes the fields of a message as the software put them in, for addresses of
  20 bits, and the software the data of an answer.\<close>

theorem message_round_trip:
  assumes "unat addr < 2 ^ 20"
  shows "msg_write (io_write_msg addr data) \<and> msg_data (io_write_msg addr data) = data
      \<and> msg_addr (io_write_msg addr data) = ucast addr \<and> \<not> msg_notready (io_write_msg addr data)
    \<and> \<not> msg_write (io_read_msg addr) \<and> msg_addr (io_read_msg addr) = ucast addr
      \<and> \<not> msg_notready (io_read_msg addr) \<and> (ucast (io_resp a data) :: u32) = data"
  using msg_fields_write [OF assms] msg_fields_read [OF assms] msg_resp_data by blast

theorem message_round_trip_witness:
  "msg_data (io_write_msg 0x4008 0xdeadbeef) = 0xdeadbeef \<and> msg_addr (io_write_msg 0x4008 0xdeadbeef) = 0x4008"
  using message_round_trip [of "0x4008" "0xdeadbeef" 0] by simp

text \<open>An address with bit 24 set turns a read into a message the hardware takes for a write.\<close>

theorem read_of_high_address_is_write:
  assumes "bit addr 24" "\<not> bit addr 31"
  shows "is_write_msg (io_read_msg addr)"
  using assms by (simp add: is_write_msg_def msg_write_def msg_notready_def bit_read_msg)

theorem read_of_high_address_is_write_witness: "is_write_msg (io_read_msg 0x01004000)"
  by (rule read_of_high_address_is_write) simp_all

section \<open>The libraries above the port\<close>



text \<open>C12: \<open>scanReceive\<close> takes exactly the new words of the slots, in their order, behind those it
  holds, and acknowledges them; with none it changes nothing.\<close>

theorem splitter_scan_takes_batch:
  assumes "pcie_good s" "slots_hold (dma s) i ws" "recv_at i sp"
  shows "\<exists>sp' s'. scanReceive (writeWord dev_read dev_write) dma (sp, s) = Some (length ws, sp', s')
    \<and> pcie_good s' \<and> recv_at (i + length ws) sp' \<and> recv_queue sp' = recv_queue sp @ ws
    \<and> dev_written (snd s') =
        dev_written (snd s) @ (if ws = [] then [] else [(64, of_nat (i + length ws))])"
  using pcie_words.scanReceive_batch [of s dma, OF assms] by (cases "ws = []") auto

theorem splitter_scan_takes_batch_witness:
  "\<exists>sp' s'. scanReceive (writeWord dev_read dev_write) (\<lambda>_. slot_mem)
     (\<lparr>nextrecvidx = 127, nextrecvoff = 127, recvList = []\<rparr>, Init_Pcie dev_write (idle_dev (\<lambda>_. 1))) =
       Some (2, sp', s') \<and> recv_queue sp' = [slot_w 5, slot_w 6]"
  using splitter_scan_takes_batch [OF Init_Pcie_good(1) [OF idle_dev_live(1,2)] slot_mem_holds, of
      "\<lparr>nextrecvidx = 127, nextrecvoff = 127, recvList = []\<rparr>"]
  by (auto simp: recv_at_def recv_queue_def)

text \<open>C18: \<open>recvWord\<close> waits until a batch arrives, returns its first word and keeps the rest.\<close>

theorem splitter_recv_waits:
  assumes "recvList sp = []" "recv_at i sp" "\<forall>k\<le>Suc n. pcie_good ((wait ^^ k) s)"
    and "\<forall>k<n. slots_hold (dma ((wait ^^ Suc k) s)) i []"
    and "slots_hold (dma ((wait ^^ Suc n) s)) i (w # ws)"
  shows "\<exists>sp' s'. recvWord (writeWord dev_read dev_write) dma wait (sp, s) = Some (w, sp', s') \<and> pcie_good s'
    \<and> recv_queue sp' = ws \<and> recv_at (i + Suc (length ws)) sp'"
  using pcie_words.recvWord_waits [OF assms] by blast

theorem splitter_recv_waits_witness:
  "\<exists>sp' s'. recvWord (writeWord dev_read dev_write) (\<lambda>_. slot_mem) id
     (\<lparr>nextrecvidx = 127, nextrecvoff = 127, recvList = []\<rparr>, Init_Pcie dev_write (idle_dev (\<lambda>_. 1))) =
       Some (slot_w 5, sp', s') \<and> recv_queue sp' = [slot_w 6]"
  using splitter_recv_waits [of "\<lparr>nextrecvidx = 127, nextrecvoff = 127, recvList = []\<rparr>" 127 0 id
      "Init_Pcie dev_write (idle_dev (\<lambda>_. 1))" "\<lambda>_. slot_mem" "slot_w 5" "[slot_w 6]"]
    Init_Pcie_good(1) [OF idle_dev_live(1,2)] slot_mem_holds
  by (auto simp: recv_at_def)

text \<open>\<open>recvWord\<close> gives the words in the order they arrived.\<close>

theorem splitter_recv_fifo:
  assumes "recv_queue sp \<noteq> []"
  shows "\<exists>sp'. recvWord ww dma wait (sp, s) = Some (hd (recv_queue sp), sp', s)
    \<and> recv_queue sp' = tl (recv_queue sp)"
  using recvWord_ready [OF assms, of ww dma wait s] by (simp add: recv_queue_def)

theorem splitter_recv_fifo_witness:
  "\<exists>sp'. recvWord (writeWord dev_read dev_write) (\<lambda>_. slot_mem) id
     (\<lparr>nextrecvidx = 2, nextrecvoff = 2, recvList = [slot_w 6, slot_w 5]\<rparr>, Init_Pcie dev_write (idle_dev (\<lambda>_. 1))) =
       Some (slot_w 5, sp', Init_Pcie dev_write (idle_dev (\<lambda>_. 1))) \<and> recv_queue sp' = [slot_w 6]"
  using splitter_recv_fifo [of "\<lparr>nextrecvidx = 2, nextrecvoff = 2, recvList = [slot_w 6, slot_w 5]\<rparr>"
      "writeWord dev_read dev_write" "\<lambda>_. slot_mem" id "Init_Pcie dev_write (idle_dev (\<lambda>_. 1))"]
  by (simp add: recv_queue_def)

text \<open>\<open>deq\<close> tells the device the running total of the bytes read, modulo \<open>2 ^ 32\<close>, in order.\<close>

theorem circular_queue_reports_totals:
  assumes "pcie_good s"
  shows "\<exists>s'. circq_deqs (userWriteWord dev_read dev_write) bs (q, s) =
      Some (\<lparr>readBytes = readBytes q + sum_list bs\<rparr>, s') \<and> pcie_good s'
    \<and> dev_written (snd s') = dev_written (snd s) @ deq_log (readBytes q) bs"
  using pcie_port.circq_deqs_return [OF assms, of bs q] by (cases q) (auto simp: fold_snoc)

theorem circular_queue_reports_totals_witness:
  "\<exists>s'. circq_deqs (userWriteWord dev_read dev_write) [16, 32]
      (\<lparr>readBytes = 0xfffffff0\<rparr>, Init_Pcie dev_write (idle_dev (\<lambda>_. 1))) = Some (\<lparr>readBytes = 32\<rparr>, s')
    \<and> dev_written (snd s') = [(68, 0), (68, 32)]"
  using circular_queue_reports_totals [OF Init_Pcie_good(1) [OF idle_dev_live(1,2)], of "[16, 32]"
      "\<lparr>readBytes = 0xfffffff0\<rparr>"] Init_Pcie_good(2) [OF idle_dev_live(1,2)]
  by (auto simp: idle_dev_def dev_written_def)

text \<open>C14: however the software's \<open>deq\<close> calls, their delivery and the hardware interleave, and whatever
  wraps: as long as the software reads only what was written, the hardware is never behind
  it, and never more than one ring of \<open>2 ^ bufferSz\<close> bytes ahead of it if only whole words
  of 16 bytes were read; with other counts at most 15 bytes more.\<close>

theorem circular_queue_never_overruns:
  assumes "cq_start s" "(cq_step bufferSz)\<^sup>*\<^sup>* s s'" "4 \<le> bufferSz" "bufferSz < 32"
  shows "cqread s' \<le> cqwritten s' \<and> cqwritten s' \<le> cqread s' + 2 ^ bufferSz + 15
    \<and> ((\<forall>b \<in> set (cqdeqs s'). unat b mod 16 = 0) \<longrightarrow> cqwritten s' \<le> cqread s' + 2 ^ bufferSz)"
  using cq_inv_bound [OF cq_reach_inv [OF assms(2) cq_start_inv [OF assms(1)] assms(3,4)]]
  by (simp add: whole_words_def)

theorem circular_queue_never_overruns_witness:
  "\<exists>s'. (cq_step 4)\<^sup>*\<^sup>* cq0 s' \<and> cqwritten s' = 16 \<and> cqdeqs s' = [16] \<and> cqwritten s' \<le> cqread s' + 2 ^ 4"
  using circular_queue_never_overruns [OF cq0_start] cq0_run by fastforce



text \<open>C17: however the libraries are asked for their instances, every call returns; each constructor runs
  once, at the first call, with the port made before it, so that the device gets exactly their
  register writes in the order of the first calls; later calls change nothing.\<close>

theorem instances_made_once:
  assumes "userWriteQ d = []" "dev_live d"
  shows "\<exists>s. get_instances dev_read dev_write (buffer_fill u) cs (process_start d) = Some s
    \<and> dev_written (pdev s) = dev_written d @ concat (map ctor_writes (first_calls {} cs))
    \<and> (\<forall>c. c \<in> set cs \<longrightarrow> present c s)
    \<and> (\<forall>cs'. set cs' \<subseteq> set cs \<longrightarrow> get_instances dev_read dev_write (buffer_fill u) cs' s = Some s)
    \<and> (cs \<noteq> [] \<longrightarrow> pcie_good (the (bdbm_inst s), pdev s))"
proof -
  have ok: "process_ok (process_start d)" using assms by (simp add: process_ok_def process_start_def)
  have none: "\<not> present c (process_start d)" for c by (cases c) (simp_all add: process_start_def)
  obtain s where s: "get_instances dev_read dev_write (buffer_fill u) cs (process_start d) = Some s" "process_ok s"
    "\<forall>c \<in> set cs. present c s"
    "dev_written (pdev s) = dev_written (pdev (process_start d)) @ concat (map ctor_writes (first_calls {} cs))"
    using get_instances_run [OF ok, of "{}" u cs] none by auto
  have again: "get_instances dev_read dev_write (buffer_fill u) cs' s = Some s" if "set cs' \<subseteq> set cs" for cs'
    using that s(3) by (intro get_instances_again [OF s(2)]) auto
  have "pcie_good (the (bdbm_inst s), pdev s)" if cs: "cs \<noteq> []"
  proof -
    have "present (hd cs) s" using s(3) cs by simp
    then have "bdbm_inst s \<noteq> None" using s(2) by (cases "hd cs") (auto simp: process_ok_def split: option.splits)
    then show ?thesis using s(2) by (auto simp: process_ok_def)
  qed
  then show ?thesis using s again by (auto simp: process_start_def)
qed

theorem instances_made_once_witness:
  "\<exists>s. get_instances dev_read dev_write (buffer_fill (\<lambda>_ u. u))
      [CircularQueue, Splitter, CircularQueue, Pcie, HostDMA, Splitter] (process_start (idle_dev (\<lambda>_. 1))) = Some s
    \<and> dev_written (pdev s) = [(64, 0), (64, 0), (68, 0)] \<and> present HostDMA s"
  using instances_made_once [OF idle_dev_live(1,2), of "\<lambda>_ u. u"
      "[CircularQueue, Splitter, CircularQueue, Pcie, HostDMA, Splitter]"]
  by (auto simp: dev_written_def idle_dev_def)

section \<open>The tools\<close>

text \<open>A machine with two PCI devices, the second of them the board; user 1000, setuid root.\<close>

definition board :: string where
  "board = ''0000:01:00.0''"

definition board_files :: "string \<Rightarrow> string option" where
  "board_files = map_of
     [(pci_path board ''device'', ''0x7028'' @ [CHR 0x0A]), (pci_path board ''vendor'', ''0x10ee'' @ [CHR 0x0A]),
      (pci_path board ''subsystem_device'', ''0x0007'' @ [CHR 0x0A]), (conf_path board, ''abcdef'')]"

definition board_os :: "(string \<Rightarrow> string option) \<Rightarrow> (nat \<Rightarrow> nat) \<Rightarrow> os" where
  "board_os fs addrs = \<lparr>files = fs, cfiles = [], syslog = [], nopens = 0, refuse = (\<lambda>_. False), addr_of = addrs,
     bufsz = 4096, junk = [], junk_byte = CHR 0x00, heap_slack = 23, pci_dir = Some [''0000:00:00.0'', board],
     saved_ids = True, uid_r = 1000, uid_e = 0, uid_s = 0, g_ruid = 0, g_euid = 0\<rparr>"

lemma hex_lines:
  "strtol16 (''0x7028'' @ [CHR 0x0A]) = 0x7028" "strtol16 (''0x10ee'' @ [CHR 0x0A]) = 0x10ee"
  "strtol16 (''0x0007'' @ [CHR 0x0A]) = 7"
  by (simp_all add: strtol16_def c_isspace_def hex_digit_def Let_def of_char_def)

lemma board_value:
  assumes "fs (pci_path board f) = Some l" "l \<noteq> []" "take 127 (line_of l) = l"
    "strtol16 l = v" "0 \<le> v" "v < 2 ^ 31"
  shows "attr_value (board_os fs a) board f = v"
proof -
  have "sint (word_of_int v :: u32) = v" using assms(5,6) by (simp add: sint_word_ariths signed_of_int signed_take_bit_int_eq_self)
  then show ?thesis using assms(1-4) by (simp add: attr_value_def attr_line_def board_os_def)
qed

lemma board_found:
  assumes "fs (pci_path board ''device'') = Some (''0x7028'' @ [CHR 0x0A])"
    "fs (pci_path board ''vendor'') = Some (''0x10ee'' @ [CHR 0x0A])"
    "fs (pci_path board ''subsystem_device'') = Some (''0x0007'' @ [CHR 0x0A])"
    "fs (pci_path ''0000:00:00.0'' ''device'') = None"
  shows "find (is_xilinx (board_os fs a)) [''0000:00:00.0'', board] = Some board"
proof -
  have "is_xilinx (board_os fs a) board"
    using board_value [of fs "''device''" _ "0x7028" a, OF assms(1) _ _ hex_lines(1)]
      board_value [of fs "''vendor''" _ "0x10ee" a, OF assms(2) _ _ hex_lines(2)]
      board_value [of fs "''subsystem_device''" _ 7 a, OF assms(3) _ _ hex_lines(3)]
    by (simp add: is_xilinx_def)
  moreover have "\<not> is_xilinx (board_os fs a) ''0000:00:00.0''"
    using assms(4) by (simp add: is_xilinx_def attr_value_def attr_line_def board_os_def)
  ultimately show ?thesis by simp
qed

lemma pci_path_facts:
  "pci_path d f = pci_path d g \<longleftrightarrow> f = g" "pci_path ''0000:00:00.0'' f \<noteq> pci_path board g" "sysfs (pci_path d f)"
  by (simp_all add: pci_path_def board_def sysfs_def)

lemma board_files_at:
  "board_files (pci_path board ''device'') = Some (''0x7028'' @ [CHR 0x0A])"
  "board_files (pci_path board ''vendor'') = Some (''0x10ee'' @ [CHR 0x0A])"
  "board_files (pci_path board ''subsystem_device'') = Some (''0x0007'' @ [CHR 0x0A])"
  "board_files (pci_path ''0000:00:00.0'' ''device'') = None"
  "board_files (conf_path board) = Some ''abcdef''" "\<not> sysfs p \<Longrightarrow> board_files p = None"
  using pci_path_facts(3)
  by (auto simp: board_files_def conf_path_def pci_path_facts(1,2) pci_path_facts(2) [symmetric])

lemma board_machine: "manager_machine [''0000:00:00.0'', board] (board_os fs (\<lambda>i. i))"
  by (simp add: manager_machine_def board_os_def board_def)

text \<open>The search returns the first entry of the bus whose three attributes name the board, with one
  byte of uninitialised memory behind the name, and changes no file.\<close>

theorem device_found_first:
  assumes "\<forall>n. \<not> refuse s n" "pci_dir s = Some ns" "\<forall>d\<in>set ns. length d \<le> 80"
  shows "\<exists>s'. find_pcie_device s = Done (map_option (\<lambda>n. n @ [junk_byte s]) (find (is_xilinx s) ns)) s'
    \<and> files s' = files s \<and> syslog s' = syslog s"
  using find_pcie_device_first [OF assms] only_read_env(4,5) by blast

theorem device_found_first_witness:
  "\<exists>s'. find_pcie_device (board_os board_files (\<lambda>i. i)) = Done (Some (board @ [CHR 0x00])) s'"
  using device_found_first [of "board_os board_files (\<lambda>i. i)" "[''0000:00:00.0'', board]"]
    board_found [OF board_files_at(1-4), of "\<lambda>i. i"]
  by (auto simp: board_os_def board_def)

text \<open>C23: the rescan tool writes its second line to the stream it has closed. Only if the memory of the
  stream is used again for the next one are the device removed, the bus scanned and the
  command register written, in this order; otherwise the behaviour is undefined, as it is
  when the byte behind the name is not 0.\<close>

theorem rescan_depends_on_reuse:
  assumes "CHR 0x00 \<notin> set n" "length n \<le> 80" "2 \<le> bufsz s" "\<forall>i<3. \<not> refuse s (nopens s + i)"
    and "addr_of s (nopens s) \<notin> fst ` set (cfiles s)" "addr_of s (nopens s + 2) \<notin> fst ` set (cfiles s)"
    and "nothing_pending s"
  shows "(addr_of s (nopens s + 1) = addr_of s (nopens s) \<longrightarrow>
      (\<exists>s'. rescan_pcie_device (n @ [CHR 0x00]) s = Done True s'
        \<and> syslog (flush_all s') = syslog s @ map (Pair (uid_e s))
            [SysWrite (remove_path n) 0 one_line, SysWrite scan_path 0 one_line,
             SysWrite (config_path n) 4 [CHR 0x07, CHR 0x00]]))
    \<and> (addr_of s (nopens s + 1) \<noteq> addr_of s (nopens s) \<longrightarrow> rescan_pcie_device (n @ [CHR 0x00]) s = Undefined)
    \<and> (\<forall>b. b \<noteq> CHR 0x00 \<longrightarrow> rescan_pcie_device (n @ [b]) s = Undefined)"
proof (intro conjI impI allI)
  have "\<not> refuse s (nopens s)" "\<not> refuse s (nopens s + 1)"
    using assms(4) [rule_format, of 0] assms(4) [rule_format, of 1] by simp_all
  then show "rescan_pcie_device (n @ [CHR 0x00]) s = Undefined" if "addr_of s (nopens s + 1) \<noteq> addr_of s (nopens s)"
    by (rule rescan_closed_stream [OF assms(1-3) _ _ assms(5) that])
  show "rescan_pcie_device (n @ [b]) s = Undefined" if "b \<noteq> CHR 0x00" for b
    using c_string_copy [OF assms(1)] that by (simp add: rescan_pcie_device_def)
qed (rule rescan_reused_stream [OF assms(1-5) _ assms(6,7)])

theorem rescan_depends_on_reuse_witness:
  "(\<exists>s'. rescan_pcie_device (board @ [CHR 0x00]) (board_os board_files (\<lambda>_. 0)) = Done True s'
      \<and> length (syslog (flush_all s')) = 3)
    \<and> rescan_pcie_device (board @ [CHR 0x00]) (board_os board_files (\<lambda>i. i)) = Undefined"
proof
  have start: "CHR 0x00 \<notin> set board" "length board \<le> 80" "2 \<le> bufsz (board_os board_files a)"
    "\<forall>i<3. \<not> refuse (board_os board_files a) (nopens (board_os board_files a) + i)"
    "x \<notin> fst ` set (cfiles (board_os board_files a))" "nothing_pending (board_os board_files a)" for a x
    by (simp_all add: board_os_def board_def nothing_pending_def)
  note use = rescan_depends_on_reuse [OF start(1-4) start(5,5,6)]
  show "\<exists>s'. rescan_pcie_device (board @ [CHR 0x00]) (board_os board_files (\<lambda>_. 0)) = Done True s'
      \<and> length (syslog (flush_all s')) = 3"
  proof -
    let ?s = "board_os board_files (\<lambda>_. 0)"
    have "addr_of ?s (nopens ?s + 1) = addr_of ?s (nopens ?s)" "syslog ?s = []" by (simp_all add: board_os_def)
    with use [of "\<lambda>_. 0", THEN conjunct1, THEN mp] show ?thesis by fastforce
  qed
  show "rescan_pcie_device (board @ [CHR 0x00]) (board_os board_files (\<lambda>i. i)) = Undefined"
    by (rule use [THEN conjunct2, THEN conjunct1, THEN mp]) (simp add: board_os_def)
qed

text \<open>C24: without the reboot flag the manager writes the saved configuration over that of the device
  and returns 0, whatever the size of the stream buffers.\<close>

theorem manager_restores_config:
  assumes "manager_machine ns s" "find (is_xilinx s) ns = Some n" "\<not> reboot_asked argv"
    and "files s flag_path = None" "files s (conf_path n) = Some old" "files s backup_path = Some c"
  shows "\<exists>s'. run_tool (manager_main argv) s = Exit 0 s'
    \<and> files s' = (files s)(conf_path n \<mapsto> overwrite old 0 c)"
  by (rule manager_restores [OF assms])

theorem manager_restores_config_witness:
  "\<exists>s'. run_tool (manager_main [''manager'']) (board_os (board_files(backup_path \<mapsto> ''uvw'')) (\<lambda>i. i)) = Exit 0 s'
    \<and> files s' (conf_path board) = Some ''uvwdef''"
proof -
  let ?fs = "board_files(backup_path \<mapsto> ''uvw'')"
  have b: "backup_path \<noteq> pci_path d f" for d f using pci_path_facts(3) manager_paths(3) by metis
  have f: "?fs (pci_path d g) = board_files (pci_path d g)" for d g using b [of d g] by (simp add: fun_upd_apply)
  have "find (is_xilinx (board_os ?fs (\<lambda>i. i))) [''0000:00:00.0'', board] = Some board"
    by (rule board_found) (simp_all only: f board_files_at)
  then have "\<exists>s'. run_tool (manager_main [''manager'']) (board_os ?fs (\<lambda>i. i)) = Exit 0 s'
      \<and> files s' = ?fs(conf_path board \<mapsto> overwrite ''abcdef'' 0 ''uvw'')"
    using manager_restores_config [OF board_machine, of ?fs board "[''manager'']" "''abcdef''" "''uvw''"]
      board_files_at(5,6) manager_paths(4,5) conf_path_facts(2)
    by (simp add: board_os_def reboot_asked_def del: overwrite_def)
  then show ?thesis by (auto simp: overwrite_def)
qed

text \<open>C25: after a reboot the manager leaves the device's configuration in the backup file, clears the
  flag and leaves the device as it was, although it reads the backup before that is complete.\<close>

theorem manager_saves_config:
  assumes "manager_machine ns s" "find (is_xilinx s) ns = Some n" "\<not> reboot_asked argv"
    and "files s flag_path \<noteq> None" "files s (conf_path n) = Some c"
  shows "\<exists>s'. run_tool (manager_main argv) s = Exit 0 s'
    \<and> files s' = (files s)(backup_path \<mapsto> c, flag_path := None)"
  by (rule manager_saves [OF assms])

theorem manager_saves_config_witness:
  "\<exists>s'. run_tool (manager_main [''manager'']) (board_os (board_files(flag_path \<mapsto> ''1'')) (\<lambda>i. i)) = Exit 0 s'
    \<and> files s' backup_path = Some ''abcdef'' \<and> files s' flag_path = None"
proof -
  let ?fs = "board_files(flag_path \<mapsto> ''1'')"
  have b: "flag_path \<noteq> pci_path d f" for d f using pci_path_facts(3) manager_paths(4) by metis
  have f: "?fs (pci_path d g) = board_files (pci_path d g)" for d g using b [of d g] by (simp add: fun_upd_apply)
  have fd: "find (is_xilinx (board_os ?fs (\<lambda>i. i))) [''0000:00:00.0'', board] = Some board"
    by (rule board_found) (simp_all only: f board_files_at)
  have "\<exists>s'. run_tool (manager_main [''manager'']) (board_os ?fs (\<lambda>i. i)) = Exit 0 s'
      \<and> files s' = (files (board_os ?fs (\<lambda>i. i)))(backup_path \<mapsto> ''abcdef'', flag_path := None)"
    by (rule manager_saves_config [OF board_machine fd])
      (use board_files_at(5) conf_path_facts(3) [of board] in \<open>simp_all add: board_os_def reboot_asked_def\<close>)
  then show ?thesis using manager_paths(5) by auto
qed

text \<open>Asked to reboot, the manager sets the flag and reboots, without a device and, against its own
  description, also with a device whose configuration is saved.\<close>

theorem manager_always_reboots:
  assumes "manager_machine ns s" "reboot_asked argv" "uid_e s = 0" "1 \<le> bufsz s"
    and "find (is_xilinx s) ns = None
      \<or> files s flag_path = None \<and> files s backup_path \<noteq> None
        \<and> files s (conf_path (the (find (is_xilinx s) ns))) \<noteq> None"
  shows "\<exists>s'. run_tool (manager_main argv) s = Rebooted s' \<and> files s' flag_path = Some ''1''"
proof (cases "find (is_xilinx s) ns")
  case None
  from manager_reboots_without_device [OF assms(1-4) this] show ?thesis by auto
next
  case (Some n)
  then obtain old c where "files s flag_path = None" "files s (conf_path n) = Some old" "files s backup_path = Some c"
    using assms(5) by auto
  from manager_reboots_with_device [OF assms(1-4) Some this] show ?thesis .
qed

theorem manager_always_reboots_witness:
  "\<exists>s'. run_tool (manager_main [''manager'', ''r'']) (board_os (\<lambda>_. None) (\<lambda>i. i)) = Rebooted s'
    \<and> files s' flag_path = Some ''1''"
proof -
  have "find (is_xilinx (board_os (\<lambda>_. None) (\<lambda>i. i))) [''0000:00:00.0'', board] = None"
    by (simp add: is_xilinx_def attr_value_def attr_line_def board_os_def)
  then show ?thesis
    using manager_always_reboots [OF board_machine [of "\<lambda>_. None"], of "[''manager'', ''r'']"]
    by (auto simp: board_os_def reboot_asked_def)
qed

section \<open>The driver\<close>

text \<open>A kernel that gives the pages 100, 101, ... and maps page \<open>p\<close> to the bus address \<open>4096 p\<close>.\<close>

definition kernel0 :: "nat \<Rightarrow> kernel" where
  "kernel0 avail = \<lparr>enable_rc = 0, bar_is_mem = True, regions_rc = 0, iomap_ok = True, kmalloc_ok = True,
     page_given = (\<lambda>i. if i < avail then Some (100 + i) else None),
     bus_addr = (\<lambda>p. of_nat (4096 * p)), map_failed = (\<lambda>_. False)\<rparr>"

definition drv0 :: drv where
  "drv0 = drv_start (\<lambda>_. 0)"

lemma kernel0_facts: "probe_ok (kernel0 n)" "m \<le> n \<Longrightarrow> m \<le> 256 \<Longrightarrow> pages_given (kernel0 n) m [100 ..< 100 + m]"
proof -
  have "unat (of_nat (4096 * (100 + i)) :: u64) = 4096 * (100 + i)" if "i < 256" for i
    using that by (intro unat_of_nat_small) simp
  then have "(of_nat (4096 * (100 + i)) :: u64) \<noteq> 0 \<and> 4096 dvd unat (of_nat (4096 * (100 + i)) :: u64)"
    if "i < 256" for i
    using that by (metis add_is_0 dvd_triv_left mult_is_0 unsigned_0 zero_neq_numeral)
  then show "m \<le> n \<Longrightarrow> m \<le> 256 \<Longrightarrow> pages_given (kernel0 n) m [100 ..< 100 + m]"
    unfolding pages_given_def kernel0_def by (auto simp del: of_nat_mult of_nat_add)
qed (simp add: probe_ok_def kernel0_def)

text \<open>C27: a probe that fails leaves nothing enabled, requested or mapped.\<close>

theorem probe_failure_is_clean:
  assumes "pcie_probe k s = (rc, s')" "rc \<noteq> 0" "\<not> dev_enabled s" "\<not> regions_held s"
  shows "s' = s"
  by (rule probe_fails_clean [OF assms])

theorem probe_failure_is_clean_witness:
  "snd (pcie_probe ((kernel0 256)\<lparr>iomap_ok := False\<rparr>) drv0) = drv0"
  using probe_failure_is_clean [of "(kernel0 256)\<lparr>iomap_ok := False\<rparr>" drv0 1]
  by (cases "pcie_probe ((kernel0 256)\<lparr>iomap_ok := False\<rparr>) drv0")
    (auto simp: pcie_probe_def kernel0_def probe_fail_release_region_def probe_fail_def probe_fail_enable_def
      drv0_def drv_start_def)

text \<open>C28: a probe that gets everything returns 0, holds 256 pages, and has written the bus address of
  page \<open>i\<close> to the word \<open>32 + 4 i\<close> of BAR 0, leaving the words before untouched.\<close>

theorem probe_writes_dma_table:
  assumes "probe_ok k" "pages_given k 256 ps"
  shows "\<exists>s'. pcie_probe k s = (0, s') \<and> dma_pages_count s' = 256 \<and> dma_array s' = Some ps
    \<and> (\<forall>i<256. load32 (bar0 s') (32 + 4 * i) = ucast (bus_addr k (ps ! i)))
    \<and> (\<forall>a<32. bar0 s' a = bar0 s a)"
proof -
  have "length ps = 256" using assms(2) by (simp add: pages_given_def)
  then show ?thesis
    using probe_holds [OF assms, of s] dma_table_entry(1) [of _ ps k 0 "bar0 s"]
      dma_table_below [of _ 0 k ps "bar0 s"]
    by (simp add: held_def DMA_ADDR_OFFSET_def)
qed

theorem probe_writes_dma_table_witness:
  "\<exists>s'. pcie_probe (kernel0 256) drv0 = (0, s') \<and> load32 (bar0 s') 36 = 413696"
proof -
  obtain s' where s': "pcie_probe (kernel0 256) drv0 = (0, s')"
    "\<forall>i<256. load32 (bar0 s') (32 + 4 * i) = ucast (bus_addr (kernel0 256) ([100 ..< 356] ! i))"
    using probe_writes_dma_table [OF kernel0_facts(1) kernel0_facts(2) [of 256 256], of drv0]
    by (auto simp del: upt_rec_numeral)
  have "load32 (bar0 s') 36 = 413696"
    using s'(2) [rule_format, of 1] by (simp add: kernel0_def del: upt_rec_numeral)
  then show ?thesis using s'(1) by blast
qed

text \<open>C29: removal gives back all pages, the mapping of BAR 0, the regions and the device, but none of the
  256 DMA mappings: the bus address it unmaps is one byte of BAR 0, which is 0.\<close>

theorem removal_leaks_dma_mappings:
  assumes "probe_ok k" "pages_given k 256 ps" "0 \<notin> set (live_maps s)" "set ps \<inter> set (live_pages s) = {}"
  shows "\<exists>s1 s2. pcie_probe k s = (0, s1) \<and> pcie_remove s1 = Some s2 \<and> live_pages s2 = live_pages s
    \<and> \<not> dev_enabled s2 \<and> \<not> regions_held s2 \<and> \<not> bar_mapped s2 \<and> \<not> bus_master s2
    \<and> live_maps s2 = rev (map (bus_addr k) ps) @ live_maps s"
  using probe_holds [OF assms(1,2), of s] remove_frees [OF assms(2-4)]
  by (simp add: released_def held_def)

theorem removal_leaks_dma_mappings_witness:
  "\<exists>s1 s2. pcie_probe (kernel0 256) drv0 = (0, s1) \<and> pcie_remove s1 = Some s2 \<and> live_pages s2 = []
    \<and> length (live_maps s2) = 256"
  using removal_leaks_dma_mappings [OF kernel0_facts(1) kernel0_facts(2) [of 256 256], of drv0]
  by (force simp: drv0_def drv_start_def simp del: upt_rec_numeral)

text \<open>C30: when only \<open>j < 256\<close> pages can be had the probe succeeds all the same. On the first probe
  their number is not recorded and removal frees none of them; on a probe after a
  complete one removal reads entries that were never written.\<close>

theorem partial_probe_leaks_or_faults:
  assumes "probe_ok k" "pages_given k j ps" "j < 256" "page_given k j = None"
  shows "\<exists>s1. pcie_probe k s = (0, s1)
    \<and> (dma_pages_count s = 0 \<longrightarrow>
        (\<exists>s2. pcie_remove s1 = Some s2 \<and> live_pages s2 = rev ps @ live_pages s))
    \<and> (dma_pages_count s = 256 \<longrightarrow> pcie_remove s1 = None)"
  using probe_partial [OF assms, of s] remove_nothing [of s k ps] reprobe_faults [OF assms(2,3), of s]
  by (auto simp: released_def held_def)

theorem partial_probe_leaks_or_faults_witness:
  "\<exists>s1 s2. pcie_probe (kernel0 3) drv0 = (0, s1) \<and> pcie_remove s1 = Some s2 \<and> length (live_pages s2) = 3"
  using partial_probe_leaks_or_faults [OF kernel0_facts(1) kernel0_facts(2) [of 3 3], of drv0]
  by (force simp: drv0_def drv_start_def kernel0_def)

text \<open>C31: the library's two calls of \<open>mmap\<close> get the registers and, at the start of the DMA buffer, the
  driver's 256 pages in order; the rest of the 4 MB the library asks for has no page, and
  a mapping of exactly 1 MB lacks the last page.\<close>

theorem mmap_gives_pages_in_order:
  assumes "length pages = 256"
  shows "bdbm_mmap bar0_addr pages \<lparr>vm_start = a, vm_end = a + of_nat BAR0_SIZE, vm_pgoff = 0\<rparr> =
      [Remap a (drop_bit 12 bar0_addr) (of_nat BAR0_SIZE)]
    \<and> bdbm_mmap bar0_addr pages \<lparr>vm_start = a, vm_end = a + of_nat DMA_BUFFER_SIZE, vm_pgoff = 256\<rparr> =
      map (\<lambda>i. Insert (a + 4096 * of_nat i) (pages ! i)) [0 ..< 256]
    \<and> bdbm_mmap bar0_addr pages \<lparr>vm_start = a, vm_end = a + 1024 * 1024, vm_pgoff = 256\<rparr> =
      map (\<lambda>i. Insert (a + 4096 * of_nat i) (pages ! i)) [0 ..< 255]"
proof (intro conjI)
  show "bdbm_mmap bar0_addr pages \<lparr>vm_start = a, vm_end = a + of_nat BAR0_SIZE, vm_pgoff = 0\<rparr> =
      [Remap a (drop_bit 12 bar0_addr) (of_nat BAR0_SIZE)]"
    by (subst mmap_registers) (simp_all add: BAR0_SIZE_def)
  show "bdbm_mmap bar0_addr pages \<lparr>vm_start = a, vm_end = a + of_nat DMA_BUFFER_SIZE, vm_pgoff = 256\<rparr> =
      map (\<lambda>i. Insert (a + 4096 * of_nat i) (pages ! i)) [0 ..< 256]"
    by (subst mmap_buffer) (simp_all add: DMA_BUFFER_SIZE_def assms del: upt_rec_numeral)
  show "bdbm_mmap bar0_addr pages \<lparr>vm_start = a, vm_end = a + 1024 * 1024, vm_pgoff = 256\<rparr> =
      map (\<lambda>i. Insert (a + 4096 * of_nat i) (pages ! i)) [0 ..< 255]"
    by (subst mmap_buffer) (simp_all add: assms del: upt_rec_numeral)
qed

theorem mmap_gives_pages_in_order_witness:
  "Insert 0x7f0000001000 101 \<in> set (bdbm_mmap 0xf0000000 [100 ..< 356]
     \<lparr>vm_start = 0x7f0000000000, vm_end = 0x7f0000000000 + of_nat DMA_BUFFER_SIZE, vm_pgoff = 256\<rparr>)"
proof -
  have "length [100 ..< 356] = (256 :: nat)" by (simp del: upt_rec_numeral)
  from mmap_gives_pages_in_order [OF this, THEN conjunct2, THEN conjunct1] show ?thesis
    by (simp del: upt_rec_numeral) (auto intro!: image_eqI [where x = 1] simp del: upt_rec_numeral)
qed

text \<open>A mapping that starts inside the DMA buffer gets no page: every address the driver inserts a
  page at lies outside it, because the offset has wrapped at 32 bits.\<close>

theorem mmap_inside_buffer_is_empty:
  assumes "256 < unat (vm_pgoff vm)" "unat (vm_pgoff vm) < 512" "unat (vm_end vm - vm_start vm) \<le> 2 ^ 31"
    and "length pages \<le> 256" "Insert a p \<in> set (bdbm_mmap bar0_addr pages vm)"
  shows "vm_end vm - vm_start vm \<le> a - vm_start vm"
  by (rule mmap_inside [OF assms])

theorem mmap_inside_buffer_is_empty_witness:
  "bdbm_mmap 0xf0000000 [100, 101] \<lparr>vm_start = 0, vm_end = 0x4000, vm_pgoff = 257\<rparr> = [Insert 0x100000000 101]
    \<and> (0x4000 :: u64) \<le> 0x100000000 - 0"
proof -
  let ?vm = "\<lparr>vm_start = 0, vm_end = 0x4000, vm_pgoff = 257\<rparr>"
  have m: "bdbm_mmap 0xf0000000 [100, 101] ?vm = [Insert 0x100000000 101]"
    by (simp add: bdbm_mmap_def insert_pages_def Let_def push_bit_eq_mult)
  then show ?thesis
    using mmap_inside_buffer_is_empty [of ?vm "[100, 101]" "0x100000000" 101 "0xf0000000"] by simp
qed

text \<open>C32: as long as fewer than \<open>2 ^ 32\<close> interrupts have arrived, \<open>poll\<close> answers as a flag that an
  interrupt sets and a reported poll clears.\<close>

theorem poll_reports_interrupts:
  assumes "bdbm_irq_ack q \<le> bdbm_irq_count q" "unat (bdbm_irq_count q) + irqs_in es < 2 ^ 32"
  shows "fst (run_irqs es q) = poll_answers (bdbm_irq_ack q < bdbm_irq_count q) es"
  by (rule polls_report [OF assms])

theorem poll_reports_interrupts_witness:
  "fst (run_irqs [Irq, Irq, Poll, Poll, Irq, Poll] \<lparr>bdbm_irq_count = 0, bdbm_irq_ack = 0\<rparr>) = [True, False, True]"
  using poll_reports_interrupts [of "\<lparr>bdbm_irq_count = 0, bdbm_irq_ack = 0\<rparr>" "[Irq, Irq, Poll, Poll, Irq, Poll]"]
  by (simp add: irqs_in_def)

text \<open>When the character device cannot be made, loading fails and the PCI driver stays registered.\<close>

theorem failed_load_stays_registered:
  assumes "alloc_rc < 0 \<or> add_rc \<noteq> 0"
  shows "\<exists>rc m. pcie_init 0 alloc_rc add_rc module_start = (rc, m) \<and> rc \<noteq> 0 \<and> drv_registered m
    \<and> \<not> chrdev_region m"
  by (rule init_failure [OF assms])

theorem failed_load_stays_registered_witness:
  "\<exists>rc m. pcie_init 0 0 (- 12) module_start = (rc, m) \<and> rc \<noteq> 0 \<and> drv_registered m"
  using failed_load_stays_registered [of 0 "- 12"] by auto

text \<open>\<open>waitInterrupt\<close> of the device build returns if and only if its timeout is not negative, an
  interrupt is pending or one arrives, and then every interrupt has been acknowledged. As
  the driver never requests its interrupt, a wait without a limit does not return.\<close>

theorem device_wait_needs_interrupt:
  assumes "bdbm_irq_ack q \<le> bdbm_irq_count q" "\<forall>t. unat (bdbm_irq_count q) + irq t < 2 ^ 32"
  shows "((\<exists>q'. waitInterrupt irq timeout q = Some q')
      \<longleftrightarrow> 0 \<le> timeout \<or> bdbm_irq_ack q < bdbm_irq_count q \<or> (\<exists>t. 0 < irq t))
    \<and> (\<forall>q'. waitInterrupt irq timeout q = Some q' \<longrightarrow> bdbm_irq_ack q' = bdbm_irq_count q')"
  using wait_returns_iff [OF assms] by (auto simp: acked_def)

theorem device_wait_needs_interrupt_witness:
  "waitInterrupt (\<lambda>_. 0) (- 1) \<lparr>bdbm_irq_count = 3, bdbm_irq_ack = 3\<rparr> = None
    \<and> (\<exists>q'. waitInterrupt (\<lambda>t. if t = 5 then 2 else 0) (- 1) \<lparr>bdbm_irq_count = 3, bdbm_irq_ack = 3\<rparr> = Some q')"
  using device_wait_needs_interrupt [of "\<lparr>bdbm_irq_count = 3, bdbm_irq_ack = 3\<rparr>" "\<lambda>_. 0" "- 1"]
    device_wait_needs_interrupt [of "\<lparr>bdbm_irq_count = 3, bdbm_irq_ack = 3\<rparr>" "\<lambda>t. if t = 5 then 2 else 0" "- 1"]
  by simp

text \<open>C33: on a driver whose handler is called (this one does not request the interrupt), a thread that waits for
  interrupts does exactly this, however many interrupts come at a time and however long its
  output takes, as long as fewer than \<open>2 ^ 32\<close> come: it prints as soon as it looks and one has
  come since it last returned from a wait; all that came until then share the print; with
  none it waits for ever. So no print is without an interrupt, and after every interrupt
  there is a print. The thread of the flash test then shows the first 32 words of the buffer.\<close>

theorem poll_threads_report_batches:
  assumes "acked q" "\<forall>t. unat (bdbm_irq_count q) + sum irq {..<t} < 2 ^ 32"
  shows "((\<exists>q'. bdbmPollThread n irq busy q = Some (out, q')) \<longleftrightarrow>
      length out = n \<and> reported irq busy 0 0 (map fst out) \<and> (\<forall>r \<in> set out. snd r = interruptHandler))
    \<and> ((\<exists>q'. flashManagerThread n buf irq busy q = Some (shown, q')) \<longleftrightarrow>
      length shown = n \<and> reported irq busy 0 0 (map fst shown) \<and> (\<forall>r \<in> set shown. snd r = map (buf (fst r)) [0 ..< 32]))
    \<and> (0 < irq k \<longrightarrow> (\<exists>n out q'. bdbmPollThread n irq busy q = Some (out, q') \<and> (\<exists>r \<in> set out. k < fst r)))"
  unfolding bdbmPollThread_def flashManagerThread_def
  by (intro conjI impI poll_thread_reports [OF irqs_at_start [OF assms(1)] assms(2)]
      poll_thread_reports_all [OF irqs_at_start [OF assms(1)] assms(2)]) simp_all

text \<open>Two interrupts at 2 and one at 3, while the thread prints until 7: one line for the first two, one for the third when it looks again.\<close>

theorem poll_threads_report_batches_witness:
  "\<exists>q'. bdbmPollThread 2 (\<lambda>t. if t = 2 then 2 else if t = 3 then 1 else 0) (\<lambda>_. 4) \<lparr>bdbm_irq_count = 3, bdbm_irq_ack = 3\<rparr>
    = Some ([(3, interruptHandler), (7, interruptHandler)], q')"
proof -
  let ?irq = "\<lambda>t :: nat. if t = 2 then 2 else if t = 3 then 1 else 0 :: nat"
  let ?q = "\<lparr>bdbm_irq_count = 3, bdbm_irq_ack = 3\<rparr>" and ?out = "[(3, interruptHandler), (7, interruptHandler)]"
  have "sum ?irq {..<t} \<le> 3" for t
  proof -
    have "sum ?irq {..<t} = sum ?irq ({..<t} \<inter> {2, 3})" by (intro sum.mono_neutral_right) auto
    also have "\<dots> \<le> sum ?irq {2, 3}" by (intro sum_mono2) auto
    finally show ?thesis by simp
  qed
  then have b: "\<forall>t. unat (bdbm_irq_count ?q) + sum ?irq {..<t} < 2 ^ 32"
    by (intro allI, rule le_less_trans [OF add_left_mono]) simp_all
  have "first_irq ?irq 0 2" "first_irq ?irq 3 3" by (auto simp: first_irq_def)
  then have "reported ?irq (\<lambda>_. 4) 0 0 (map fst ?out)" by (auto intro!: exI [of _ 2] exI [of _ 3])
  then show ?thesis
    using poll_threads_report_batches [OF _ b, of 2 "\<lambda>_. 4" ?out "\<lambda>_ _. ()" "[]" 0] by (simp add: acked_def)
qed

text \<open>The driver's test program, run on a device that has got the table of a probe: the magic number is
  not the one it prints beside it, the words from the eighth on are the bus addresses of the first
  24 pages, and of its three test commands none reaches the user logic, they stay in the
  configuration space; the words it prints last are those of the buffer.\<close>

theorem driver_test_shows_table:
  assumes "probe_ok k" "pages_given k 256 ps" "pcie_probe k s = (0, s')"
    and "driver_test dev_read dev_write buf (take_table (bar0 s') d) = (out, d')"
  shows "test_magic out \<noteq> TEST_MAGIC \<and> (\<forall>i<24. test_regs out ! (8 + i) = ucast (bus_addr k (ps ! i)))
    \<and> dev_written d' = dev_written d
    \<and> (configBuffer d' 1024, configBuffer d' 1025, configBuffer d' 1026) = (8, 1, 8)
    \<and> test_buffer out = map (buf d') [0 ..< 128]"
  using driver_test_device(1,4,6,7) [OF assms(4)] driver_test_table [OF assms]
  by (simp add: TEST_MAGIC_def take_table_written)

theorem driver_test_shows_table_witness:
  "\<exists>out d'. driver_test dev_read dev_write (\<lambda>_ _. 0)
      (take_table (bar0 (snd (pcie_probe (kernel0 256) drv0))) (idle_dev (\<lambda>_. 1))) = (out, d')
    \<and> test_regs out ! 9 = 413696 \<and> dev_written d' = []"
proof -
  obtain s' where s': "pcie_probe (kernel0 256) drv0 = (0, s')"
    using probe_holds [OF kernel0_facts(1) kernel0_facts(2) [of 256 256], of drv0] by (auto simp del: upt_rec_numeral)
  obtain out d' where o: "driver_test dev_read dev_write (\<lambda>_ _. 0) (take_table (bar0 s') (idle_dev (\<lambda>_. 1))) = (out, d')"
    by (rule prod.exhaust)
  from driver_test_shows_table [OF kernel0_facts(1) kernel0_facts(2) [of 256 256] s' o]
  have t: "\<forall>i<24. test_regs out ! (8 + i) = ucast (bus_addr (kernel0 256) ([100 ..< 356] ! i))" "dev_written d' = []"
    by (simp_all add: idle_dev_def dev_written_def del: upt_rec_numeral)
  have "test_regs out ! 9 = 413696"
    using t(1) [rule_format, of 1] by (simp add: kernel0_def del: upt_rec_numeral)
  then show ?thesis using o s' t(2) by auto
qed

section \<open>The example programs\<close>

text \<open>C34: over the simulation, whose user logic are its own registers, \<open>simple\<close> runs to its end and
  prints the magic word, the two registers as it wrote them and zeros; the counter of the
  other writes has grown by the 1025 it made.\<close>

theorem simple_prints_on_link:
  assumes "link_quiet w" "link_regs w = (b0, b1, n)"
  shows "\<exists>w'. simple_main (readWord_sim hw_cycle sim_rings) (userWriteWord_sim hw_cycle sim_rings)
      (userReadWord_sim hw_cycle sim_rings) Ioctl_sim w
    = Some ([0xc001d00d, 0xcafef00d, 0xdeadbeef, 0, 0, 0, 0, 0, 0, 0xdeadbeef], w')
    \<and> link_quiet w' \<and> link_regs w' = (0xcafef00d, 0xdeadbeef, n + 1025)"
  by (rule simple_on_link [OF assms])

theorem simple_prints_on_link_witness:
  "\<exists>w'. simple_main (readWord_sim hw_cycle sim_rings) (userWriteWord_sim hw_cycle sim_rings)
      (userReadWord_sim hw_cycle sim_rings) Ioctl_sim sim0
    = Some ([0xc001d00d, 0xcafef00d, 0xdeadbeef, 0, 0, 0, 0, 0, 0, 0xdeadbeef], w')
    \<and> link_regs w' = (0xcafef00d, 0xdeadbeef, 1025)"
  using simple_prints_on_link [OF sim0_quiet] by auto

text \<open>C35: on a fresh device whose user logic takes the writes, \<open>float\<close> runs to its end, finds the magic
  word, and its writes make the user logic multiply the two doubles, take the root of the
  second and rotate by the seven angles.\<close>

theorem float_program_commands:
  assumes "userWriteQ d = []" "userTaken d = []" "dev_live d"
  shows "\<exists>out s'. float_main (readWord dev_read) (userWriteWord dev_read dev_write) (userReadWord dev_read)
      (Init_Pcie dev_write d) = Some (out, s') \<and> magic out = 0xc001d00d
    \<and> multOps (fold float_put (dev_written (snd s')) float_hw_reset) = [(float_av, float_bv)]
    \<and> sqrtOps (fold float_put (dev_written (snd s')) float_hw_reset) = [float_bv]
    \<and> sincosOps (fold float_put (dev_written (snd s')) float_hw_reset)
        = [38603, 0, 4289, 8578, 12867, 17157, 21446]"
proof -
  obtain out s' where "float_main (readWord dev_read) (userWriteWord dev_read dev_write) (userReadWord dev_read)
      (Init_Pcie dev_write d) = Some (out, s')" "magic out = 0xc001d00d" and w: "dev_written (snd s') = float_writes"
    using float_on_device [OF assms] by blast
  then show ?thesis using float_hw_takes by (intro exI conjI) (assumption | simp only: w)+
qed

theorem float_program_commands_witness:
  "\<exists>out s'. float_main (readWord dev_read) (userWriteWord dev_read dev_write) (userReadWord dev_read)
      (Init_Pcie dev_write (idle_dev (\<lambda>_. 1))) = Some (out, s') \<and> magic out = 0xc001d00d
    \<and> multOps (fold float_put (dev_written (snd s')) float_hw_reset) = [(0x3fc0a3d70a3d70a4, 0x4058c9999999999a)]"
  using float_program_commands [OF idle_dev_live(1) idle_dev_taken idle_dev_live(2)]
  unfolding float_av_def float_bv_def by blast

text \<open>The conversion from fixed point reads the low 16 bits as a signed number with 14 bits of
  fraction.\<close>

theorem fixed_to_float_is_signed: "fixed_to_float_2i x = of_int (sint (ucast x :: u16)) / 2 ^ 14"
  by (rule fixed_to_float_2i_sint)

theorem fixed_to_float_is_signed_witness: "fixed_to_float_2i 0x1c000 = - 1"
  using fixed_to_float_is_signed [of "0x1c000"] by simp

text \<open>C36: the conversion to fixed point for every angle: undefined from \<open>- 2 ^ -13\<close> down and from \<open>2 ^ 32\<close> up;
  0 for the negative angles between; below 8, the range of the format, rounded down to a
  multiple of \<open>2 ^ -13\<close> in 16 bits; above, the rounded value modulo \<open>2 ^ 32\<close>.\<close>

theorem float_to_fixed_rounds_down:
  "if r \<le> - (1 / 2 ^ 13) \<or> 2 ^ 32 \<le> r then float_to_fixed_3i r = None
   else if r < 0 then float_to_fixed_3i r = Some 0
   else if r < 8 then (\<exists>w. float_to_fixed_3i r = Some w \<and> unat w < 2 ^ 16
      \<and> of_nat (unat w) / 2 ^ 13 \<le> r \<and> r < (of_nat (unat w) + 1) / 2 ^ 13)
   else float_to_fixed_3i r = Some (word_of_int \<lfloor>r * 2 ^ 13\<rfloor>)"
  using float_to_fixed_3i_fits [of r] float_to_fixed_3i_negative [of r] float_to_fixed_3i_small [of r]
    float_to_fixed_3i_large [of r] float_to_fixed_3i_floor [of r] by (auto simp: not_le not_less)

theorem float_to_fixed_rounds_down_witness:
  "(\<exists>w. float_to_fixed_3i (5 / 2) = Some w \<and> unat w < 2 ^ 16) \<and> float_to_fixed_3i (- 1) = None
    \<and> float_to_fixed_3i (- (1 / 2 ^ 14)) = Some 0"
  using float_to_fixed_rounds_down [of "5 / 2"] float_to_fixed_rounds_down [of "- 1"]
    float_to_fixed_rounds_down [of "- (1 / 2 ^ 14)"] by auto

text \<open>C37: on a fresh device \<open>sortreduce\<close> sends 4096 stripes of 8192 keys, each with 24-bit keys and one
  end marker in the middle; they fill the scratchpad exactly, and the sixteen loaders are
  given consecutive parts of it, from the first word to the last.\<close>

theorem sortreduce_fills_scratchpad:
  assumes "userWriteQ d = []" "userTaken d = []" "dev_live d"
  shows "\<exists>s'. sortreduce_setup (userWriteWord dev_read dev_write) rand (Init_Pcie dev_write d) = Some s'
    \<and> (let h = fold sr_put (dev_written (snd s')) sr_reset in
        dramWords h = concat (map (\<lambda>xs. concat (map key_words xs)) (sortreduce_stripes rand))
      \<and> length (dramWords h) = 16 * unat bufferwords
      \<and> list_all stripe_ok (sortreduce_stripes rand) \<and> length (sortreduce_stripes rand) = 4096
      \<and> srCommands h = map (\<lambda>b. (of_nat b, 2 ^ 18 * of_nat b, 2 ^ 18 * of_nat (b + 1), 1024)) [0..<16]
      \<and> srOutCommands h = [(2 ^ 22, 2 ^ 23, 16384)])"
proof -
  obtain s' where s': "sortreduce_setup (userWriteWord dev_read dev_write) rand (Init_Pcie dev_write d) = Some s'"
    and w: "dev_written (snd s') = sortreduce_writes rand"
    using sortreduce_on_device [OF assms] by blast
  have "list_all stripe_ok (sortreduce_stripes rand)" by (simp add: list_all_iff stripes_ok)
  then show ?thesis
    using s' sr_hw_takes [of rand] stripe_words_fill [of rand] stripes_count [of rand]
    by (simp add: w Let_def stripe_words_def sr_range_def [abs_def] del: upt_rec_numeral)
qed

theorem sortreduce_fills_scratchpad_witness:
  "\<exists>s'. sortreduce_setup (userWriteWord dev_read dev_write) (\<lambda>_. 5) (Init_Pcie dev_write (idle_dev (\<lambda>_. 1))) = Some s'
    \<and> length (dramWords (fold sr_put (dev_written (snd s')) sr_reset)) = 16 * unat bufferwords"
  using sortreduce_fills_scratchpad [OF idle_dev_live(1) idle_dev_taken idle_dev_live(2), of "\<lambda>_. 5"]
  unfolding Let_def by blast

text \<open>The check of \<open>streaming\<close> reports no error exactly when the 1024 words of the second page are
  the expected ones; a buffer the hardware has not written fails at every word.\<close>

theorem streaming_check_finds_errors:
  "(streaming_check m = 0 \<longleftrightarrow> (\<forall>i \<in> {0..<1024}. load32 m (4096 + 4 * i) = (if i mod 8 = 0 then 0xdeadbeef else of_nat i)))
    \<and> streaming_check (streaming_fill m) = 1024"
proof
  show "streaming_check m = 0 \<longleftrightarrow>
      (\<forall>i \<in> {0..<1024}. load32 m (4096 + 4 * i) = (if i mod 8 = 0 then 0xdeadbeef else of_nat i))"
    unfolding streaming_check_zero streaming_expected_def by (auto simp: algebra_simps)
qed (rule streaming_check_untouched)

theorem streaming_check_finds_errors_witness:
  "streaming_check (streaming_fill (\<lambda>_. 0)) = 1024 \<and> streaming_check (\<lambda>_. 0) \<noteq> 0"
proof -
  have "\<not> (\<forall>i \<in> {0..<1024}. load32 (\<lambda>_. 0) (4096 + 4 * i) = (if i mod 8 = 0 then 0xdeadbeef else of_nat i))"
    by (rule notI, drule bspec [of _ _ 0]) simp_all
  then show ?thesis
    using streaming_check_finds_errors [of "\<lambda>_. 0"] by blast
qed

text \<open>As many as 511 reads of the configuration space, however they are mixed with user accesses,
  leave the port usable: every access returns.\<close>

theorem config_reads_are_safe:
  assumes "userWriteQ d = []" "dev_live d" "list_all hostop_ok ops" "config_reads ops \<le> 511"
  shows "\<exists>xs s. run_host (readWord dev_read) (userWriteWord dev_read dev_write) (userReadWord dev_read) ops
    (Init_Pcie dev_write d) = Some (xs, s)"
  by (rule device_config_reads [OF assms])

theorem config_reads_are_safe_witness:
  "\<exists>xs s. run_host (readWord dev_read) (userWriteWord dev_read dev_write) (userReadWord dev_read)
    [Config 0, User (UserWrite 4 7), Config 32, User (UserRead 4)] (Init_Pcie dev_write (idle_dev (\<lambda>_. 1)))
    = Some (xs, s)"
  by (rule config_reads_are_safe [OF idle_dev_live(1,2)]) (simp_all add: user_word_def CONFIG_BUFFER_SIZE_def)

text \<open>C39: \<open>sortreduce\<close> on the user logic of its own \<^verbatim>\<open>HwMain.bsv\<close>, which starts with all counts at 0 and resets them
  at each command: if after the sixteenth command the sorter goes on to finish at least 256
  merged stripes (and fewer than \<open>2 ^ 32\<close>), the last of them within \<open>2 ^ 32\<close> clock cycles, the
  loops that wait terminate and the program returns; the counts it prints rise to at least
  256, with elapsed times that are not 0. What the sorter does before is left open.\<close>

theorem sortreduce_terminates:
  assumes "sr_device sorter clocks d" "finite {n. fst (sorter sr_all_commands n)}"
    and "256 \<le> card {n. fst (sorter sr_all_commands n)}" "card {n. fst (sorter sr_all_commands n)} < 2 ^ 32"
    and "\<forall>n. fst (sorter sr_all_commands n) \<longrightarrow> 0 < n \<and> n < 2 ^ 32"
  shows "\<exists>out s'. sortreduce_main (userWriteWord dev_read dev_write) (userReadWord dev_read) rand
      (Init_Pcie dev_write d) = Some (out, s') \<and> dev_written (snd s') = sortreduce_writes rand
    \<and> out \<noteq> [] \<and> sorted_wrt (<) (map snd out) \<and> 256 \<le> snd (last out) \<and> list_all (\<lambda>(e, g). e \<noteq> 0) out"
proof -
  have "256 = stripecnt" by (simp add: stripecnt_def buffermb_def outstripemb_def)
  then obtain out g s' where r: "sortreduce_main (userWriteWord dev_read dev_write) (userReadWord dev_read) rand
      (Init_Pcie dev_write d) = Some (out, s')" "dev_written (snd s') = sortreduce_writes rand"
    and g: "rising out g" "256 \<le> g"
    using sortreduce_on_its_logic [OF assms, of rand] by metis
  then have "out \<noteq> []" "snd (last out) = g" by (auto simp: rising_def split: if_splits)
  then show ?thesis using r g by (auto simp: rising_def list_all_iff split: if_splits)
qed

text \<open>A sorter that finishes a stripe every 4 cycles from the 1000th on, 256 of them, once it has its
  sixteen commands, and an odd one before; on a device that is slow at times.\<close>

definition sorter0 :: sorter where
  "sorter0 cs n = ((if length cs = 16 then n \<in> (\<lambda>k. 1000 + 4 * k) ` {..<256} else n = 7), n = 9)"

definition sorting_dev :: "sr_logic pcidev" where
  "sorting_dev = \<lparr>dtick = 0, userWriteQ = [], userTaken = [], userWriteEmit = 7, userReadEmit = 9,
     configBuffer = (\<lambda>_. 0), debugCode = 0, user_takes = (\<lambda>t. t mod 3 + 1), user = sr_logic_reset,
     user_put = sr_getCmd, user_run = (\<lambda>t. sr_cycle sorter0 ^^ (t mod 5 + 20)), user_get = sr_readStat\<rparr>"

theorem sortreduce_terminates_witness:
  "\<exists>out s'. sortreduce_main (userWriteWord dev_read dev_write) (userReadWord dev_read) (\<lambda>_. 5)
      (Init_Pcie dev_write sorting_dev) = Some (out, s') \<and> 256 \<le> snd (last out)"
proof -
  have M: "{n. fst (sorter0 sr_all_commands n)} = (\<lambda>k. 1000 + 4 * k) ` {..<256}"
    by (simp add: sorter0_def sr_all_commands_def del: upt_rec_numeral)
  have d: "sr_device sorter0 (\<lambda>t. t mod 5 + 20) sorting_dev"
    by (simp add: sr_device_def sorting_dev_def dev_live_def)
  have c: "card {n. fst (sorter0 sr_all_commands n)} = 256"
    unfolding M by (subst card_image) (auto intro: inj_onI)
  have "\<forall>n. fst (sorter0 sr_all_commands n) \<longrightarrow> 0 < n \<and> n < 2 ^ 32"
    using M by (auto simp: set_eq_iff)
  from sortreduce_terminates [OF d _ _ _ this, of "\<lambda>_. 5"] c M show ?thesis by auto
qed

text \<open>A device whose user logic counts up, with the pages done above 12 million.\<close>

definition count_up_dev :: "nat pcidev" where
  "count_up_dev = \<lparr>dtick = 0, userWriteQ = [], userTaken = [], userWriteEmit = 7, userReadEmit = 9,
     configBuffer = (\<lambda>_. 0), debugCode = 0, user_takes = (\<lambda>t. t mod 3 + 1), user = 0,
     user_put = (\<lambda>_ u. u), user_run = (\<lambda>t u. t), user_get = (\<lambda>u _. if 12000000 < u then 4 else 0)\<rparr>"

text \<open>C40: \<open>streaming\<close> never returns when the hardware needs long for its pages: if fewer than four are
  done during the first 10400001 accesses of the host, the debug code that the loop reads every
  10000 polls has used up the window of the reads, although the hardware may finish later.\<close>

theorem streaming_debug_reads_hang:
  assumes "userWriteQ d = []" "dev_busy busy (dtick d + 10400001) d" "dma_keeps busy upd"
  shows "streaming_main (readWord dev_read) (userWriteWord dev_read dev_write) (userReadWord dev_read)
    buf (pcie_dma_upd upd) (Init_Pcie dev_write d) = None"
  by (rule streaming_never_ends [OF assms(1,2) _ assms(3)]) simp

lemma count_up_dev_facts:
  "userWriteQ count_up_dev = []" "dev_busy (\<lambda>u. u \<le> 12000000) (dtick count_up_dev + 10400001) count_up_dev"
  by (simp_all add: count_up_dev_def dev_busy_def pagecnt_def)

theorem streaming_debug_reads_hang_witness:
  "streaming_main (readWord dev_read) (userWriteWord dev_read dev_write) (userReadWord dev_read)
    (\<lambda>_ _. 0) (pcie_dma_upd (\<lambda>_ u. u)) (Init_Pcie dev_write count_up_dev) = None
  \<and> user_get count_up_dev (user_run count_up_dev 12000001 0) 4 = 4"
  using streaming_debug_reads_hang [OF count_up_dev_facts, of "\<lambda>_ u. u"]
  by (simp add: dma_keeps_def count_up_dev_def)

text \<open>C38: on the device the commands of \<open>FlashManager\<close> go nowhere: 171 of them return without a word for the
  user logic, and as their 513 writes have used the window up, no further command returns.\<close>

theorem flash_commands_lost:
  assumes "userWriteQ d = []" "length xs = 171"
  shows "\<exists>f. each (flash_call (writeWord dev_read dev_write)) xs \<lparr>pcie = Init_Pcie dev_write d, storebuffer = b\<rparr> = Some f
    \<and> dev_written (snd (pcie f)) = dev_written d
    \<and> (\<forall>x. flash_call (writeWord dev_read dev_write) x f = None)"
  by (rule flash_commands_exhaust [OF assms])

theorem flash_commands_lost_witness:
  "\<exists>f. each (flash_call (writeWord dev_read dev_write)) (replicate 171 (EraseBlock 1 1 1))
      \<lparr>pcie = Init_Pcie dev_write (idle_dev (\<lambda>_. 1)), storebuffer = None\<rparr> = Some f
    \<and> dev_written (snd (pcie f)) = []
    \<and> flash_call (writeWord dev_read dev_write) (WritePage 1 1 1 0 PageBufferW) f = None"
  using flash_commands_lost [OF idle_dev_live(1), of "replicate 171 (EraseBlock 1 1 1)" None]
  unfolding length_replicate by (auto simp: idle_dev_def dev_written_def simp del: each.simps flash_call.simps)

text \<open>The flash test itself makes only two commands: it prints the magic word and returns, and the
  user logic sees neither.\<close>

theorem flash_test_returns:
  assumes "userWriteQ d = []"
  shows "\<exists>f. flash_main (readWord dev_read) (writeWord dev_read dev_write) (Init_Pcie dev_write d) = Some (0xc001d00d, f)
    \<and> dev_written (snd (pcie f)) = dev_written d \<and> storebuffer f = Some PageBufferW"
  by (rule flash_main_device [OF assms])

theorem flash_test_returns_witness:
  "\<exists>f. flash_main (readWord dev_read) (writeWord dev_read dev_write) (Init_Pcie dev_write (idle_dev (\<lambda>_. 1)))
    = Some (0xc001d00d, f)"
  using flash_test_returns [OF idle_dev_live(1)] by blast

text \<open>C26: the constructor of \<open>FlashManager\<close> starts a thread that asks for the instance before it is stored:
  for every \<open>n\<close> there is a run that makes \<open>n\<close> objects and stores none, each with a thread that goes on
  to the next; the main program and the thread can end up with two different objects. Only if
  the main program stores its object first it stays the only one, however the threads go on.\<close>

theorem flash_instance_race:
  "(\<forall>n. \<exists>ts s. run_flash ts flash_process_start = Some s \<and> m_pInstance s = None \<and> made s = n)
   \<and> (\<exists>ts s. run_flash ts flash_process_start = Some s \<and> fpc s 0 = Has 0 \<and> fpc s 1 = Has 1)
   \<and> (\<forall>ts s. run_flash ([0, 0, 0] @ ts) flash_process_start = Some s \<longrightarrow> made s = 1 \<and> m_pInstance s = Some 0)"
  using flash_chain flash_two_objects flash_first_stays by blast

theorem flash_instance_race_witness:
  "\<exists>s. run_flash [0, 0, 0, 1, 1] flash_process_start = Some s \<and> made s = 1 \<and> m_pInstance s = Some 0"
proof -
  obtain s where s: "run_flash ([0, 0, 0] @ [1, 1]) flash_process_start = Some s"
    by (simp add: FlashManager_getInstance_def flash_process_start_def)
  moreover have "made s = 1 \<and> m_pInstance s = Some 0" using flash_instance_race s by blast
  ultimately show ?thesis by auto
qed

end
